theory Spec2Isabelle
  imports Main "HOL-Library.Word"
begin

unbundle bit_operations_syntax

section \<open>Basic types\<close>

type_synonym u8 = "8 word"
type_synonym u16 = "16 word"
type_synonym u32 = "32 word"

text \<open>
  A \<^verbatim>\<open>wchar_t\<close> is a 16-bit code unit on the target platform. A NUL-terminated wide
  string is modelled by the list of its code units before the terminator.
\<close>

type_synonym wstr = "u16 list"

section \<open>UTF-8 parser (utf8.c, utf8.h)\<close>

definition UTF8_ERROR :: u32 where
  "UTF8_ERROR = 0xFFFD"

definition UTF8_MORE :: u32 where
  "UTF8_MORE = 0xFFFFFFFF"

text \<open>\<^verbatim>\<open>tUtf8Ctx\<close>: the code point under construction and the number of bytes still missing.\<close>

record tUtf8Ctx =
  cp :: u32
  rem :: int

definition utf8_parse :: "tUtf8Ctx \<Rightarrow> u8 \<Rightarrow> u32 \<times> tUtf8Ctx" where
  "utf8_parse ctx b =
     (if rem ctx = 0 then
        (if b \<le> 0x7F then (ucast b, ctx)
         else if b AND 0xE0 = 0xC0 then (UTF8_MORE, ctx\<lparr>cp := ucast (b AND 0x1F), rem := 1\<rparr>)
         else if b AND 0xF0 = 0xE0 then (UTF8_MORE, ctx\<lparr>cp := ucast (b AND 0x0F), rem := 2\<rparr>)
         else if b AND 0xF8 = 0xF0 then (UTF8_MORE, ctx\<lparr>cp := ucast (b AND 0x07), rem := 3\<rparr>)
         else (UTF8_ERROR, ctx))
      else
        (if b AND 0xC0 \<noteq> 0x80 then (UTF8_ERROR, ctx\<lparr>rem := 0\<rparr>)
         else
           (let ctx' = ctx\<lparr>cp := push_bit 6 (cp ctx) OR ucast (b AND 0x3F), rem := rem ctx - 1\<rparr>
            in if rem ctx' = 0 then (cp ctx', ctx') else (UTF8_MORE, ctx'))))"

section \<open>String buffer (strbuf.i, instantiated as \<^verbatim>\<open>usb_\<close> by ustrbuf.c)\<close>

text \<open>
  A \<^verbatim>\<open>tUStrBuf\<close> is a linked list of fixed-size chunks; its content is the sequence
  of characters added so far, which is what the model keeps. Memory allocation is taken
  to succeed throughout this development, so \<^verbatim>\<open>usb_addC\<close> and \<^verbatim>\<open>usb_add\<close>
  always return 1 and the out-of-memory exits of the callers are not modelled.
\<close>

type_synonym tUStrBuf = "u16 list"

definition usb_addC :: "tUStrBuf \<Rightarrow> u16 \<Rightarrow> tUStrBuf" where
  "usb_addC sb c = sb @ [c]"

fun usb_add :: "tUStrBuf \<Rightarrow> wstr \<Rightarrow> tUStrBuf" where
  "usb_add sb [] = sb"
| "usb_add sb (c # string) = usb_add (usb_addC sb c) string"

text \<open>
  \<^verbatim>\<open>usb_get\<close> copies the content into a new string. \<^verbatim>\<open>usb_copyToStr\<close> returns the
  number of characters in the buffer and \<^verbatim>\<open>usb_get\<close> takes 0 for an error, so the result
  is \<^verbatim>\<open>NULL\<close> for an empty buffer. The string read from the result ends at the first
  terminator.
\<close>

definition usb_get :: "tUStrBuf \<Rightarrow> wstr option" where
  "usb_get sb = (if sb = [] then None else Some (takeWhile (\<lambda>c. c \<noteq> 0) sb))"

text \<open>Wide string literals: every character of the literal is one code unit.\<close>

definition L :: "string \<Rightarrow> wstr" where
  "L s = map (\<lambda>c. of_nat (of_char c)) s"

section \<open>Decoding of subprocess output (siguwi-process.c, processHandleReadComplete)\<close>

definition PROCESS_MAX_OUTPUT :: nat where
  "PROCESS_MAX_OUTPUT = 1024 * 1024"

text \<open>
  The variables of the decoding loop: the parser context, the log of the job, the number
  of decoded code points, the most recent code point and the flag \<^verbatim>\<open>added\<close>.
\<close>

record tReadLoop =
  l_utf8 :: tUtf8Ctx
  l_output :: tUStrBuf
  l_outputLen :: nat
  l_lastChr :: u32
  l_added :: bool

text \<open>The body of the \<^verbatim>\<open>for\<close> loop, for one received byte.\<close>

definition decodeByte :: "tReadLoop \<Rightarrow> u8 \<Rightarrow> tReadLoop" where
  "decodeByte s b =
     (case utf8_parse (l_utf8 s) b of (cp0, u) \<Rightarrow>
        if cp0 = UTF8_MORE then s\<lparr>l_utf8 := u\<rparr>
        else
          (let cp1 = (if cp0 > 0x10FFFF then UTF8_ERROR else cp0);
               out =
                 (if cp1 < 0x10000 then
                    (let o1 = (if cp1 = 0x0A \<and> l_lastChr s \<noteq> 0x0D
                               then usb_addC (l_output s) 0x0D else l_output s)
                     in if cp1 \<noteq> 0 then usb_addC o1 (ucast cp1) else o1)
                  else
                    (let sp = cp1 - 0x10000
                     in usb_addC (usb_addC (l_output s) (ucast (drop_bit 10 sp + 0xD800)))
                          (ucast ((sp AND 0x3FF) + 0xDC00))))
           in s\<lparr>l_utf8 := u, l_output := out, l_lastChr := cp1,
                 l_outputLen := l_outputLen s + 1, l_added := True\<rparr>))"

text \<open>The loop runs while bytes remain and the cap has not been reached.\<close>

fun decodeLoop :: "u8 list \<Rightarrow> tReadLoop \<Rightarrow> tReadLoop" where
  "decodeLoop [] s = s"
| "decodeLoop (b # bs) s =
     (if l_outputLen s < PROCESS_MAX_OUTPUT then decodeLoop bs (decodeByte s b) else s)"

definition truncationNotice :: wstr where
  "truncationNotice =
     [0x0D, 0x0A] @ L (replicate 80 CHR ''-'') @ [0x0D, 0x0A] @ L ''The output has been truncated here.''"

section \<open>Certificate identities (siguwi.h, siguwi-ini.c)\<close>

text \<open>
  \<^verbatim>\<open>tIniConfigBase\<close>: the strings that identify a key container. A field is \<open>None\<close>
  when the pointer is \<^verbatim>\<open>NULL\<close>. The field \<^verbatim>\<open>certProv\<close> is not used by the code
  modelled here. A \<^verbatim>\<open>tRcIniConfigBase\<close> adds a reference count to share one object
  between jobs; the model shares the value.
\<close>

record tIniConfigBase =
  certId :: "wstr option"
  cardName :: "wstr option"
  cardReader :: "wstr option"

text \<open>\<^verbatim>\<open>wcscmp\<close> of the C library: the sign of the first difference.\<close>

fun wcscmp :: "wstr \<Rightarrow> wstr \<Rightarrow> int" where
  "wcscmp [] [] = 0"
| "wcscmp [] (y # ys) = - 1"
| "wcscmp (x # xs) [] = 1"
| "wcscmp (x # xs) (y # ys) = (if x = y then wcscmp xs ys else if x < y then - 1 else 1)"

definition INT_MAX :: int where
  "INT_MAX = 2147483647"

definition INT_MIN :: int where
  "INT_MIN = - 2147483648"

text \<open>
  The macro \<^verbatim>\<open>_CMP_PTR(l, r, fn)\<close>: \<open>Some x\<close> when it returns \<open>x\<close> from the
  enclosing function, \<open>None\<close> when control falls through to the next statement. Two
  \<^verbatim>\<open>NULL\<close> pointers are the same pointer, which returns 0 at once. Two strings that are
  both present belong to different allocations (\<^verbatim>\<open>rcIniConfigBaseCreate\<close> duplicates
  every string), or to the same object, for which the comparison returns 0 as well.
\<close>

fun CMP_PTR :: "wstr option \<Rightarrow> wstr option \<Rightarrow> int option" where
  "CMP_PTR None None = Some 0"
| "CMP_PTR None (Some r) = Some INT_MAX"
| "CMP_PTR (Some l) None = Some INT_MIN"
| "CMP_PTR (Some l) (Some r) = (if wcscmp l r \<noteq> 0 then Some (wcscmp l r) else None)"

definition rcIniConfigBaseCmp :: "tIniConfigBase \<Rightarrow> tIniConfigBase \<Rightarrow> int" where
  "rcIniConfigBaseCmp lhs rhs =
     (case CMP_PTR (certId lhs) (certId rhs) of Some res \<Rightarrow> res | None \<Rightarrow>
      (case CMP_PTR (cardName lhs) (cardName rhs) of Some res \<Rightarrow> res | None \<Rightarrow>
       (case CMP_PTR (cardReader lhs) (cardReader rhs) of Some res \<Rightarrow> res | None \<Rightarrow> 0)))"

definition crc32Table :: "u32 list" where
  "crc32Table = [
      0x00000000, 0x77073096, 0xEE0E612C, 0x990951BA, 0x076DC419, 0x706AF48F, 0xE963A535, 0x9E6495A3,
      0x0EDB8832, 0x79DCB8A4, 0xE0D5E91E, 0x97D2D988, 0x09B64C2B, 0x7EB17CBD, 0xE7B82D07, 0x90BF1D91,
      0x1DB71064, 0x6AB020F2, 0xF3B97148, 0x84BE41DE, 0x1ADAD47D, 0x6DDDE4EB, 0xF4D4B551, 0x83D385C7,
      0x136C9856, 0x646BA8C0, 0xFD62F97A, 0x8A65C9EC, 0x14015C4F, 0x63066CD9, 0xFA0F3D63, 0x8D080DF5,
      0x3B6E20C8, 0x4C69105E, 0xD56041E4, 0xA2677172, 0x3C03E4D1, 0x4B04D447, 0xD20D85FD, 0xA50AB56B,
      0x35B5A8FA, 0x42B2986C, 0xDBBBC9D6, 0xACBCF940, 0x32D86CE3, 0x45DF5C75, 0xDCD60DCF, 0xABD13D59,
      0x26D930AC, 0x51DE003A, 0xC8D75180, 0xBFD06116, 0x21B4F4B5, 0x56B3C423, 0xCFBA9599, 0xB8BDA50F,
      0x2802B89E, 0x5F058808, 0xC60CD9B2, 0xB10BE924, 0x2F6F7C87, 0x58684C11, 0xC1611DAB, 0xB6662D3D,
      0x76DC4190, 0x01DB7106, 0x98D220BC, 0xEFD5102A, 0x71B18589, 0x06B6B51F, 0x9FBFE4A5, 0xE8B8D433,
      0x7807C9A2, 0x0F00F934, 0x9609A88E, 0xE10E9818, 0x7F6A0DBB, 0x086D3D2D, 0x91646C97, 0xE6635C01,
      0x6B6B51F4, 0x1C6C6162, 0x856530D8, 0xF262004E, 0x6C0695ED, 0x1B01A57B, 0x8208F4C1, 0xF50FC457,
      0x65B0D9C6, 0x12B7E950, 0x8BBEB8EA, 0xFCB9887C, 0x62DD1DDF, 0x15DA2D49, 0x8CD37CF3, 0xFBD44C65,
      0x4DB26158, 0x3AB551CE, 0xA3BC0074, 0xD4BB30E2, 0x4ADFA541, 0x3DD895D7, 0xA4D1C46D, 0xD3D6F4FB,
      0x4369E96A, 0x346ED9FC, 0xAD678846, 0xDA60B8D0, 0x44042D73, 0x33031DE5, 0xAA0A4C5F, 0xDD0D7CC9,
      0x5005713C, 0x270241AA, 0xBE0B1010, 0xC90C2086, 0x5768B525, 0x206F85B3, 0xB966D409, 0xCE61E49F,
      0x5EDEF90E, 0x29D9C998, 0xB0D09822, 0xC7D7A8B4, 0x59B33D17, 0x2EB40D81, 0xB7BD5C3B, 0xC0BA6CAD,
      0xEDB88320, 0x9ABFB3B6, 0x03B6E20C, 0x74B1D29A, 0xEAD54739, 0x9DD277AF, 0x04DB2615, 0x73DC1683,
      0xE3630B12, 0x94643B84, 0x0D6D6A3E, 0x7A6A5AA8, 0xE40ECF0B, 0x9309FF9D, 0x0A00AE27, 0x7D079EB1,
      0xF00F9344, 0x8708A3D2, 0x1E01F268, 0x6906C2FE, 0xF762575D, 0x806567CB, 0x196C3671, 0x6E6B06E7,
      0xFED41B76, 0x89D32BE0, 0x10DA7A5A, 0x67DD4ACC, 0xF9B9DF6F, 0x8EBEEFF9, 0x17B7BE43, 0x60B08ED5,
      0xD6D6A3E8, 0xA1D1937E, 0x38D8C2C4, 0x4FDFF252, 0xD1BB67F1, 0xA6BC5767, 0x3FB506DD, 0x48B2364B,
      0xD80D2BDA, 0xAF0A1B4C, 0x36034AF6, 0x41047A60, 0xDF60EFC3, 0xA867DF55, 0x316E8EEF, 0x4669BE79,
      0xCB61B38C, 0xBC66831A, 0x256FD2A0, 0x5268E236, 0xCC0C7795, 0xBB0B4703, 0x220216B9, 0x5505262F,
      0xC5BA3BBE, 0xB2BD0B28, 0x2BB45A92, 0x5CB36A04, 0xC2D7FFA7, 0xB5D0CF31, 0x2CD99E8B, 0x5BDEAE1D,
      0x9B64C2B0, 0xEC63F226, 0x756AA39C, 0x026D930A, 0x9C0906A9, 0xEB0E363F, 0x72076785, 0x05005713,
      0x95BF4A82, 0xE2B87A14, 0x7BB12BAE, 0x0CB61B38, 0x92D28E9B, 0xE5D5BE0D, 0x7CDCEFB7, 0x0BDBDF21,
      0x86D3D2D4, 0xF1D4E242, 0x68DDB3F8, 0x1FDA836E, 0x81BE16CD, 0xF6B9265B, 0x6FB077E1, 0x18B74777,
      0x88085AE6, 0xFF0F6A70, 0x66063BCA, 0x11010B5C, 0x8F659EFF, 0xF862AE69, 0x616BFFD3, 0x166CCF45,
      0xA00AE278, 0xD70DD2EE, 0x4E048354, 0x3903B3C2, 0xA7672661, 0xD06016F7, 0x4969474D, 0x3E6E77DB,
      0xAED16A4A, 0xD9D65ADC, 0x40DF0B66, 0x37D83BF0, 0xA9BCAE53, 0xDEBB9EC5, 0x47B2CF7F, 0x30B5FFE9,
      0xBDBDF21C, 0xCABAC28A, 0x53B39330, 0x24B4A3A6, 0xBAD03605, 0xCDD70693, 0x54DE5729, 0x23D967BF,
      0xB3667A2E, 0xC4614AB8, 0x5D681B02, 0x2A6F2B94, 0xB40BBE37, 0xC30C8EA1, 0x5A05DF1B, 0x2D02EF8D
     ]"

text \<open>The bytes of a wide string in memory (little endian), without the terminator.\<close>

definition wbytes :: "wstr \<Rightarrow> u8 list" where
  "wbytes s = concat (map (\<lambda>c. [ucast c, ucast (drop_bit 8 c)]) s)"

definition crc32Update :: "u32 \<Rightarrow> u8 list \<Rightarrow> u32" where
  "crc32Update seed data =
     foldl (\<lambda>s b. (crc32Table ! unat ((ucast b XOR s) AND 0xFF)) XOR drop_bit 8 s) seed data"

definition rcIniConfigBaseHash :: "tIniConfigBase \<Rightarrow> nat \<Rightarrow> nat" where
  "rcIniConfigBaseHash key limit =
     unat (foldl (\<lambda>hash str. case str of None \<Rightarrow> hash | Some s \<Rightarrow> crc32Update hash (wbytes s))
             0xFFFFFFFF [certId key, cardName key, cardReader key] XOR 0xFFFFFFFF) mod limit"

text \<open>
  \<^verbatim>\<open>rcIniConfigBaseCreate\<close> duplicates the three strings; it is only called with all
  three present, and yields \<^verbatim>\<open>NULL\<close> unless all three copies exist.
\<close>

definition rcIniConfigBaseCreate :: "tIniConfigBase \<Rightarrow> tIniConfigBase option" where
  "rcIniConfigBaseCreate c =
     (if certId c = None \<or> cardName c = None \<or> cardReader c = None then None else Some c)"

section \<open>Hash table of PIN blobs (htableo.c)\<close>

text \<open>
  A \<^verbatim>\<open>DATA_BLOB\<close>: \<open>None\<close> when \<^verbatim>\<open>pbData\<close> is \<^verbatim>\<open>NULL\<close>, otherwise the bytes.
\<close>

type_synonym DATA_BLOB = "u8 list option"

text \<open>
  \<^verbatim>\<open>tHTableO\<close> as created by \<^verbatim>\<open>showProcess\<close>: an array of \<^verbatim>\<open>tableSize\<close> chains of
  elements, each a key with its data, compared by \<^verbatim>\<open>rcIniConfigBaseCmp\<close> and hashed by
  \<^verbatim>\<open>rcIniConfigBaseHash\<close>. A pointer to the data of an element is modelled by the
  position of the element: the index of its chain and its index in the chain.
\<close>

record tHTableO =
  tableSize :: nat
  table :: "(tIniConfigBase \<times> DATA_BLOB) list list"

definition hto_create :: "nat \<Rightarrow> tHTableO" where
  "hto_create n = \<lparr>tableSize = n, table = replicate n []\<rparr>"

text \<open>
  The walk of \<^verbatim>\<open>hto_getKey\<close> along one chain: it advances while there is a next element
  and the key differs, then tests the element it stopped at.
\<close>

fun chainFind :: "(tIniConfigBase \<times> DATA_BLOB) list \<Rightarrow> tIniConfigBase \<Rightarrow> nat \<Rightarrow> nat option" where
  "chainFind [] key i = None"
| "chainFind [e] key i = (if rcIniConfigBaseCmp (fst e) key = 0 then Some i else None)"
| "chainFind (e # e' # es) key i =
     (if rcIniConfigBaseCmp (fst e) key \<noteq> 0 then chainFind (e' # es) key (Suc i) else Some i)"

definition hto_getKey :: "tHTableO \<Rightarrow> tIniConfigBase \<Rightarrow> (nat \<times> nat) option" where
  "hto_getKey ht key =
     (let tablePosition = rcIniConfigBaseHash key (tableSize ht)
      in map_option (\<lambda>i. (tablePosition, i)) (chainFind (table ht ! tablePosition) key 0))"

definition hto_addKey :: "tHTableO \<Rightarrow> tIniConfigBase \<Rightarrow> (nat \<times> nat) \<times> tHTableO" where
  "hto_addKey ht key =
     (case hto_getKey ht key of
        Some element \<Rightarrow> (element, ht)
      | None \<Rightarrow>
          (let tablePosition = rcIniConfigBaseHash key (tableSize ht);
               chain = table ht ! tablePosition
           in ((tablePosition, length chain),
               ht\<lparr>table := (table ht)[tablePosition := chain @ [(key, None)]]\<rparr>)))"

text \<open>Reading and writing the blob an element pointer refers to.\<close>

definition blobAt :: "tHTableO \<Rightarrow> nat \<times> nat \<Rightarrow> DATA_BLOB" where
  "blobAt ht p = snd (table ht ! fst p ! snd p)"

definition blobSet :: "tHTableO \<Rightarrow> nat \<times> nat \<Rightarrow> DATA_BLOB \<Rightarrow> tHTableO" where
  "blobSet ht p b =
     ht\<lparr>table := (table ht)[fst p := (table ht ! fst p)[snd p := (fst (table ht ! fst p ! snd p), b)]]\<rparr>"

section \<open>Jobs and the window context (siguwi.h)\<close>

datatype tProcState =
    PST_IDLE
  | PST_RUNNING
  | PST_OK
  | PST_FAIL
  | PST_FILE_NOT_FOUND
  | PST_BROKEN_PIPE
  | PST_APP_NOT_FOUND
  | PST_PIN_MISSING
  | PST_PIN_WRONG

datatype tIpcState =
    IST_CERT_ID
  | IST_CARD_NAME
  | IST_CARD_READER
  | IST_SIGN_APP
  | IST_FILE

text \<open>
  \<^verbatim>\<open>tProcCtx\<close>, one job. \<^verbatim>\<open>processAddFile\<close> is the only function that creates jobs
  and it rejects a \<^verbatim>\<open>NULL\<close> configuration or command, so both are always present. The
  field \<^verbatim>\<open>pinValid\<close> is never read or written.
\<close>

record tProcCtx =
  state :: tProcState
  config :: tIniConfigBase
  signApp :: wstr
  path :: wstr
  "output" :: tUStrBuf

text \<open>\<^verbatim>\<open>tIniConfig\<close>, the header fields received from a client.\<close>

record tIniConfig =
  cert :: tIniConfigBase
  cfg_signApp :: "wstr option"

text \<open>
  The calls to the operating system that the claims speak about are recorded, in order,
  in the field \<open>oscalls\<close>, which has no counterpart in the source.
\<close>

datatype tOsCall =
    CredUIPromptForWindowsCredentials tIniConfigBase
  | CreateProcessW wstr
  | WriteFile_stdin "u8 list"
  | FlushFileBuffers_stdin
  | CloseHandle_stdin
  | DisconnectNamedPipe
  | ConnectNamedPipe
  | CloseHandle_hPipe

text \<open>
  \<^verbatim>\<open>tIpcWndCtx\<close> without the window handles.
  \<^item> \<open>hPipe\<close> tells whether the handle is valid.
  \<^item> \<open>buf\<close> holds the first \<^verbatim>\<open>bufLen\<close> bytes of the receive buffer, so that
    \<^verbatim>\<open>bufLen\<close> is its length.
  \<^item> \<open>ovRead\<close> and \<open>ovProcRead\<close> tell whether an asynchronous read is pending on the
    client pipe and on the output pipe of the subprocess.
  \<^item> \<open>v\<close> holds the elements of the vector and \<open>capacity\<close> is the field of that name
    of the \<^verbatim>\<open>tVector\<close>: the number of elements its buffer has room for.
  \<^item> \<open>proc\<close> points into the buffer of the vector \<open>v\<close>: \<open>Some i\<close> is the address of
    element \<open>i\<close>. The pointer is only good as long as that buffer is; see
    \<^verbatim>\<open>processAddFile\<close>.
  \<^item> the IPC state is called \<open>ipcState\<close>, since \<open>state\<close> names the state of a job.
\<close>

record tIpcWndCtx =
  hPipe :: bool
  waitForClient :: bool
  ovRead :: bool
  buf :: "u8 list"
  cfg :: tIniConfig
  cfgBase :: "tIniConfigBase option"
  ipcState :: tIpcState
  v :: "tProcCtx list"
  capacity :: nat
  h :: tHTableO
  proc :: "nat option"
  vi :: nat
  ovProcRead :: bool
  utf8 :: tUtf8Ctx
  outputLen :: nat
  lastChar :: u32
  oscalls :: "tOsCall list"

section \<open>Answers of the operating system\<close>

text \<open>
  How the creation of the output pipe of a job ends (lines 301 to 371 of
  \<^verbatim>\<open>processStart\<close>): \<^verbatim>\<open>UuidToStringW\<close> fails, or one of the later steps fails (pipe
  creation, connection, the checks of the peer process id, the anonymous pipe), or all
  succeed.
\<close>

datatype tPipeSetup = UuidFailed | PipeFailed | PipeReady

text \<open>
  The answers given while job \<open>i\<close> is enqueued, started and finished. Each job is started
  at most once, so one record per job covers every call.
  \<^item> \<open>e_fullPath\<close>: the result of \<^verbatim>\<open>wToFullPath\<close>, \<open>None\<close> when it fails;
  \<^item> \<open>e_fileExists\<close>: \<^verbatim>\<open>wFileExists\<close>;
  \<^item> \<open>e_cardStatus\<close>: \<^verbatim>\<open>iniConfigGetCardStatus\<close> succeeds;
  \<^item> \<open>e_prompt\<close>: the credential prompt returns \<^verbatim>\<open>ERROR_SUCCESS\<close>;
  \<^item> \<open>e_unpack\<close>: the PIN buffer (\<^verbatim>\<open>rawPinLen\<close> characters, terminator included) from
    \<^verbatim>\<open>CredUnPackAuthenticationBuffer\<close>, \<open>None\<close> when it fails;
  \<^item> \<open>e_validate\<close>: \<^verbatim>\<open>iniConfigValidatePin\<close>, the answer of the crypto provider;
  \<^item> \<open>e_protect\<close>: the blob from \<^verbatim>\<open>CryptProtectData\<close>, \<open>None\<close> when it fails;
  \<^item> \<open>e_createProcess\<close>, \<open>e_writeFile\<close>, \<open>e_readAsync\<close>: \<^verbatim>\<open>CreateProcessW\<close>, the
    complete \<^verbatim>\<open>WriteFile\<close> to the standard input, the first \<^verbatim>\<open>ReadFileEx\<close> succeed;
  \<^item> \<open>e_wait\<close>: \<^verbatim>\<open>WaitForSingleObject\<close> does not fail;
  \<^item> \<open>e_exitCode\<close>: the exit code from \<^verbatim>\<open>GetExitCodeProcess\<close>, \<open>None\<close> when it fails.
\<close>

record tJobEnv =
  e_fullPath :: "wstr option"
  e_fileExists :: bool
  e_pipeSetup :: tPipeSetup
  e_cardStatus :: bool
  e_prompt :: bool
  e_unpack :: "u16 list option"
  e_validate :: bool
  e_protect :: "u8 list option"
  e_createProcess :: bool
  e_writeFile :: bool
  e_readAsync :: bool
  e_wait :: bool
  e_exitCode :: "u32 option"

text \<open>
  The operating system: the answers per job, \<^verbatim>\<open>CryptUnprotectData\<close> (the decrypted
  buffer as wide characters, \<open>None\<close> on failure) and the conversion to UTF-8 done by
  \<^verbatim>\<open>WideCharToMultiByte\<close> for \<^verbatim>\<open>wToUtf8\<close> (\<open>None\<close> on failure).
\<close>

record tOs =
  jobEnv :: "nat \<Rightarrow> tJobEnv"
  CryptUnprotectData :: "u8 list \<Rightarrow> u16 list option"
  WideCharToMultiByte :: "wstr \<Rightarrow> u8 list option"

text \<open>The string that starts at the beginning of a buffer of wide characters.\<close>

definition wcs :: "u16 list \<Rightarrow> wstr" where
  "wcs b = takeWhile (\<lambda>c. c \<noteq> 0) b"

section \<open>Credential store (siguwi-ini.c, iniConfigGetPin)\<close>

text \<open>
  \<^verbatim>\<open>iniConfigGetPin\<close> returns its result, the blob it leaves in \<^verbatim>\<open>*pin\<close> and the calls
  it made. After the prompt has returned the result is \<^verbatim>\<open>true\<close> on every path, and the
  blob stays empty unless unpacking, validation and encryption all succeed.
\<close>

definition iniConfigGetPin ::
    "tJobEnv \<Rightarrow> tIniConfigBase \<Rightarrow> DATA_BLOB \<Rightarrow> bool \<times> DATA_BLOB \<times> tOsCall list" where
  "iniConfigGetPin e c pin =
     (if cardName c = None \<or> cardReader c = None \<or> certId c = None then (False, pin, [])
      else if \<not> e_cardStatus e then (False, None, [])
      else if \<not> e_prompt e then (False, None, [CredUIPromptForWindowsCredentials c])
      else
        (case e_unpack e of
           None \<Rightarrow> (True, None, [CredUIPromptForWindowsCredentials c])
         | Some rawPin \<Rightarrow>
             if \<not> e_validate e then (True, None, [CredUIPromptForWindowsCredentials c])
             else (True, e_protect e, [CredUIPromptForWindowsCredentials c])))"

section \<open>Process runner (siguwi-process.c)\<close>

text \<open>
  Lines 372 to 393 of \<^verbatim>\<open>processStart\<close>, "get and cache pin" and "decode pin": the
  new job state on a jump to \<^verbatim>\<open>onError\<close>, or the decrypted PIN buffer.
\<close>

definition getPin :: "tOs \<Rightarrow> tJobEnv \<Rightarrow> tIniConfigBase \<Rightarrow> tIpcWndCtx \<Rightarrow> (tProcState + u16 list) \<times> tIpcWndCtx" where
  "getPin os e c ctx =
     (case hto_addKey (h ctx) c of (pin, ht) \<Rightarrow>
        (let ctx1 = ctx\<lparr>h := ht\<rparr>;
             (res, ctx2) =
               (if blobAt ht pin = None then
                  (case iniConfigGetPin e c (blobAt ht pin) of (ok, blob, calls) \<Rightarrow>
                     (if \<not> ok then Some PST_PIN_MISSING
                      else if blob = None then Some PST_PIN_WRONG
                      else None,
                      ctx1\<lparr>h := blobSet ht pin blob, oscalls := oscalls ctx1 @ calls\<rparr>))
                else (None, ctx1))
         in case res of
              Some newState \<Rightarrow> (Inl newState, ctx2)
            | None \<Rightarrow>
                (case CryptUnprotectData os (the (blobAt (h ctx2) pin)) of
                   None \<Rightarrow> (Inl PST_PIN_WRONG, ctx2)
                 | Some rawPin \<Rightarrow>
                     if rawPin = [] \<or> last rawPin \<noteq> 0 then (Inl PST_PIN_WRONG, ctx2)
                     else (Inr rawPin, ctx2))))"

text \<open>
  The loop that builds the command line (lines 400 to 427): the rest of the template,
  the flags \<^verbatim>\<open>esc\<close> and \<^verbatim>\<open>hasPinArg\<close> and the buffer.
\<close>

fun cmdLoop :: "wstr \<Rightarrow> wstr \<Rightarrow> wstr \<Rightarrow> bool \<Rightarrow> bool \<Rightarrow> tUStrBuf \<Rightarrow> tUStrBuf \<times> bool" where
  "cmdLoop [] fpath pin esc hasPinArg cmdBuf = (cmdBuf, hasPinArg)"
| "cmdLoop (c # ptr) fpath pin esc hasPinArg cmdBuf =
     (if c = 0 then (cmdBuf, hasPinArg)
      else if esc then
        (if c = 0x31 then cmdLoop ptr fpath pin False hasPinArg (usb_add cmdBuf fpath)
         else if c = 0x32 then cmdLoop ptr fpath pin False True (usb_add cmdBuf pin)
         else cmdLoop ptr fpath pin False hasPinArg (usb_addC cmdBuf c))
      else if c = 0x25 then cmdLoop ptr fpath pin True hasPinArg cmdBuf
      else cmdLoop ptr fpath pin False hasPinArg (usb_addC cmdBuf c))"

definition buildCmd :: "wstr \<Rightarrow> wstr \<Rightarrow> wstr \<Rightarrow> wstr option \<times> bool" where
  "buildCmd template fpath pin =
     (case cmdLoop template fpath pin False False [] of (cmdBuf, hasPinArg) \<Rightarrow> (usb_get cmdBuf, hasPinArg))"

text \<open>The assignment \<^verbatim>\<open>ctx->proc->state = st\<close> for \<^verbatim>\<open>proc\<close> pointing at element \<open>p\<close>.\<close>

definition setState :: "nat \<Rightarrow> tProcState \<Rightarrow> tIpcWndCtx \<Rightarrow> tIpcWndCtx" where
  "setState p st ctx = ctx\<lparr>v := (v ctx)[p := (v ctx ! p)\<lparr>state := st\<rparr>]\<rparr>"

definition addCalls :: "tOsCall list \<Rightarrow> tIpcWndCtx \<Rightarrow> tIpcWndCtx" where
  "addCalls cs ctx = ctx\<lparr>oscalls := oscalls ctx @ cs\<rparr>"

text \<open>
  Lines 394 to 485 of \<^verbatim>\<open>processStart\<close>: the command line is built, the subprocess is
  created and the PIN is passed, for a job and the decrypted PIN buffer. The result is
  \<open>Some newState\<close> on a jump to \<^verbatim>\<open>onError\<close> and \<open>None\<close> when the subprocess runs,
  with the calls made. Both exits close the write end of the standard input. When
  \<^verbatim>\<open>usb_get\<close> yields \<^verbatim>\<open>NULL\<close> (lines 435 to 438) the jump to \<^verbatim>\<open>onError\<close> is taken with
  \<^verbatim>\<open>PST_FAIL\<close> before any process is created.
\<close>

definition spawnChild :: "tOs \<Rightarrow> tJobEnv \<Rightarrow> tProcCtx \<Rightarrow> u16 list \<Rightarrow> tProcState option \<times> tOsCall list" where
  "spawnChild os e job rawPin =
     (case buildCmd (signApp job) (path job) (wcs rawPin) of
        (None, hasPinArg) \<Rightarrow> (Some PST_FAIL, [CloseHandle_stdin])
      | (Some cmd, hasPinArg) \<Rightarrow>
          if \<not> e_createProcess e
          then (Some PST_APP_NOT_FOUND, [CreateProcessW cmd, CloseHandle_stdin])
          else if hasPinArg
          then (None, [CreateProcessW cmd, CloseHandle_stdin])
          else
            (case WideCharToMultiByte os (wcs rawPin) of
               None \<Rightarrow> (Some PST_PIN_MISSING, [CreateProcessW cmd, CloseHandle_stdin])
             | Some utf8Pin \<Rightarrow>
                 if \<not> e_writeFile e
                 then (Some PST_PIN_MISSING, [CreateProcessW cmd, CloseHandle_stdin])
                 else (None, [CreateProcessW cmd, WriteFile_stdin utf8Pin,
                              FlushFileBuffers_stdin, CloseHandle_stdin])))"

text \<open>
  \<^verbatim>\<open>processStart\<close> from the creation of the pipes up to the closing of the write end of
  the standard input (lines 299 to 485) for the job at index \<open>p\<close>: \<open>Some newState\<close> on a
  jump to \<^verbatim>\<open>onError\<close> or \<^verbatim>\<open>onEarlyError\<close>, \<open>None\<close> when the subprocess runs. The error
  exit closes the write end of the standard input once the anonymous pipe exists.
\<close>

definition processSpawn :: "tOs \<Rightarrow> nat \<Rightarrow> tIpcWndCtx \<Rightarrow> tProcState option \<times> tIpcWndCtx" where
  "processSpawn os p ctx =
     (case e_pipeSetup (jobEnv os p) of
        UuidFailed \<Rightarrow> (Some PST_FAIL, ctx)
      | PipeFailed \<Rightarrow> (Some PST_BROKEN_PIPE, ctx)
      | PipeReady \<Rightarrow>
          (case getPin os (jobEnv os p) (config (v ctx ! p)) ctx of
             (Inl newState, ctx1) \<Rightarrow> (Some newState, addCalls [CloseHandle_stdin] ctx1)
           | (Inr rawPin, ctx1) \<Rightarrow>
               (case spawnChild os (jobEnv os p) (v ctx ! p) rawPin of
                  (res, calls) \<Rightarrow> (res, addCalls calls ctx1))))"

definition processReadAsync :: "bool \<Rightarrow> tIpcWndCtx \<Rightarrow> bool \<times> tIpcWndCtx" where
  "processReadAsync ok ctx =
     (if proc ctx = None then (False, ctx) else (ok, ctx\<lparr>ovProcRead := ok\<rparr>))"

text \<open>The decimal digits printed by \<^verbatim>\<open>%u\<close>.\<close>

function decimal :: "nat \<Rightarrow> wstr" where
  "decimal n = (if n < 10 then [of_nat (48 + n)] else decimal (n div 10) @ [of_nat (48 + n mod 10)])"
  by pat_completeness auto
termination
  by (relation "measure (\<lambda>n. n)") auto

definition exitCodeNotice :: "u32 \<Rightarrow> wstr" where
  "exitCodeNotice code =
     [0x0D, 0x0A] @ L (replicate 80 CHR ''-'') @ [0x0D, 0x0A]
       @ L ''Command failed with exit code '' @ decimal (unat code) @ L ''.''"

definition processFinish :: "tOs \<Rightarrow> tIpcWndCtx \<Rightarrow> bool \<times> tIpcWndCtx" where
  "processFinish os ctx =
     (case proc ctx of
        None \<Rightarrow> (False, ctx)
      | Some p \<Rightarrow>
          (let e = jobEnv os p
           in if \<not> e_wait e then (False, setState p PST_FAIL ctx)
              else
                (case e_exitCode e of
                   None \<Rightarrow> (False, setState p PST_FAIL ctx)
                 | Some dwExitCode \<Rightarrow>
                     if dwExitCode \<noteq> 0
                     then (False, setState p PST_FAIL
                             (ctx\<lparr>v := (v ctx)[p := (v ctx ! p)
                                \<lparr>output := usb_add (output (v ctx ! p)) (exitCodeNotice dwExitCode)\<rparr>]\<rparr>))
                     else (True, (setState p PST_OK ctx)\<lparr>proc := None\<rparr>))))"

text \<open>The scan of \<^verbatim>\<open>processNext\<close> from index \<open>i\<close> for the first idle job.\<close>

function findIdle :: "tProcCtx list \<Rightarrow> nat \<Rightarrow> nat option" where
  "findIdle jobs i =
     (if i < length jobs
      then (if state (jobs ! i) \<noteq> PST_IDLE then findIdle jobs (Suc i) else Some i)
      else None)"
  by pat_completeness auto
termination
  by (relation "measure (\<lambda>(jobs, i). length jobs - i)") auto

definition idleCount :: "tIpcWndCtx \<Rightarrow> nat" where
  "idleCount ctx = length (filter (\<lambda>j. state j = PST_IDLE) (v ctx))"

lemma v_addCalls [simp]: "v (addCalls cs ctx) = v ctx"
  by (simp add: addCalls_def)

lemma proc_addCalls [simp]: "proc (addCalls cs ctx) = proc ctx"
  by (simp add: addCalls_def)

lemma getPin_changes:
  "\<exists>ht calls. snd (getPin os e c ctx) = ctx\<lparr>h := ht, oscalls := oscalls ctx @ calls\<rparr>"
proof -
  obtain pin ht where a: "hto_addKey (h ctx) c = (pin, ht)" by (cases "hto_addKey (h ctx) c")
  obtain ok blob calls where i: "iniConfigGetPin e c (blobAt ht pin) = (ok, blob, calls)"
    by (cases "iniConfigGetPin e c (blobAt ht pin)") auto
  show ?thesis
  proof (cases "blobAt ht pin = None")
    case True
    have "snd (getPin os e c ctx) = ctx\<lparr>h := blobSet ht pin blob, oscalls := oscalls ctx @ calls\<rparr>"
      using True i by (simp add: getPin_def a Let_def split: option.split)
    then show ?thesis by blast
  next
    case False
    then obtain y where y: "blobAt ht pin = Some y" by auto
    have "snd (getPin os e c ctx) = ctx\<lparr>h := ht, oscalls := oscalls ctx @ []\<rparr>"
      by (simp add: getPin_def a y Let_def split: option.split)
    then show ?thesis by blast
  qed
qed

lemma processSpawn_changes:
  "\<exists>ht calls. snd (processSpawn os p ctx) = ctx\<lparr>h := ht, oscalls := oscalls ctx @ calls\<rparr>"
proof (cases "e_pipeSetup (jobEnv os p)")
  case UuidFailed
  have "snd (processSpawn os p ctx) = ctx\<lparr>h := h ctx, oscalls := oscalls ctx @ []\<rparr>"
    by (simp add: processSpawn_def UuidFailed)
  then show ?thesis by blast
next
  case PipeFailed
  have "snd (processSpawn os p ctx) = ctx\<lparr>h := h ctx, oscalls := oscalls ctx @ []\<rparr>"
    by (simp add: processSpawn_def PipeFailed)
  then show ?thesis by blast
next
  case PipeReady
  obtain r c1 where g: "getPin os (jobEnv os p) (config (v ctx ! p)) ctx = (r, c1)"
    by (cases "getPin os (jobEnv os p) (config (v ctx ! p)) ctx")
  obtain ht calls where c1: "c1 = ctx\<lparr>h := ht, oscalls := oscalls ctx @ calls\<rparr>"
    using getPin_changes[of os "jobEnv os p" "config (v ctx ! p)" ctx] by (auto simp: g)
  show ?thesis
  proof (cases r)
    case (Inl st)
    have "snd (processSpawn os p ctx) = ctx\<lparr>h := ht, oscalls := oscalls ctx @ (calls @ [CloseHandle_stdin])\<rparr>"
      by (simp add: processSpawn_def PipeReady g Inl c1 addCalls_def)
    then show ?thesis by blast
  next
    case (Inr rawPin)
    obtain res cs where sc: "spawnChild os (jobEnv os p) (v ctx ! p) rawPin = (res, cs)"
      by (cases "spawnChild os (jobEnv os p) (v ctx ! p) rawPin")
    have "snd (processSpawn os p ctx) = ctx\<lparr>h := ht, oscalls := oscalls ctx @ (calls @ cs)\<rparr>"
      by (simp add: processSpawn_def PipeReady g Inr sc c1 addCalls_def)
    then show ?thesis by blast
  qed
qed

lemma v_processSpawn [simp]: "v (snd (processSpawn os p ctx)) = v ctx"
  using processSpawn_changes[of os p ctx] by auto

lemma proc_processSpawn [simp]: "proc (snd (processSpawn os p ctx)) = proc ctx"
  using processSpawn_changes[of os p ctx] by auto

lemma filter_update_less:
  "p < length xs \<Longrightarrow> P (xs ! p) \<Longrightarrow> \<not> P y \<Longrightarrow>
     length (filter P (xs[p := y])) < length (filter P xs)"
proof (induction xs arbitrary: p)
  case Nil then show ?case by simp
next
  case (Cons a xs)
  show ?case
  proof (cases p)
    case 0 then show ?thesis using Cons.prems by (simp add: le_imp_less_Suc)
  next
    case (Suc q)
    then show ?thesis using Cons.prems Cons.IH[of q] by simp
  qed
qed

lemma filter_update_le:
  "\<not> P y \<Longrightarrow> length (filter P (xs[p := y])) \<le> length (filter P xs)"
proof (induction xs arbitrary: p)
  case Nil then show ?case by simp
next
  case (Cons a xs)
  show ?case
  proof (cases p)
    case 0 then show ?thesis using Cons.prems by simp
  next
    case (Suc q)
    then show ?thesis using Cons.prems Cons.IH[of q] by simp
  qed
qed

lemma filter_update_same:
  "P y = P (xs ! p) \<Longrightarrow> length (filter P (xs[p := y])) = length (filter P xs)"
proof (induction xs arbitrary: p)
  case Nil then show ?case by simp
next
  case (Cons a xs)
  show ?case
  proof (cases p)
    case 0 then show ?thesis using Cons.prems by simp
  next
    case (Suc q)
    then show ?thesis using Cons.prems Cons.IH[of q] by simp
  qed
qed

lemma idleCount_setState_less:
  "p < length (v ctx) \<Longrightarrow> state (v ctx ! p) = PST_IDLE \<Longrightarrow> st \<noteq> PST_IDLE \<Longrightarrow>
     idleCount (setState p st ctx) < idleCount ctx"
  by (simp add: idleCount_def setState_def filter_update_less)

lemma idleCount_setState_le:
  "st \<noteq> PST_IDLE \<Longrightarrow> idleCount (setState p st ctx) \<le> idleCount ctx"
  by (simp add: idleCount_def setState_def filter_update_le)

lemma idleCount_output [simp]:
  "idleCount (ctx\<lparr>v := (v ctx)[p := (v ctx ! p)\<lparr>output := x\<rparr>]\<rparr>) = idleCount ctx"
  by (simp add: idleCount_def filter_update_same)

lemma idleCount_proc [simp]: "idleCount (ctx\<lparr>proc := x\<rparr>) = idleCount ctx"
  by (simp add: idleCount_def)

lemma idleCount_processFinish: "idleCount (snd (processFinish os ctx)) \<le> idleCount ctx"
proof (cases "proc ctx")
  case None then show ?thesis by (simp add: processFinish_def)
next
  case (Some p)
  have a: "idleCount (setState p PST_FAIL c) \<le> idleCount c" for c
    by (rule idleCount_setState_le) simp
  have b: "idleCount (setState p PST_OK c) \<le> idleCount c" for c
    by (rule idleCount_setState_le) simp
  have c: "idleCount (setState p PST_FAIL (ctx\<lparr>v := (v ctx)[p := (v ctx ! p)\<lparr>output := x\<rparr>]\<rparr>)) \<le> idleCount ctx" for x
    using a[of "ctx\<lparr>v := (v ctx)[p := (v ctx ! p)\<lparr>output := x\<rparr>]\<rparr>"] by simp
  show ?thesis using Some a b c
    by (simp add: processFinish_def Let_def split: option.split)
qed

text \<open>
  \<^verbatim>\<open>processStart\<close> and \<^verbatim>\<open>processNext\<close> call each other: when the first read on the
  output pipe cannot be posted, the job is finished at once and the next one is selected.
  \<^verbatim>\<open>proc\<close> is only ever set by \<^verbatim>\<open>processNext\<close> to an element of the vector; the bound
  check on \<open>p\<close> stands for the validity of that pointer. \<^verbatim>\<open>processUpdateItem\<close> only
  refreshes the window and is left out.
\<close>

function processStart :: "tOs \<Rightarrow> tIpcWndCtx \<Rightarrow> bool \<times> tIpcWndCtx"
  and processNext :: "tOs \<Rightarrow> tIpcWndCtx \<Rightarrow> bool \<times> tIpcWndCtx" where
  "processStart os ctx =
     (case proc ctx of
        None \<Rightarrow> (False, ctx)
      | Some p \<Rightarrow>
          if \<not> p < length (v ctx) \<or> state (v ctx ! p) \<noteq> PST_IDLE then (False, ctx)
          else
            (case processSpawn os p ctx of
               (Some newState, ctx1) \<Rightarrow> (False, setState p newState ctx1)
             | (None, ctx1) \<Rightarrow>
                 (case processReadAsync (e_readAsync (jobEnv os p))
                         (setState p PST_RUNNING
                            (ctx1\<lparr>utf8 := \<lparr>cp = 0, rem = 0\<rparr>, outputLen := 0, lastChar := 0\<rparr>)) of
                    (True, ctx2) \<Rightarrow> (True, ctx2)
                  | (False, ctx2) \<Rightarrow> processNext os (snd (processFinish os ctx2)))))"
| "processNext os ctx =
     (if (case proc ctx of None \<Rightarrow> False | Some p \<Rightarrow> state (v ctx ! p) = PST_RUNNING)
      then (False, ctx)
      else processStart os
             (case findIdle (v ctx) (vi ctx) of None \<Rightarrow> ctx | Some i \<Rightarrow> ctx\<lparr>proc := Some i, vi := i\<rparr>))"
  by pat_completeness auto
termination
  apply (relation "measure (\<lambda>x. case x of Inl (os, ctx) \<Rightarrow> 2 * idleCount ctx | Inr (os, ctx) \<Rightarrow> 2 * idleCount ctx + 1)")
  subgoal by simp
  subgoal for os ctx p x y xa ya
  proof -
    assume a: "proc ctx = Some p" "\<not> (\<not> p < length (v ctx) \<or> state (v ctx ! p) \<noteq> PST_IDLE)"
      "(x, y) = processSpawn os p ctx"
      "(xa, ya) = processReadAsync (e_readAsync (jobEnv os p))
          (setState p PST_RUNNING (y\<lparr>utf8 := \<lparr>cp = 0, rem = 0\<rparr>, outputLen := 0, lastChar := 0\<rparr>))"
    have vy: "v y = v ctx" using v_processSpawn[of os p ctx] by (simp add: a(3)[symmetric])
    let ?c = "setState p PST_RUNNING (y\<lparr>utf8 := \<lparr>cp = 0, rem = 0\<rparr>, outputLen := 0, lastChar := 0\<rparr>)"
    have "idleCount ?c < idleCount (y\<lparr>utf8 := \<lparr>cp = 0, rem = 0\<rparr>, outputLen := 0, lastChar := 0\<rparr>)"
      by (rule idleCount_setState_less) (use a(2) vy in simp_all)
    then have 1: "idleCount ?c < idleCount ctx" using vy by (simp add: idleCount_def)
    have "ya = snd (processReadAsync (e_readAsync (jobEnv os p)) ?c)" by (simp add: a(4)[symmetric])
    then have "v ya = v ?c" by (simp add: processReadAsync_def)
    then have 2: "idleCount ya = idleCount ?c" by (simp add: idleCount_def)
    show ?thesis using 1 2 idleCount_processFinish[of os ya] by simp
  qed
  subgoal for os ctx
    by (cases "findIdle (v ctx) (vi ctx)") (simp_all add: idleCount_def)
  done

declare processStart.simps [simp del]
declare processNext.simps [simp del]

text \<open>
  \<^verbatim>\<open>processHandleReadComplete\<close>: the completion of a read of the bytes \<open>data\<close> from the
  output pipe, with \<^verbatim>\<open>dwNumberOfBytesTransfered\<close> their number. \<open>readOk\<close> tells whether
  the next \<^verbatim>\<open>ReadFileEx\<close> can be posted.
\<close>

definition processHandleReadComplete :: "tOs \<Rightarrow> u32 \<Rightarrow> u8 list \<Rightarrow> bool \<Rightarrow> tIpcWndCtx \<Rightarrow> tIpcWndCtx" where
  "processHandleReadComplete os dwErrorCode data readOk ctx0 =
     (let ctx = ctx0\<lparr>ovProcRead := False\<rparr>
      in case (if dwErrorCode = 0 \<and> data \<noteq> [] then proc ctx else None) of
           Some p \<Rightarrow>
             (let s = decodeLoop data
                        \<lparr>l_utf8 = utf8 ctx, l_output = output (v ctx ! p), l_outputLen = outputLen ctx,
                         l_lastChr = lastChar ctx, l_added = False\<rparr>;
                  out = (if l_added s \<and> l_outputLen s \<ge> PROCESS_MAX_OUTPUT
                         then usb_add (l_output s) truncationNotice else l_output s);
                  ctx1 = ctx\<lparr>utf8 := l_utf8 s, outputLen := l_outputLen s, lastChar := l_lastChr s,
                             v := (v ctx)[p := (v ctx ! p)\<lparr>output := out\<rparr>]\<rparr>
              in case processReadAsync readOk ctx1 of
                   (True, ctx2) \<Rightarrow> ctx2
                 | (False, ctx2) \<Rightarrow> snd (processNext os (snd (processFinish os ctx2))))
         | None \<Rightarrow> snd (processNext os (snd (processFinish os ctx))))"

text \<open>
  \<^verbatim>\<open>vec_pushBack\<close> (vector.c): when the vector is full, \<^verbatim>\<open>vec_reserve\<close> allocates a
  buffer of twice the capacity (of \<^verbatim>\<open>LIBPCF_VEC_INIT_CAPACITY\<close> elements for the first
  one), copies the elements and frees the old buffer. The result tells whether a buffer
  was freed, which leaves every pointer into it dangling.
\<close>

definition LIBPCF_VEC_INIT_CAPACITY :: nat where
  "LIBPCF_VEC_INIT_CAPACITY = 16"

definition vec_pushBack :: "tProcCtx \<Rightarrow> tIpcWndCtx \<Rightarrow> bool \<times> tIpcWndCtx" where
  "vec_pushBack item ctx =
     (if length (v ctx) \<ge> capacity ctx
      then (capacity ctx > 0,
            ctx\<lparr>v := v ctx @ [item],
                capacity := (if capacity ctx > 0 then capacity ctx * 2 else LIBPCF_VEC_INIT_CAPACITY)\<rparr>)
      else (False, ctx\<lparr>v := v ctx @ [item]\<rparr>))"

text \<open>
  \<^verbatim>\<open>processAddFile\<close>: the new job takes the next index of the vector. Inserting the
  row into the list view is taken to succeed. \<^verbatim>\<open>ctx->proc\<close> is not adjusted when
  \<^verbatim>\<open>vec_pushBack\<close> moves the vector, and the call of \<^verbatim>\<open>processNext\<close> that follows reads
  \<^verbatim>\<open>ctx->proc->state\<close> whenever \<^verbatim>\<open>ctx->proc\<close> is not \<^verbatim>\<open>NULL\<close>. With a buffer freed and
  \<^verbatim>\<open>ctx->proc\<close> set, that is a read of freed memory: the behaviour of the program is
  undefined from there on, and the result is \<open>None\<close>.
\<close>

definition processAddFile ::
    "tOs \<Rightarrow> tIniConfigBase option \<Rightarrow> wstr option \<Rightarrow> wstr \<Rightarrow> tIpcWndCtx \<Rightarrow> (bool \<times> tIpcWndCtx) option" where
  "processAddFile os c sApp fpath ctx =
     (case (c, sApp) of
        (Some c', Some sApp') \<Rightarrow>
          (let e = jobEnv os (length (v ctx));
               full = (case e_fullPath e of None \<Rightarrow> fpath | Some p \<Rightarrow> p);
               item = \<lparr>state = (if e_fileExists e then PST_IDLE else PST_FILE_NOT_FOUND),
                       config = c', signApp = sApp', path = full, output = []\<rparr>
           in case vec_pushBack item ctx of
                (freed, ctx1) \<Rightarrow>
                  if freed \<and> proc ctx \<noteq> None then None
                  else Some (True, snd (processNext os ctx1)))
      | _ \<Rightarrow> Some (False, ctx))"

section \<open>Properties of the output decoder\<close>

lemma decodeLoop_append: "decodeLoop (a @ b) s = decodeLoop b (decodeLoop a s)"
proof (induction a arbitrary: s)
  case Nil show ?case by simp
next
  case (Cons x xs)
  show ?case
  proof (cases "l_outputLen s < PROCESS_MAX_OUTPUT")
    case True then show ?thesis using Cons by simp
  next
    case False
    then have "decodeLoop b s = s" by (cases b) simp_all
    with False show ?thesis by simp
  qed
qed

lemma decodeLoop_capped: "PROCESS_MAX_OUTPUT \<le> l_outputLen s \<Longrightarrow> decodeLoop bs s = s"
  by (cases bs) simp_all

lemma decodeByte_len: "l_outputLen s \<le> l_outputLen (decodeByte s b)"
  by (simp add: decodeByte_def Let_def split: prod.split)

lemma decodeLoop_len: "l_outputLen s \<le> l_outputLen (decodeLoop bs s)"
proof (induction bs arbitrary: s)
  case Nil show ?case by simp
next
  case (Cons b bs)
  show ?case using Cons[of "decodeByte s b"] decodeByte_len[of s b] by simp
qed

lemma decodeByte_added:
  "l_added (decodeByte s b) = (l_added s \<or> l_outputLen s < l_outputLen (decodeByte s b))"
  by (simp add: decodeByte_def Let_def split: prod.split)

lemma decodeLoop_added:
  "l_added (decodeLoop bs s) = (l_added s \<or> l_outputLen s < l_outputLen (decodeLoop bs s))"
proof (induction bs arbitrary: s)
  case Nil show ?case by simp
next
  case (Cons b bs)
  show ?case
    using Cons[of "decodeByte s b"] decodeByte_added[of s b] decodeByte_len[of s b]
      decodeLoop_len[of "decodeByte s b" bs]
    by auto
qed

lemma decodeByte_added_frame:
  "(decodeByte (s\<lparr>l_added := x\<rparr>) b)\<lparr>l_added := y\<rparr> = (decodeByte s b)\<lparr>l_added := y\<rparr>"
  by (simp add: decodeByte_def Let_def split: prod.split)

lemma decodeLoop_added_frame:
  "(decodeLoop bs (s\<lparr>l_added := x\<rparr>))\<lparr>l_added := y\<rparr> = (decodeLoop bs s)\<lparr>l_added := y\<rparr>"
proof (induction bs arbitrary: s x)
  case Nil show ?case by simp
next
  case (Cons b bs)
  have e: "decodeByte (s\<lparr>l_added := x\<rparr>) b = (decodeByte s b)\<lparr>l_added := l_added (decodeByte (s\<lparr>l_added := x\<rparr>) b)\<rparr>"
    using decodeByte_added_frame[where s = s and x = x and b = b and y = "l_added (decodeByte (s\<lparr>l_added := x\<rparr>) b)"] by simp
  show ?case
  proof (cases "l_outputLen s < PROCESS_MAX_OUTPUT")
    case True
    have "(decodeLoop (b # bs) (s\<lparr>l_added := x\<rparr>))\<lparr>l_added := y\<rparr>
          = (decodeLoop bs (decodeByte (s\<lparr>l_added := x\<rparr>) b))\<lparr>l_added := y\<rparr>"
      using True by simp
    also have "\<dots> = (decodeLoop bs ((decodeByte s b)\<lparr>l_added := l_added (decodeByte (s\<lparr>l_added := x\<rparr>) b)\<rparr>))\<lparr>l_added := y\<rparr>"
      using e by simp
    also have "\<dots> = (decodeLoop bs (decodeByte s b))\<lparr>l_added := y\<rparr>"
      by (rule Cons)
    finally show ?thesis using True by simp
  next
    case False then show ?thesis by simp
  qed
qed

definition readLoopInit :: "tIpcWndCtx \<Rightarrow> nat \<Rightarrow> tReadLoop" where
  "readLoopInit ctx p =
     \<lparr>l_utf8 = utf8 ctx, l_output = output (v ctx ! p), l_outputLen = outputLen ctx,
      l_lastChr = lastChar ctx, l_added = False\<rparr>"

definition readLoopLog :: "tReadLoop \<Rightarrow> tUStrBuf" where
  "readLoopLog s =
     (if l_added s \<and> l_outputLen s \<ge> PROCESS_MAX_OUTPUT
      then usb_add (l_output s) truncationNotice else l_output s)"

lemma processHandleReadComplete_data:
  assumes "proc ctx = Some p" and "data \<noteq> []"
  shows "processHandleReadComplete os 0 data True ctx =
           ctx\<lparr>ovProcRead := True,
               utf8 := l_utf8 (decodeLoop data (readLoopInit ctx p)),
               outputLen := l_outputLen (decodeLoop data (readLoopInit ctx p)),
               lastChar := l_lastChr (decodeLoop data (readLoopInit ctx p)),
               v := (v ctx)[p := (v ctx ! p)\<lparr>output := readLoopLog (decodeLoop data (readLoopInit ctx p))\<rparr>]\<rparr>"
  using assms
  by (simp add: processHandleReadComplete_def processReadAsync_def readLoopInit_def readLoopLog_def Let_def)

lemma readLoop_split:
  fixes s :: tReadLoop and a b :: "u8 list"
  assumes "l_added s = False"
  defines "ta \<equiv> decodeLoop a s"
  defines "s' \<equiv> \<lparr>l_utf8 = l_utf8 ta, l_output = readLoopLog ta, l_outputLen = l_outputLen ta,
                    l_lastChr = l_lastChr ta, l_added = False\<rparr>"
  shows "l_utf8 (decodeLoop b s') = l_utf8 (decodeLoop (a @ b) s)"
    and "l_outputLen (decodeLoop b s') = l_outputLen (decodeLoop (a @ b) s)"
    and "l_lastChr (decodeLoop b s') = l_lastChr (decodeLoop (a @ b) s)"
    and "readLoopLog (decodeLoop b s') = readLoopLog (decodeLoop (a @ b) s)"
proof -
  have ab: "decodeLoop (a @ b) s = decodeLoop b ta"
    by (simp add: decodeLoop_append ta_def)
  have all: "l_utf8 (decodeLoop b s') = l_utf8 (decodeLoop b ta)
      \<and> l_outputLen (decodeLoop b s') = l_outputLen (decodeLoop b ta)
      \<and> l_lastChr (decodeLoop b s') = l_lastChr (decodeLoop b ta)
      \<and> readLoopLog (decodeLoop b s') = readLoopLog (decodeLoop b ta)"
  proof (cases "l_added ta \<and> PROCESS_MAX_OUTPUT \<le> l_outputLen ta")
    case True
    have 1: "decodeLoop b s' = s'"
      by (rule decodeLoop_capped) (use True in \<open>simp add: s'_def\<close>)
    have 2: "decodeLoop b ta = ta"
      by (rule decodeLoop_capped) (use True in simp)
    show ?thesis unfolding 1 2 using True by (simp add: s'_def readLoopLog_def)
  next
    case False
    then have s': "s' = ta\<lparr>l_added := False\<rparr>"
      by (auto simp: s'_def readLoopLog_def)
    let ?tb = "decodeLoop b s'" and ?t = "decodeLoop b ta"
    have fr: "?tb\<lparr>l_added := True\<rparr> = ?t\<lparr>l_added := True\<rparr>"
      unfolding s' by (rule decodeLoop_added_frame)
    have u: "l_utf8 ?tb = l_utf8 ?t"
      using arg_cong[OF fr, of l_utf8] by simp
    have n: "l_outputLen ?tb = l_outputLen ?t"
      using arg_cong[OF fr, of l_outputLen] by simp
    have c: "l_lastChr ?tb = l_lastChr ?t"
      using arg_cong[OF fr, of l_lastChr] by simp
    have o: "l_output ?tb = l_output ?t"
      using arg_cong[OF fr, of l_output] by simp
    have ab': "l_added ?tb = (l_outputLen ta < l_outputLen ?t)"
      using decodeLoop_added[of b s'] n by (simp add: s')
    have at: "l_added ?t = (l_added ta \<or> l_outputLen ta < l_outputLen ?t)"
      by (rule decodeLoop_added)
    have mono: "l_outputLen ta \<le> l_outputLen ?t"
      by (rule decodeLoop_len)
    have "(l_added ?tb \<and> PROCESS_MAX_OUTPUT \<le> l_outputLen ?tb)
            = (l_added ?t \<and> PROCESS_MAX_OUTPUT \<le> l_outputLen ?t)"
      using ab' at n mono False by auto
    then have "readLoopLog ?tb = readLoopLog ?t"
      by (simp add: readLoopLog_def o)
    then show ?thesis using u n c by simp
  qed
  show "l_utf8 (decodeLoop b s') = l_utf8 (decodeLoop (a @ b) s)"
    and "l_outputLen (decodeLoop b s') = l_outputLen (decodeLoop (a @ b) s)"
    and "l_lastChr (decodeLoop b s') = l_lastChr (decodeLoop (a @ b) s)"
    and "readLoopLog (decodeLoop b s') = readLoopLog (decodeLoop (a @ b) s)"
    using all by (simp_all add: ab)
qed

lemma processHandleReadComplete_split:
  assumes p: "proc ctx = Some p" "p < length (v ctx)" and a: "a \<noteq> []" and b: "b \<noteq> []"
  shows "processHandleReadComplete os 0 b True (processHandleReadComplete os 0 a True ctx)
           = processHandleReadComplete os 0 (a @ b) True ctx"
proof -
  let ?ta = "decodeLoop a (readLoopInit ctx p)"
  let ?c1 = "processHandleReadComplete os 0 a True ctx"
  have c1: "?c1 = ctx\<lparr>ovProcRead := True, utf8 := l_utf8 ?ta, outputLen := l_outputLen ?ta,
               lastChar := l_lastChr ?ta,
               v := (v ctx)[p := (v ctx ! p)\<lparr>output := readLoopLog ?ta\<rparr>]\<rparr>"
    by (rule processHandleReadComplete_data[OF p(1) a])
  have p1: "proc ?c1 = Some p" by (simp add: c1 p)
  have init1: "readLoopInit ?c1 p =
      \<lparr>l_utf8 = l_utf8 ?ta, l_output = readLoopLog ?ta, l_outputLen = l_outputLen ?ta,
       l_lastChr = l_lastChr ?ta, l_added = False\<rparr>"
    by (simp add: c1 readLoopInit_def p(2))
  have i0: "l_added (readLoopInit ctx p) = False" by (simp add: readLoopInit_def)
  note sp = readLoop_split[OF i0, of b a, folded init1]
  have ab: "a @ b \<noteq> []" using a by simp
  show ?thesis
    unfolding processHandleReadComplete_data[OF p1 b] processHandleReadComplete_data[OF p(1) ab] sp
    by (simp add: c1 p(2))
qed

lemma unat_ucast_32_16: "unat (w :: u32) < 65536 \<Longrightarrow> unat (ucast w :: u16) = unat w"
  by (simp add: unsigned_ucast_eq take_bit_nat_eq_self_iff)

lemma surrogate_sp:
  fixes c :: u32
  assumes "0x10000 \<le> c" "c \<le> 0x10FFFF"
  shows "unat (c - 0x10000) = unat c - 0x10000" "unat c - 0x10000 < 0x100000" "0x10000 \<le> unat c"
proof -
  show a: "unat (c - 0x10000) = unat c - 0x10000"
    using assms(1) by (simp add: unat_sub)
  have "unat c \<le> 0x10FFFF" using assms(2) by (simp add: word_le_nat_alt)
  then show "unat c - 0x10000 < 0x100000" by simp
  show "0x10000 \<le> unat c" using assms(1) by (simp add: word_le_nat_alt)
qed

lemma surrogate_hi:
  fixes c :: u32
  assumes "0x10000 \<le> c" "c \<le> 0x10FFFF"
  shows "unat (ucast (drop_bit 10 (c - 0x10000) + 0xD800) :: u16) = 0xD800 + (unat c - 0x10000) div 1024"
proof -
  let ?sp = "c - 0x10000"
  have d: "unat (drop_bit 10 ?sp) = (unat c - 0x10000) div 1024"
    by (simp add: unat_drop_bit_eq unat_div surrogate_sp(1)[OF assms] drop_bit_eq_div)
  have lt: "(unat c - 0x10000) div 1024 < 1024" using surrogate_sp(2)[OF assms] by simp
  have "unat (drop_bit 10 ?sp + 0xD800) = unat (drop_bit 10 ?sp) + unat (0xD800 :: u32)"
    by (rule unat_add_lem[THEN iffD1]) (use d lt in simp)
  then have e: "unat (drop_bit 10 ?sp + 0xD800) = (unat c - 0x10000) div 1024 + 0xD800"
    using d by simp
  show ?thesis using e lt by (simp add: unat_ucast_32_16)
qed

lemma surrogate_lo:
  fixes c :: u32
  assumes "0x10000 \<le> c" "c \<le> 0x10FFFF"
  shows "unat (ucast (((c - 0x10000) AND 0x3FF) + 0xDC00) :: u16) = 0xDC00 + (unat c - 0x10000) mod 1024"
proof -
  let ?sp = "c - 0x10000"
  have m: "?sp AND 0x3FF = take_bit 10 ?sp"
    by (simp add: take_bit_eq_mask mask_eq_exp_minus_1)
  have d: "unat (?sp AND 0x3FF) = (unat c - 0x10000) mod 1024"
    unfolding m by (simp add: unsigned_take_bit_eq unat_mod surrogate_sp(1)[OF assms] take_bit_eq_mod)
  have lt: "(unat c - 0x10000) mod 1024 < 1024" by simp
  have "unat ((?sp AND 0x3FF) + 0xDC00) = unat (?sp AND 0x3FF) + unat (0xDC00 :: u32)"
    by (rule unat_add_lem[THEN iffD1]) (use d lt in simp)
  then have e: "unat ((?sp AND 0x3FF) + 0xDC00) = (unat c - 0x10000) mod 1024 + 0xDC00"
    using d by simp
  show ?thesis using e lt by (simp add: unat_ucast_32_16)
qed

lemma decodeByte_surrogates:
  assumes "utf8_parse (l_utf8 s) b = (c, u)" and "0x10000 \<le> c" and "c \<le> 0x10FFFF"
  shows "\<exists>hi lo. l_output (decodeByte s b) = l_output s @ [hi, lo]
           \<and> 0xD800 \<le> unat hi \<and> unat hi \<le> 0xDBFF \<and> 0xDC00 \<le> unat lo \<and> unat lo \<le> 0xDFFF
           \<and> 0x10000 + (unat hi - 0xD800) * 1024 + (unat lo - 0xDC00) = unat c"
proof -
  let ?hi = "ucast (drop_bit 10 (c - 0x10000) + 0xD800) :: u16"
  let ?lo = "ucast (((c - 0x10000) AND 0x3FF) + 0xDC00) :: u16"
  have more: "c \<noteq> UTF8_MORE" using assms(3) by (auto simp: UTF8_MORE_def)
  have nlt: "\<not> c < 0x10000" using assms(2) by simp
  have ngt: "\<not> 0x10FFFF < c" using assms(3) by simp
  have out: "l_output (decodeByte s b) = l_output s @ [?hi, ?lo]"
    using assms(1) more nlt ngt by (simp add: decodeByte_def Let_def usb_addC_def)
  have lt: "(unat c - 0x10000) div 1024 < 1024" using surrogate_sp(2)[OF assms(2,3)] by simp
  have hi: "unat ?hi = 0xD800 + (unat c - 0x10000) div 1024" by (rule surrogate_hi[OF assms(2,3)])
  have lo: "unat ?lo = 0xDC00 + (unat c - 0x10000) mod 1024" by (rule surrogate_lo[OF assms(2,3)])
  have rt: "0x10000 + (unat ?hi - 0xD800) * 1024 + (unat ?lo - 0xDC00) = unat c"
    unfolding hi lo using surrogate_sp(3)[OF assms(2,3)] by simp
  have "l_output (decodeByte s b) = l_output s @ [?hi, ?lo]
           \<and> 0xD800 \<le> unat ?hi \<and> unat ?hi \<le> 0xDBFF \<and> 0xDC00 \<le> unat ?lo \<and> unat ?lo \<le> 0xDFFF
           \<and> 0x10000 + (unat ?hi - 0xD800) * 1024 + (unat ?lo - 0xDC00) = unat c"
    using out rt lt unfolding hi lo by simp
  then show ?thesis by blast
qed

definition crTracked :: "tReadLoop \<Rightarrow> bool" where
  "crTracked s = (l_lastChr s = 0x0D \<longrightarrow> l_output s \<noteq> [] \<and> last (l_output s) = 0x0D)"

lemma crTracked_decodeByte: "crTracked s \<Longrightarrow> crTracked (decodeByte s b)"
  by (auto simp: crTracked_def decodeByte_def Let_def usb_addC_def UTF8_ERROR_def split: prod.split)

lemma crTracked_decodeLoop: "crTracked s \<Longrightarrow> crTracked (decodeLoop bs s)"
  by (induction bs arbitrary: s) (simp_all add: crTracked_decodeByte)

definition jobStartLoop :: tReadLoop where
  "jobStartLoop = \<lparr>l_utf8 = \<lparr>cp = 0, rem = 0\<rparr>, l_output = [], l_outputLen = 0, l_lastChr = 0, l_added = False\<rparr>"

lemma decodeLoop_lf:
  assumes s: "s = decodeLoop pre jobStartLoop" and n: "l_outputLen s < PROCESS_MAX_OUTPUT"
    and lf: "utf8_parse (l_utf8 s) b = (0x0A, u)"
    and nocr: "l_output s = [] \<or> last (l_output s) \<noteq> 0x0D"
  shows "l_output (decodeLoop [b] s) = l_output s @ [0x0D, 0x0A]"
proof -
  have "crTracked jobStartLoop" by (simp add: crTracked_def jobStartLoop_def)
  then have "crTracked s" unfolding s by (rule crTracked_decodeLoop)
  then have "l_lastChr s \<noteq> 0x0D" using nocr by (auto simp: crTracked_def)
  then show ?thesis using n lf
    by (simp add: decodeByte_def Let_def usb_addC_def UTF8_MORE_def)
qed

lemmas decode_eval = decodeByte_def utf8_parse_def UTF8_MORE_def UTF8_ERROR_def usb_addC_def
  PROCESS_MAX_OUTPUT_def jobStartLoop_def Let_def

lemma decode_example_lf: "l_output (decodeLoop [0x61, 0x0A, 0x62] jobStartLoop) = [0x61, 0x0D, 0x0A, 0x62]"
  by (simp add: decode_eval)

lemma decode_example_crlf: "l_output (decodeLoop [0x61, 0x0D, 0x0A, 0x62] jobStartLoop) = [0x61, 0x0D, 0x0A, 0x62]"
  by (simp add: decode_eval)

lemma decode_example_astral: "l_output (decodeLoop [0xF0, 0x9F, 0x98, 0x80] jobStartLoop) = [0xD83D, 0xDE00]"
  by (simp add: decode_eval)

lemma decodeByte_bmp:
  assumes "utf8_parse (l_utf8 s) b = (c, u)" and "c \<noteq> UTF8_MORE" and "c \<le> 0xFFFF"
  shows "l_outputLen (decodeByte s b) = l_outputLen s + 1
       \<and> (c = 0 \<longrightarrow> l_output (decodeByte s b) = l_output s)
       \<and> (c \<noteq> 0 \<longrightarrow> unat (ucast c :: u16) = unat c
             \<and> l_output (decodeByte s b)
                 = l_output s @ (if c = 0x0A \<and> l_lastChr s \<noteq> 0x0D then [0x0D] else []) @ [ucast c])"
proof -
  have ngt: "\<not> 0x10FFFF < c" using assms(3) by (simp add: word_le_nat_alt word_less_nat_alt)
  have lt: "c < 0x10000" using assms(3) by (simp add: word_le_nat_alt word_less_nat_alt)
  have u: "unat (ucast c :: u16) = unat c"
    by (rule unat_ucast_32_16) (use assms(3) in \<open>simp add: word_le_nat_alt\<close>)
  show ?thesis using assms(1,2) ngt lt u
    by (simp add: decodeByte_def Let_def usb_addC_def)
qed

lemma unat_nonzero: "unat (w :: u16) \<noteq> 0 \<Longrightarrow> w \<noteq> 0"
  by auto

lemma decodeByte_no_nul: "0 \<notin> set (l_output s) \<Longrightarrow> 0 \<notin> set (l_output (decodeByte s b))"
proof (cases "utf8_parse (l_utf8 s) b")
  case (Pair c u)
  assume z: "0 \<notin> set (l_output s)"
  show ?thesis
  proof (cases "c = UTF8_MORE")
    case True then show ?thesis using Pair z by (simp add: decodeByte_def)
  next
    case False
    define c1 where "c1 = (if 0x10FFFF < c then UTF8_ERROR else c)"
    have le: "c1 \<le> 0x10FFFF" by (simp add: c1_def UTF8_ERROR_def not_less)
    show ?thesis
    proof (cases "c1 < 0x10000")
      case True
      then have "unat c1 < 65536" by (simp add: word_less_nat_alt)
      then have "unat (ucast c1 :: u16) = unat c1"
        by (rule unat_ucast_32_16)
      then have nz: "(ucast c1 :: u16) = 0 \<longrightarrow> c1 = 0"
        by (metis unat_eq_0)
      have "l_output (decodeByte s b) =
              l_output s @ (if c1 = 0x0A \<and> l_lastChr s \<noteq> 0x0D then [0x0D] else [])
                @ (if c1 \<noteq> 0 then [ucast c1] else [])"
        using Pair False True by (simp add: decodeByte_def Let_def usb_addC_def c1_def[symmetric])
      then show ?thesis using z nz by simp
    next
      case F: False
      then have ge: "0x10000 \<le> c1" by simp
      have hi: "unat (ucast (drop_bit 10 (c1 - 0x10000) + 0xD800) :: u16) \<noteq> 0"
        unfolding surrogate_hi[OF ge le] by simp
      have lo: "unat (ucast (((c1 - 0x10000) AND 0x3FF) + 0xDC00) :: u16) \<noteq> 0"
        unfolding surrogate_lo[OF ge le] by simp
      have "l_output (decodeByte s b) = l_output s @ [ucast (drop_bit 10 (c1 - 0x10000) + 0xD800), ucast (((c1 - 0x10000) AND 0x3FF) + 0xDC00)]"
        using Pair False F by (simp add: decodeByte_def Let_def usb_addC_def c1_def[symmetric])
      then show ?thesis using z unat_nonzero[OF hi] unat_nonzero[OF lo] by simp
    qed
  qed
qed

lemma decodeLoop_no_nul: "0 \<notin> set (l_output s) \<Longrightarrow> 0 \<notin> set (l_output (decodeLoop bs s))"
  by (induction bs arbitrary: s) (simp_all add: decodeByte_no_nul)

text \<open>The context as \<^verbatim>\<open>showProcess\<close> initialises it for a server with an open pipe.\<close>

definition initialCtx :: tIpcWndCtx where
  "initialCtx =
     \<lparr>hPipe = True, waitForClient = True, ovRead = False, buf = [],
      cfg = \<lparr>cert = \<lparr>certId = None, cardName = None, cardReader = None\<rparr>, cfg_signApp = None\<rparr>,
      cfgBase = None, ipcState = IST_CERT_ID, v = [], capacity = 0, h = hto_create 64, proc = None, vi = 0,
      ovProcRead = False, utf8 = \<lparr>cp = 0, rem = 0\<rparr>, outputLen = 0, lastChar = 0, oscalls = []\<rparr>"

text \<open>Delivering the output of the subprocess as a sequence of successful reads.\<close>

definition feedOutput :: "tOs \<Rightarrow> u8 list list \<Rightarrow> tIpcWndCtx \<Rightarrow> tIpcWndCtx" where
  "feedOutput os chunks ctx = foldl (\<lambda>c data. processHandleReadComplete os 0 data True c) ctx chunks"

lemma feedOutput_concat:
  assumes "proc ctx = Some p" and "p < length (v ctx)" and "a \<noteq> []" and "\<forall>d \<in> set chunks. d \<noteq> []"
  shows "feedOutput os chunks (processHandleReadComplete os 0 a True ctx)
           = processHandleReadComplete os 0 (a @ concat chunks) True ctx"
  using assms(3,4)
proof (induction chunks arbitrary: a)
  case Nil
  show ?case by (simp add: feedOutput_def)
next
  case (Cons d ds)
  have d: "d \<noteq> []" and ds: "\<forall>d \<in> set ds. d \<noteq> []" using Cons.prems(2) by simp_all
  have ad: "a @ d \<noteq> []" using Cons.prems(1) by simp
  have "feedOutput os (d # ds) (processHandleReadComplete os 0 a True ctx)
          = feedOutput os ds (processHandleReadComplete os 0 d True (processHandleReadComplete os 0 a True ctx))"
    by (simp add: feedOutput_def)
  also have "\<dots> = feedOutput os ds (processHandleReadComplete os 0 (a @ d) True ctx)"
    by (simp only: processHandleReadComplete_split[OF assms(1,2) Cons.prems(1) d])
  also have "\<dots> = processHandleReadComplete os 0 ((a @ d) @ concat ds) True ctx"
    by (rule Cons.IH[OF ad ds])
  finally show ?case by simp
qed

text \<open>A started job whose first read is pending, for the examples below.\<close>

definition exampleJob :: tProcCtx where
  "exampleJob =
     \<lparr>state = PST_RUNNING,
      config = \<lparr>certId = Some (L ''C1''), cardName = Some (L ''CardA''), cardReader = Some (L ''Reader1'')\<rparr>,
      signApp = L ''tool.exe %1 %2'', path = L ''fileA.exe'', output = []\<rparr>"

definition runningCtx :: tIpcWndCtx where
  "runningCtx = initialCtx\<lparr>v := [exampleJob], proc := Some 0, ovProcRead := True\<rparr>"

text \<open>
  Claim C8. Decoding of subprocess output does not depend on how the byte stream is cut
  into reads: delivering a non-empty first chunk and then any list of non-empty chunks
  leaves the context, and so the log of the job, exactly as one read of all the bytes
  does. A code point above U+FFFF is appended as a surrogate pair that encodes it. A line
  feed decoded when the log is empty or ends in something other than a carriage return
  gets a carriage return inserted before it, so that "a\n b" without the space becomes
  "a\r\n b" without the space while the same text with the carriage return already
  present is appended unchanged.
\<close>

theorem output_decoding_rechunk_invariant:
  "(\<forall>ctx p a chunks.
       proc ctx = Some p \<and> p < length (v ctx) \<and> a \<noteq> [] \<and> (\<forall>d \<in> set chunks. d \<noteq> []) \<longrightarrow>
         feedOutput os (a # chunks) ctx = processHandleReadComplete os 0 (a @ concat chunks) True ctx)
   \<and> (\<forall>s b c u.
         utf8_parse (l_utf8 s) b = (c, u) \<and> 0x10000 \<le> c \<and> c \<le> 0x10FFFF \<longrightarrow>
           (\<exists>hi lo. l_output (decodeByte s b) = l_output s @ [hi, lo]
              \<and> 0xD800 \<le> unat hi \<and> unat hi \<le> 0xDBFF \<and> 0xDC00 \<le> unat lo \<and> unat lo \<le> 0xDFFF
              \<and> 0x10000 + (unat hi - 0xD800) * 1024 + (unat lo - 0xDC00) = unat c))
   \<and> (\<forall>pre b u.
         l_outputLen (decodeLoop pre jobStartLoop) < PROCESS_MAX_OUTPUT
         \<and> utf8_parse (l_utf8 (decodeLoop pre jobStartLoop)) b = (0x0A, u)
         \<and> (l_output (decodeLoop pre jobStartLoop) = [] \<or> last (l_output (decodeLoop pre jobStartLoop)) \<noteq> 0x0D) \<longrightarrow>
           l_output (decodeLoop (pre @ [b]) jobStartLoop) = l_output (decodeLoop pre jobStartLoop) @ [0x0D, 0x0A])
   \<and> l_output (decodeLoop [0x61, 0x0A, 0x62] jobStartLoop) = [0x61, 0x0D, 0x0A, 0x62]
   \<and> l_output (decodeLoop [0x61, 0x0D, 0x0A, 0x62] jobStartLoop) = [0x61, 0x0D, 0x0A, 0x62]"
proof (intro conjI allI impI)
  fix ctx :: tIpcWndCtx and p and a :: "u8 list" and chunks :: "u8 list list"
  assume "proc ctx = Some p \<and> p < length (v ctx) \<and> a \<noteq> [] \<and> (\<forall>d \<in> set chunks. d \<noteq> [])"
  then show "feedOutput os (a # chunks) ctx = processHandleReadComplete os 0 (a @ concat chunks) True ctx"
    using feedOutput_concat[of ctx p a chunks os] by (simp add: feedOutput_def)
next
  fix s :: tReadLoop and b c u
  assume "utf8_parse (l_utf8 s) b = (c, u) \<and> 0x10000 \<le> c \<and> c \<le> 0x10FFFF"
  then show "\<exists>hi lo. l_output (decodeByte s b) = l_output s @ [hi, lo]
              \<and> 0xD800 \<le> unat hi \<and> unat hi \<le> 0xDBFF \<and> 0xDC00 \<le> unat lo \<and> unat lo \<le> 0xDFFF
              \<and> 0x10000 + (unat hi - 0xD800) * 1024 + (unat lo - 0xDC00) = unat c"
    using decodeByte_surrogates[of s b c u] by blast
next
  fix pre b u
  assume a: "l_outputLen (decodeLoop pre jobStartLoop) < PROCESS_MAX_OUTPUT
         \<and> utf8_parse (l_utf8 (decodeLoop pre jobStartLoop)) b = (0x0A, u)
         \<and> (l_output (decodeLoop pre jobStartLoop) = [] \<or> last (l_output (decodeLoop pre jobStartLoop)) \<noteq> 0x0D)"
  show "l_output (decodeLoop (pre @ [b]) jobStartLoop) = l_output (decodeLoop pre jobStartLoop) @ [0x0D, 0x0A]"
    unfolding decodeLoop_append
    by (rule decodeLoop_lf[OF refl, of pre b u]) (use a in simp_all)
next
  show "l_output (decodeLoop [0x61, 0x0A, 0x62] jobStartLoop) = [0x61, 0x0D, 0x0A, 0x62]"
    by (rule decode_example_lf)
next
  show "l_output (decodeLoop [0x61, 0x0D, 0x0A, 0x62] jobStartLoop) = [0x61, 0x0D, 0x0A, 0x62]"
    by (rule decode_example_crlf)
qed

lemma usb_add_eq: "usb_add sb s = sb @ s"
  by (induction s arbitrary: sb) (simp_all add: usb_addC_def)

lemma truncationNotice_no_nul: "0 \<notin> set truncationNotice"
  by (simp add: truncationNotice_def L_def)

lemma readLoopLog_no_nul: "0 \<notin> set (l_output s) \<Longrightarrow> 0 \<notin> set (readLoopLog s)"
  by (simp add: readLoopLog_def usb_add_eq truncationNotice_no_nul)

lemma processHandleReadComplete_no_nul:
  assumes "proc ctx = Some p" and "p < length (v ctx)" and "data \<noteq> []"
    and "0 \<notin> set (output (v ctx ! p))"
  shows "0 \<notin> set (output (v (processHandleReadComplete os 0 data True ctx) ! p))"
proof -
  have "0 \<notin> set (l_output (readLoopInit ctx p))" using assms(4) by (simp add: readLoopInit_def)
  then have "0 \<notin> set (readLoopLog (decodeLoop data (readLoopInit ctx p)))"
    by (intro readLoopLog_no_nul decodeLoop_no_nul)
  then show ?thesis
    unfolding processHandleReadComplete_data[OF assms(1,3)] using assms(2) by simp
qed

definition exampleJobEnv :: tJobEnv where
  "exampleJobEnv =
     \<lparr>e_fullPath = None, e_fileExists = True, e_pipeSetup = PipeReady, e_cardStatus = True,
      e_prompt = True, e_unpack = Some (L ''1234'' @ [0]), e_validate = True,
      e_protect = Some [1, 2, 3], e_createProcess = True, e_writeFile = True,
      e_readAsync = True, e_wait = True, e_exitCode = Some 0\<rparr>"

definition exampleOs :: tOs where
  "exampleOs =
     \<lparr>jobEnv = (\<lambda>i. exampleJobEnv),
      CryptUnprotectData = (\<lambda>blob. if blob = [1, 2, 3] then Some (L ''1234'' @ [0]) else None),
      WideCharToMultiByte = (\<lambda>w. Some (map ucast w))\<rparr>"


theorem output_decoding_rechunk_invariant_witness:
  "proc runningCtx = Some 0 \<and> 0 < length (v runningCtx) \<and> [0x61 :: u8] \<noteq> []
   \<and> [0x0A :: u8] \<noteq> [] \<and> [0x62 :: u8] \<noteq> []
   \<and> feedOutput exampleOs [[0x61], [0x0A], [0x62]] runningCtx
       = processHandleReadComplete exampleOs 0 ([0x61] @ concat [[0x0A], [0x62]]) True runningCtx
   \<and> output (v (feedOutput exampleOs [[0x61], [0x0A], [0x62]] runningCtx) ! 0) = [0x61, 0x0D, 0x0A, 0x62]
   \<and> utf8_parse (l_utf8 (jobStartLoop\<lparr>l_utf8 := \<lparr>cp = 0x7D8, rem = 1\<rparr>\<rparr>)) 0x80 = (0x1F600, \<lparr>cp = 0x1F600, rem = 0\<rparr>)
   \<and> (0x10000 :: u32) \<le> 0x1F600 \<and> (0x1F600 :: u32) \<le> 0x10FFFF
   \<and> (\<exists>hi lo. l_output (decodeByte (jobStartLoop\<lparr>l_utf8 := \<lparr>cp = 0x7D8, rem = 1\<rparr>\<rparr>) 0x80) = [hi, lo]
         \<and> 0x10000 + (unat hi - 0xD800) * 1024 + (unat lo - 0xDC00) = unat (0x1F600 :: u32))
   \<and> l_outputLen (decodeLoop [0x61] jobStartLoop) < PROCESS_MAX_OUTPUT
   \<and> utf8_parse (l_utf8 (decodeLoop [0x61] jobStartLoop)) 0x0A = (0x0A, \<lparr>cp = 0, rem = 0\<rparr>)
   \<and> last (l_output (decodeLoop [0x61] jobStartLoop)) \<noteq> 0x0D
   \<and> l_output (decodeLoop ([0x61] @ [0x0A]) jobStartLoop) = [0x61, 0x0D, 0x0A]"
proof -
  note t = output_decoding_rechunk_invariant[of exampleOs]
  have h1: "proc runningCtx = Some 0 \<and> 0 < length (v runningCtx) \<and> [0x61 :: u8] \<noteq> []
            \<and> (\<forall>d \<in> set [[0x0A :: u8], [0x62]]. d \<noteq> [])"
    by (simp add: runningCtx_def initialCtx_def)
  have c1: "feedOutput exampleOs [[0x61], [0x0A], [0x62]] runningCtx
       = processHandleReadComplete exampleOs 0 ([0x61] @ concat [[0x0A], [0x62]]) True runningCtx"
    using t[THEN conjunct1, rule_format, OF h1] .
  have e1: "output (v (processHandleReadComplete exampleOs 0 ([0x61] @ concat [[0x0A], [0x62]]) True runningCtx) ! 0)
              = [0x61, 0x0D, 0x0A, 0x62]"
    by (simp add: processHandleReadComplete_def processReadAsync_def runningCtx_def initialCtx_def
          exampleJob_def decode_eval)
  have h2: "utf8_parse (l_utf8 (jobStartLoop\<lparr>l_utf8 := \<lparr>cp = 0x7D8, rem = 1\<rparr>\<rparr>)) 0x80 = (0x1F600, \<lparr>cp = 0x1F600, rem = 0\<rparr>)
            \<and> (0x10000 :: u32) \<le> 0x1F600 \<and> (0x1F600 :: u32) \<le> 0x10FFFF"
    by (simp add: utf8_parse_def jobStartLoop_def Let_def)
  have c2: "\<exists>hi lo. l_output (decodeByte (jobStartLoop\<lparr>l_utf8 := \<lparr>cp = 0x7D8, rem = 1\<rparr>\<rparr>) 0x80) = [hi, lo]
         \<and> 0x10000 + (unat hi - 0xD800) * 1024 + (unat lo - 0xDC00) = unat (0x1F600 :: u32)"
    using t[THEN conjunct2, THEN conjunct1, rule_format, OF h2] by (auto simp: jobStartLoop_def)
  have h3: "l_outputLen (decodeLoop [0x61] jobStartLoop) < PROCESS_MAX_OUTPUT
      \<and> utf8_parse (l_utf8 (decodeLoop [0x61] jobStartLoop)) 0x0A = (0x0A, \<lparr>cp = 0, rem = 0\<rparr>)
      \<and> (l_output (decodeLoop [0x61] jobStartLoop) = [] \<or> last (l_output (decodeLoop [0x61] jobStartLoop)) \<noteq> 0x0D)"
    by (simp add: decode_eval)
  have o3: "l_output (decodeLoop [0x61] jobStartLoop) = [0x61]"
    by (simp add: decode_eval)
  have c3: "l_output (decodeLoop ([0x61] @ [0x0A]) jobStartLoop) = [0x61, 0x0D, 0x0A]"
    unfolding t[THEN conjunct2, THEN conjunct2, THEN conjunct1, rule_format, OF h3] o3 by simp
  have n3: "last (l_output (decodeLoop [0x61] jobStartLoop)) \<noteq> 0x0D" unfolding o3 by simp
  have ne: "[0x0A :: u8] \<noteq> [] \<and> [0x62 :: u8] \<noteq> []" by simp
  show ?thesis using h1 ne c1 e1 h2 c2 h3 c3 n3 by (simp only: c1) blast
qed

text \<open>
  Claim C10. A decoded code point U+0000 adds nothing to the log of the job and still
  counts as one decoded character; every other decoded code point up to U+FFFF is
  appended as the single code unit of the same value (after the carriage return that
  line-ending normalisation inserts before a line feed). The log therefore never contains
  a NUL, also after the truncation notice. Decoding stops once the count has reached the
  cap of 1048576 characters.
\<close>

theorem decoded_nul_dropped_but_counted:
  "(\<forall>s b c u.
       utf8_parse (l_utf8 s) b = (c, u) \<and> c \<noteq> UTF8_MORE \<and> c \<le> 0xFFFF \<longrightarrow>
         l_outputLen (decodeByte s b) = l_outputLen s + 1
         \<and> (c = 0 \<longrightarrow> l_output (decodeByte s b) = l_output s)
         \<and> (c \<noteq> 0 \<longrightarrow> unat (ucast c :: u16) = unat c
               \<and> l_output (decodeByte s b)
                   = l_output s @ (if c = 0x0A \<and> l_lastChr s \<noteq> 0x0D then [0x0D] else []) @ [ucast c]))
   \<and> (\<forall>ctx p data.
         proc ctx = Some p \<and> p < length (v ctx) \<and> data \<noteq> [] \<and> 0 \<notin> set (output (v ctx ! p)) \<longrightarrow>
           0 \<notin> set (output (v (processHandleReadComplete os 0 data True ctx) ! p)))
   \<and> (\<forall>bs s. PROCESS_MAX_OUTPUT \<le> l_outputLen s \<longrightarrow> decodeLoop bs s = s)
   \<and> PROCESS_MAX_OUTPUT = 1048576"
proof (intro conjI allI impI)
  fix s :: tReadLoop and b c u
  assume a: "utf8_parse (l_utf8 s) b = (c, u) \<and> c \<noteq> UTF8_MORE \<and> c \<le> 0xFFFF"
  note r = decodeByte_bmp[of s b c u]
  show "l_outputLen (decodeByte s b) = l_outputLen s + 1" using a r by blast
  show "l_output (decodeByte s b) = l_output s" if "c = 0" using a r that by blast
  show "unat (ucast c :: u16) = unat c" if "c \<noteq> 0" using a r that by blast
  show "l_output (decodeByte s b)
          = l_output s @ (if c = 0x0A \<and> l_lastChr s \<noteq> 0x0D then [0x0D] else []) @ [ucast c]"
    if "c \<noteq> 0" using a r that by blast
next
  fix ctx :: tIpcWndCtx and p and data :: "u8 list"
  assume "proc ctx = Some p \<and> p < length (v ctx) \<and> data \<noteq> [] \<and> 0 \<notin> set (output (v ctx ! p))"
  then show "0 \<notin> set (output (v (processHandleReadComplete os 0 data True ctx) ! p))"
    using processHandleReadComplete_no_nul[of ctx p data os] by blast
next
  fix bs and s :: tReadLoop
  assume "PROCESS_MAX_OUTPUT \<le> l_outputLen s"
  then show "decodeLoop bs s = s" by (rule decodeLoop_capped)
next
  show "PROCESS_MAX_OUTPUT = 1048576" by (simp add: PROCESS_MAX_OUTPUT_def)
qed

theorem decoded_nul_dropped_but_counted_witness:
  "utf8_parse (l_utf8 jobStartLoop) 0 = (0, \<lparr>cp = 0, rem = 0\<rparr>) \<and> (0 :: u32) \<noteq> UTF8_MORE \<and> (0 :: u32) \<le> 0xFFFF
   \<and> l_outputLen (decodeByte jobStartLoop 0) = l_outputLen jobStartLoop + 1
   \<and> l_output (decodeByte jobStartLoop 0) = l_output jobStartLoop
   \<and> utf8_parse (l_utf8 jobStartLoop) 0x41 = (0x41, \<lparr>cp = 0, rem = 0\<rparr>) \<and> (0x41 :: u32) \<noteq> UTF8_MORE \<and> (0x41 :: u32) \<le> 0xFFFF
   \<and> l_output (decodeByte jobStartLoop 0x41) = l_output jobStartLoop @ [0x41]
   \<and> proc runningCtx = Some 0 \<and> 0 < length (v runningCtx) \<and> [0 :: u8] \<noteq> []
   \<and> 0 \<notin> set (output (v runningCtx ! 0))
   \<and> 0 \<notin> set (output (v (processHandleReadComplete exampleOs 0 [0] True runningCtx) ! 0))
   \<and> outputLen (processHandleReadComplete exampleOs 0 [0] True runningCtx) = 1
   \<and> PROCESS_MAX_OUTPUT \<le> l_outputLen (jobStartLoop\<lparr>l_outputLen := 1048576\<rparr>)
   \<and> decodeLoop [0x41] (jobStartLoop\<lparr>l_outputLen := 1048576\<rparr>) = jobStartLoop\<lparr>l_outputLen := 1048576\<rparr>"
proof -
  note t = decoded_nul_dropped_but_counted[of exampleOs]
  have h0: "utf8_parse (l_utf8 jobStartLoop) 0 = (0, \<lparr>cp = 0, rem = 0\<rparr>) \<and> (0 :: u32) \<noteq> UTF8_MORE \<and> (0 :: u32) \<le> 0xFFFF"
    by (simp add: utf8_parse_def jobStartLoop_def UTF8_MORE_def)
  have hA: "utf8_parse (l_utf8 jobStartLoop) 0x41 = (0x41, \<lparr>cp = 0, rem = 0\<rparr>) \<and> (0x41 :: u32) \<noteq> UTF8_MORE \<and> (0x41 :: u32) \<le> 0xFFFF"
    by (simp add: utf8_parse_def jobStartLoop_def UTF8_MORE_def)
  note t1 = t[THEN conjunct1, rule_format]
  have c0: "l_outputLen (decodeByte jobStartLoop 0) = l_outputLen jobStartLoop + 1
            \<and> l_output (decodeByte jobStartLoop 0) = l_output jobStartLoop"
    using t1[OF h0] by simp
  have cA: "l_output (decodeByte jobStartLoop 0x41) = l_output jobStartLoop @ [0x41]"
    using t1[OF hA] by simp
  have hr: "proc runningCtx = Some 0 \<and> 0 < length (v runningCtx) \<and> [0 :: u8] \<noteq> []
            \<and> 0 \<notin> set (output (v runningCtx ! 0))"
    by (simp add: runningCtx_def initialCtx_def exampleJob_def)
  have cr: "0 \<notin> set (output (v (processHandleReadComplete exampleOs 0 [0] True runningCtx) ! 0))"
    using t[THEN conjunct2, THEN conjunct1, rule_format, OF hr] .
  have len: "outputLen (processHandleReadComplete exampleOs 0 [0] True runningCtx) = 1"
    by (simp add: processHandleReadComplete_def processReadAsync_def runningCtx_def initialCtx_def
          exampleJob_def decode_eval)
  have hc: "PROCESS_MAX_OUTPUT \<le> l_outputLen (jobStartLoop\<lparr>l_outputLen := 1048576\<rparr>)"
    by (simp add: PROCESS_MAX_OUTPUT_def)
  have cc: "decodeLoop [0x41] (jobStartLoop\<lparr>l_outputLen := 1048576\<rparr>) = jobStartLoop\<lparr>l_outputLen := 1048576\<rparr>"
    using t[THEN conjunct2, THEN conjunct2, THEN conjunct1, rule_format, OF hc] .
  show ?thesis using h0 hA c0 cA hr cr len hc cc by blast
qed

section \<open>Command line construction\<close>

text \<open>
  The command line as the specification words it: the template is read from left to
  right; \<^verbatim>\<open>%1\<close> stands for the file path, \<^verbatim>\<open>%2\<close> for the PIN, and any other
  character after \<^verbatim>\<open>%\<close> stands for itself. A \<^verbatim>\<open>%\<close> at the very end stands for nothing.
\<close>

fun spec_expandTemplate :: "wstr \<Rightarrow> wstr \<Rightarrow> wstr \<Rightarrow> wstr" where
  "spec_expandTemplate [] fpath pin = []"
| "spec_expandTemplate [c] fpath pin = (if c = 0x25 then [] else [c])"
| "spec_expandTemplate (c # d # r) fpath pin =
     (if c = 0x25 then
        (if d = 0x31 then fpath @ spec_expandTemplate r fpath pin
         else if d = 0x32 then pin @ spec_expandTemplate r fpath pin
         else d # spec_expandTemplate r fpath pin)
      else c # spec_expandTemplate (d # r) fpath pin)"

text \<open>
  Reading the template the same way, a \<^verbatim>\<open>%2\<close> escape occurs: a \<^verbatim>\<open>2\<close> after a \<^verbatim>\<open>%\<close>
  that is not itself escaped.
\<close>

fun spec_usesPinEscape :: "wstr \<Rightarrow> bool" where
  "spec_usesPinEscape [] = False"
| "spec_usesPinEscape [c] = False"
| "spec_usesPinEscape (c # d # r) =
     (if c = 0x25 then d = 0x32 \<or> spec_usesPinEscape r else spec_usesPinEscape (d # r))"

lemma spec_expandTemplate_plain:
  "c \<noteq> 0x25 \<Longrightarrow> spec_expandTemplate (c # r) f p = c # spec_expandTemplate r f p"
  by (cases r) simp_all

lemma cmdLoop_spec:
  "0 \<notin> set t \<Longrightarrow>
     fst (cmdLoop t f p esc hp b) = b @ spec_expandTemplate (if esc then 0x25 # t else t) f p"
proof (induction t arbitrary: esc hp b)
  case Nil
  then show ?case by simp
next
  case (Cons c r)
  have c0: "c \<noteq> 0" and r0: "0 \<notin> set r" using Cons.prems by auto
  show ?case
  proof (cases esc)
    case True
    show ?thesis using True c0 Cons.IH[OF r0, of False]
      by (simp add: usb_add_eq usb_addC_def)
  next
    case False
    show ?thesis
    proof (cases "c = 0x25")
      case True
      show ?thesis using True False c0 Cons.IH[OF r0, of True hp b] by simp
    next
      case F: False
      show ?thesis using F False c0 Cons.IH[OF r0, of False hp "usb_addC b c"]
        by (simp add: usb_addC_def spec_expandTemplate_plain)
    qed
  qed
qed

lemma spec_expandTemplate_no_nul:
  "0 \<notin> set t \<Longrightarrow> 0 \<notin> set f \<Longrightarrow> 0 \<notin> set p \<Longrightarrow> 0 \<notin> set (spec_expandTemplate t f p)"
  by (induction t f p rule: spec_expandTemplate.induct) auto

lemma buildCmd_spec:
  assumes "0 \<notin> set t" and "0 \<notin> set f" and "0 \<notin> set p"
  shows "fst (buildCmd t f p)
         = (if spec_expandTemplate t f p = [] then None else Some (spec_expandTemplate t f p))"
proof -
  have "fst (cmdLoop t f p False False []) = spec_expandTemplate t f p"
    using cmdLoop_spec[OF assms(1), of f p False False "[]"] by simp
  moreover have "takeWhile (\<lambda>c. c \<noteq> 0) (spec_expandTemplate t f p) = spec_expandTemplate t f p"
    using spec_expandTemplate_no_nul[OF assms] by (auto simp: takeWhile_eq_all_conv)
  ultimately show ?thesis
    by (cases "cmdLoop t f p False False []") (simp add: buildCmd_def usb_get_def)
qed

lemma spec_usesPinEscape_plain:
  "c \<noteq> 0x25 \<Longrightarrow> spec_usesPinEscape (c # r) = spec_usesPinEscape r"
  by (cases r) simp_all

lemma cmdLoop_usesPin:
  "0 \<notin> set t \<Longrightarrow>
     snd (cmdLoop t f p esc hp b) = (hp \<or> spec_usesPinEscape (if esc then 0x25 # t else t))"
proof (induction t arbitrary: esc hp b)
  case Nil
  then show ?case by simp
next
  case (Cons c r)
  have c0: "c \<noteq> 0" and r0: "0 \<notin> set r" using Cons.prems by auto
  show ?case
  proof (cases esc)
    case True
    show ?thesis using True c0 Cons.IH[OF r0, of False] by auto
  next
    case False
    show ?thesis
    proof (cases "c = 0x25")
      case True
      show ?thesis using True False c0 Cons.IH[OF r0, of True hp b] by simp
    next
      case F: False
      show ?thesis using F False c0 Cons.IH[OF r0, of False hp "usb_addC b c"]
        by (simp add: spec_usesPinEscape_plain)
    qed
  qed
qed

lemma buildCmd_usesPin: "0 \<notin> set t \<Longrightarrow> snd (buildCmd t f p) = spec_usesPinEscape t"
  using cmdLoop_usesPin[of t f p False False "[]"]
  by (cases "cmdLoop t f p False False []") (simp add: buildCmd_def)

lemma wcs_no_nul: "0 \<notin> set (wcs b)"
  unfolding wcs_def by (metis (mono_tags, lifting) set_takeWhileD)

section \<open>Properties of the credential cache\<close>

lemma wcscmp_eq_0: "wcscmp a b = 0 \<longleftrightarrow> a = b"
  by (induction a b rule: wcscmp.induct) auto

definition identityComplete :: "tIniConfigBase \<Rightarrow> bool" where
  "identityComplete c = (certId c \<noteq> None \<and> cardName c \<noteq> None \<and> cardReader c \<noteq> None)"

lemma rcIniConfigBaseCmp_refl: "rcIniConfigBaseCmp c c = 0"
proof -
  have "CMP_PTR x x = Some 0 \<or> CMP_PTR x x = None" for x
    by (cases x) (simp_all add: wcscmp_eq_0)
  then show ?thesis
    unfolding rcIniConfigBaseCmp_def
    by (metis option.simps(4) option.simps(5))
qed

lemma CMP_PTR_Some: "CMP_PTR (Some a) (Some b) = (if a = b then None else Some (wcscmp a b))"
  by (simp add: wcscmp_eq_0)

lemma rcIniConfigBaseCmp_eq:
  assumes "identityComplete a" and "identityComplete b"
  shows "rcIniConfigBaseCmp a b = 0 \<longleftrightarrow> a = b"
proof -
  obtain a1 a2 a3 where a: "certId a = Some a1" "cardName a = Some a2" "cardReader a = Some a3"
    using assms(1) by (auto simp: identityComplete_def)
  obtain b1 b2 b3 where b: "certId b = Some b1" "cardName b = Some b2" "cardReader b = Some b3"
    using assms(2) by (auto simp: identityComplete_def)
  have "rcIniConfigBaseCmp a b = 0 \<longleftrightarrow> a1 = b1 \<and> a2 = b2 \<and> a3 = b3"
    by (auto simp: rcIniConfigBaseCmp_def a b CMP_PTR_Some wcscmp_eq_0)
  also have "\<dots> \<longleftrightarrow> a = b"
    using a b by (cases a, cases b) auto
  finally show ?thesis .
qed

definition hto_wf :: "tHTableO \<Rightarrow> bool" where
  "hto_wf ht = (0 < tableSize ht \<and> length (table ht) = tableSize ht)"

lemma hto_create_wf: "0 < n \<Longrightarrow> hto_wf (hto_create n)"
  by (simp add: hto_wf_def hto_create_def)

lemma hash_in_range: "hto_wf ht \<Longrightarrow> rcIniConfigBaseHash key (tableSize ht) < length (table ht)"
  by (simp add: hto_wf_def rcIniConfigBaseHash_def)

lemma chainFind_Some:
  "chainFind chain key i = Some j \<Longrightarrow>
     i \<le> j \<and> j - i < length chain \<and> rcIniConfigBaseCmp (fst (chain ! (j - i))) key = 0"
proof (induction chain key i rule: chainFind.induct)
  case (1 key i)
  then show ?case by simp
next
  case (2 e key i)
  then show ?case by (simp split: if_splits)
next
  case (3 e e' es key i)
  show ?case
  proof (cases "rcIniConfigBaseCmp (fst e) key = 0")
    case True
    then show ?thesis using 3 by simp
  next
    case False
    then have f: "chainFind (e' # es) key (Suc i) = Some j" using 3(2) by simp
    from 3(1)[OF False f] have "Suc i \<le> j" "j - Suc i < length (e' # es)"
        "rcIniConfigBaseCmp (fst ((e' # es) ! (j - Suc i))) key = 0" by auto
    moreover have "j - i = Suc (j - Suc i)" using \<open>Suc i \<le> j\<close> by simp
    ultimately show ?thesis by simp
  qed
qed

lemma chainFind_update:
  "chainFind (chain[n := (fst (chain ! n), b)]) key i = chainFind chain key i"
proof (induction chain key i arbitrary: n rule: chainFind.induct)
  case (1 key i)
  then show ?case by simp
next
  case (2 e key i)
  then show ?case by (cases n) simp_all
next
  case (3 e e' es key i)
  show ?case
  proof (cases n)
    case 0
    then show ?thesis by simp
  next
    case (Suc m)
    show ?thesis
    proof (cases "rcIniConfigBaseCmp (fst e) key = 0")
      case True
      then show ?thesis using Suc by (cases m) simp_all
    next
      case False
      have "chainFind ((e' # es)[m := (fst ((e' # es) ! m), b)]) key (Suc i) = chainFind (e' # es) key (Suc i)"
        by (rule 3[OF False])
      then show ?thesis using False Suc by (cases m) simp_all
    qed
  qed
qed

lemma chainFind_append_new:
  "chainFind chain key i = None \<Longrightarrow> rcIniConfigBaseCmp k key = 0 \<Longrightarrow>
     chainFind (chain @ [(k, b)]) key i = Some (i + length chain)"
proof (induction chain key i rule: chainFind.induct)
  case (1 key i)
  then show ?case by simp
next
  case (2 e key i)
  then show ?case by (simp split: if_splits)
next
  case (3 e e' es key i)
  then show ?case by (simp split: if_splits)
qed

definition cacheLookup :: "tHTableO \<Rightarrow> tIniConfigBase \<Rightarrow> DATA_BLOB" where
  "cacheLookup ht key = (case hto_getKey ht key of None \<Rightarrow> None | Some element \<Rightarrow> blobAt ht element)"

lemma hto_getKey_range:
  assumes "hto_wf ht" and "hto_getKey ht key = Some element"
  shows "fst element < length (table ht) \<and> snd element < length (table ht ! fst element)"
proof -
  let ?pos = "rcIniConfigBaseHash key (tableSize ht)"
  obtain j where j: "chainFind (table ht ! ?pos) key 0 = Some j" and e: "element = (?pos, j)"
    using assms(2) by (auto simp: hto_getKey_def Let_def)
  show ?thesis using chainFind_Some[OF j] hash_in_range[OF assms(1), of key] by (simp add: e)
qed

lemma blobSet_wf: "hto_wf ht \<Longrightarrow> hto_wf (blobSet ht element b)"
  by (simp add: hto_wf_def blobSet_def)

lemma hto_getKey_blobSet:
  assumes "hto_wf ht"
  shows "hto_getKey (blobSet ht element b) key = hto_getKey ht key"
proof -
  let ?pos = "rcIniConfigBaseHash key (tableSize ht)"
  have r: "?pos < length (table ht)" by (rule hash_in_range[OF assms])
  have "chainFind (table (blobSet ht element b) ! ?pos) key 0 = chainFind (table ht ! ?pos) key 0"
  proof (cases "fst element = ?pos")
    case True
    then show ?thesis using r by (simp add: blobSet_def chainFind_update)
  next
    case False
    then show ?thesis by (simp add: blobSet_def)
  qed
  then show ?thesis by (simp add: hto_getKey_def Let_def blobSet_def)
qed

lemma blobAt_blobSet:
  "fst element < length (table ht) \<Longrightarrow> snd element < length (table ht ! fst element) \<Longrightarrow>
     blobAt (blobSet ht element b) element = b"
  by (simp add: blobAt_def blobSet_def)

lemma hto_addKey_found:
  "hto_getKey ht key = Some element \<Longrightarrow> hto_addKey ht key = (element, ht)"
  by (simp add: hto_addKey_def)

lemma hto_addKey_new:
  assumes "hto_wf ht" and "hto_getKey ht key = None" and "hto_addKey ht key = (element, ht')"
  shows "hto_wf ht' \<and> hto_getKey ht' key = Some element \<and> blobAt ht' element = None"
proof -
  let ?pos = "rcIniConfigBaseHash key (tableSize ht)"
  let ?chain = "table ht ! ?pos"
  have r: "?pos < length (table ht)" by (rule hash_in_range[OF assms(1)])
  have n: "chainFind ?chain key 0 = None" using assms(2) by (simp add: hto_getKey_def Let_def)
  have e: "element = (?pos, length ?chain)"
    and h: "ht' = ht\<lparr>table := (table ht)[?pos := ?chain @ [(key, None)]]\<rparr>"
    using assms(2,3) by (simp_all add: hto_addKey_def Let_def)
  have wf: "hto_wf ht'" using assms(1) by (simp add: h hto_wf_def)
  have g: "hto_getKey ht' key = Some element"
    using r chainFind_append_new[OF n rcIniConfigBaseCmp_refl, of None]
    by (simp add: hto_getKey_def Let_def h e)
  have b: "blobAt ht' element = None" using r by (simp add: blobAt_def h e)
  show ?thesis using wf g b by simp
qed

lemma hto_addKey_props:
  assumes "hto_wf ht" and "hto_addKey ht key = (element, ht')"
  shows "hto_wf ht' \<and> hto_getKey ht' key = Some element \<and> blobAt ht' element = cacheLookup ht key"
proof (cases "hto_getKey ht key")
  case None
  then show ?thesis using hto_addKey_new[OF assms(1) None assms(2)] by (simp add: cacheLookup_def)
next
  case (Some el)
  then show ?thesis using assms hto_addKey_found[OF Some] by (simp add: cacheLookup_def)
qed

definition decodePin :: "tOs \<Rightarrow> u8 list \<Rightarrow> tProcState + u16 list" where
  "decodePin os blob =
     (case CryptUnprotectData os blob of
        None \<Rightarrow> Inl PST_PIN_WRONG
      | Some rawPin \<Rightarrow> if rawPin = [] \<or> last rawPin \<noteq> 0 then Inl PST_PIN_WRONG else Inr rawPin)"

lemma getPin_cached:
  assumes wf: "hto_wf (h ctx)" and c: "cacheLookup (h ctx) c = Some blob"
  shows "getPin os e c ctx = (decodePin os blob, ctx)"
proof -
  obtain el where g: "hto_getKey (h ctx) c = Some el" and b: "blobAt (h ctx) el = Some blob"
    using c by (auto simp: cacheLookup_def split: option.splits)
  have a: "hto_addKey (h ctx) c = (el, h ctx)" by (rule hto_addKey_found[OF g])
  show ?thesis
    by (simp add: getPin_def a b Let_def decodePin_def split: option.split)
qed

lemma getPin_uncached:
  assumes wf: "hto_wf (h ctx)" and c: "cacheLookup (h ctx) c = None"
    and i: "iniConfigGetPin e c None = (ok, blob, calls)"
  shows "\<exists>ctx'. getPin os e c ctx =
            (if \<not> ok then Inl PST_PIN_MISSING
             else case blob of None \<Rightarrow> Inl PST_PIN_WRONG | Some b \<Rightarrow> decodePin os b, ctx')
          \<and> oscalls ctx' = oscalls ctx @ calls \<and> cacheLookup (h ctx') c = blob \<and> hto_wf (h ctx')
          \<and> ctx' = ctx\<lparr>h := h ctx', oscalls := oscalls ctx @ calls\<rparr>"
proof -
  obtain el ht where a: "hto_addKey (h ctx) c = (el, ht)" by (cases "hto_addKey (h ctx) c")
  note p = hto_addKey_props[OF wf a]
  have wf': "hto_wf ht" and g: "hto_getKey ht c = Some el" and b0: "blobAt ht el = None"
    using p c by simp_all
  note r = hto_getKey_range[OF wf' g]
  let ?h' = "blobSet ht el blob"
  let ?ctx' = "ctx\<lparr>h := ?h', oscalls := oscalls ctx @ calls\<rparr>"
  have b1: "blobAt ?h' el = blob" using r by (simp add: blobAt_blobSet)
  have g1: "hto_getKey ?h' c = Some el" by (simp add: hto_getKey_blobSet[OF wf'] g)
  have l: "cacheLookup ?h' c = blob" by (simp add: cacheLookup_def g1 b1)
  have w: "hto_wf ?h'" by (rule blobSet_wf[OF wf'])
  have "getPin os e c ctx =
            (if \<not> ok then Inl PST_PIN_MISSING
             else case blob of None \<Rightarrow> Inl PST_PIN_WRONG | Some b \<Rightarrow> decodePin os b, ?ctx')"
    by (simp add: getPin_def a b0 i b1 Let_def decodePin_def split: option.split)
  then show ?thesis using l w by (intro exI[of _ ?ctx']) simp
qed

lemma iniConfigGetPin_prompts:
  "iniConfigGetPin e c pin = (ok, blob, calls) \<Longrightarrow>
     calls = [] \<or> calls = [CredUIPromptForWindowsCredentials c]"
  by (auto simp: iniConfigGetPin_def split: if_splits option.splits)

definition idleJob :: tProcCtx where
  "idleJob = exampleJob\<lparr>state := PST_IDLE, signApp := L ''tool.exe %1''\<rparr>"

definition idleCtx :: tIpcWndCtx where
  "idleCtx = initialCtx\<lparr>v := [idleJob], proc := Some 0\<rparr>"

lemma cacheLookup_initial: "cacheLookup (hto_create 64) c = None"
proof -
  have "rcIniConfigBaseHash c 64 < 64" by (simp add: rcIniConfigBaseHash_def)
  then show ?thesis by (simp add: cacheLookup_def hto_getKey_def hto_create_def Let_def)
qed

text \<open>
  Claim C7. \<^verbatim>\<open>processStart\<close> reads the template once from left to right: the command
  line is the template with \<^verbatim>\<open>%1\<close> replaced by the path of the job, \<^verbatim>\<open>%2\<close> by the
  plaintext PIN and any other character after \<^verbatim>\<open>%\<close> taken as it is, and the flag
  \<^verbatim>\<open>hasPinArg\<close> tells whether a \<^verbatim>\<open>%2\<close> escape was read. With a command line that is not
  empty and a process that can be created: when the template has a \<^verbatim>\<open>%2\<close> escape the
  process is created with that command line and nothing is written to its standard
  input; when it has none, the process is created, then the PIN converted to UTF-8 is
  written to its standard input, the pipe is flushed and its write end is closed. An
  empty command line ends the start with \<^verbatim>\<open>PST_FAIL\<close> before any process is created.
\<close>

theorem command_line_construction:
  "(\<forall>t f p. 0 \<notin> set t \<and> 0 \<notin> set f \<and> 0 \<notin> set p \<longrightarrow>
       buildCmd t f p
         = (if spec_expandTemplate t f p = [] then None else Some (spec_expandTemplate t f p),
            spec_usesPinEscape t))
   \<and> (\<forall>os p ctx ctx1 rawPin cmd.
         e_pipeSetup (jobEnv os p) = PipeReady
         \<and> getPin os (jobEnv os p) (config (v ctx ! p)) ctx = (Inr rawPin, ctx1)
         \<and> 0 \<notin> set (signApp (v ctx ! p)) \<and> 0 \<notin> set (path (v ctx ! p))
         \<and> spec_expandTemplate (signApp (v ctx ! p)) (path (v ctx ! p)) (wcs rawPin) = cmd
         \<and> cmd \<noteq> []
         \<and> e_createProcess (jobEnv os p)
         \<and> spec_usesPinEscape (signApp (v ctx ! p)) \<longrightarrow>
           processSpawn os p ctx =
             (None, ctx1\<lparr>oscalls := oscalls ctx1 @ [CreateProcessW cmd, CloseHandle_stdin]\<rparr>))
   \<and> (\<forall>os p ctx ctx1 rawPin cmd utf8Pin.
         e_pipeSetup (jobEnv os p) = PipeReady
         \<and> getPin os (jobEnv os p) (config (v ctx ! p)) ctx = (Inr rawPin, ctx1)
         \<and> 0 \<notin> set (signApp (v ctx ! p)) \<and> 0 \<notin> set (path (v ctx ! p))
         \<and> spec_expandTemplate (signApp (v ctx ! p)) (path (v ctx ! p)) (wcs rawPin) = cmd
         \<and> cmd \<noteq> []
         \<and> e_createProcess (jobEnv os p)
         \<and> \<not> spec_usesPinEscape (signApp (v ctx ! p))
         \<and> WideCharToMultiByte os (wcs rawPin) = Some utf8Pin
         \<and> e_writeFile (jobEnv os p) \<longrightarrow>
           processSpawn os p ctx =
             (None, ctx1\<lparr>oscalls := oscalls ctx1 @
                [CreateProcessW cmd, WriteFile_stdin utf8Pin, FlushFileBuffers_stdin,
                 CloseHandle_stdin]\<rparr>))
   \<and> (\<forall>os p ctx ctx1 rawPin.
         e_pipeSetup (jobEnv os p) = PipeReady
         \<and> getPin os (jobEnv os p) (config (v ctx ! p)) ctx = (Inr rawPin, ctx1)
         \<and> 0 \<notin> set (signApp (v ctx ! p)) \<and> 0 \<notin> set (path (v ctx ! p))
         \<and> spec_expandTemplate (signApp (v ctx ! p)) (path (v ctx ! p)) (wcs rawPin) = [] \<longrightarrow>
           processSpawn os p ctx =
             (Some PST_FAIL, ctx1\<lparr>oscalls := oscalls ctx1 @ [CloseHandle_stdin]\<rparr>))"
proof (intro conjI allI impI)
  fix t f p :: wstr
  assume a: "0 \<notin> set t \<and> 0 \<notin> set f \<and> 0 \<notin> set p"
  have "fst (buildCmd t f p)
         = (if spec_expandTemplate t f p = [] then None else Some (spec_expandTemplate t f p))"
    using buildCmd_spec[of t f p] a by blast
  moreover have "snd (buildCmd t f p) = spec_usesPinEscape t" using buildCmd_usesPin[of t f p] a by blast
  ultimately show "buildCmd t f p
         = (if spec_expandTemplate t f p = [] then None else Some (spec_expandTemplate t f p),
            spec_usesPinEscape t)"
    by (cases "buildCmd t f p") simp
next
  fix os p ctx ctx1 rawPin cmd
  assume a: "e_pipeSetup (jobEnv os p) = PipeReady
         \<and> getPin os (jobEnv os p) (config (v ctx ! p)) ctx = (Inr rawPin, ctx1)
         \<and> 0 \<notin> set (signApp (v ctx ! p)) \<and> 0 \<notin> set (path (v ctx ! p))
         \<and> spec_expandTemplate (signApp (v ctx ! p)) (path (v ctx ! p)) (wcs rawPin) = cmd
         \<and> cmd \<noteq> []
         \<and> e_createProcess (jobEnv os p)
         \<and> spec_usesPinEscape (signApp (v ctx ! p))"
  have b: "buildCmd (signApp (v ctx ! p)) (path (v ctx ! p)) (wcs rawPin) = (Some cmd, True)"
    using buildCmd_spec[of "signApp (v ctx ! p)" "path (v ctx ! p)" "wcs rawPin"]
      buildCmd_usesPin[of "signApp (v ctx ! p)" "path (v ctx ! p)" "wcs rawPin"] a wcs_no_nul[of rawPin]
    by (cases "buildCmd (signApp (v ctx ! p)) (path (v ctx ! p)) (wcs rawPin)") simp
  show "processSpawn os p ctx =
             (None, ctx1\<lparr>oscalls := oscalls ctx1 @ [CreateProcessW cmd, CloseHandle_stdin]\<rparr>)"
    using a by (simp add: processSpawn_def spawnChild_def b addCalls_def)
next
  fix os p ctx ctx1 rawPin cmd utf8Pin
  assume a: "e_pipeSetup (jobEnv os p) = PipeReady
         \<and> getPin os (jobEnv os p) (config (v ctx ! p)) ctx = (Inr rawPin, ctx1)
         \<and> 0 \<notin> set (signApp (v ctx ! p)) \<and> 0 \<notin> set (path (v ctx ! p))
         \<and> spec_expandTemplate (signApp (v ctx ! p)) (path (v ctx ! p)) (wcs rawPin) = cmd
         \<and> cmd \<noteq> []
         \<and> e_createProcess (jobEnv os p)
         \<and> \<not> spec_usesPinEscape (signApp (v ctx ! p))
         \<and> WideCharToMultiByte os (wcs rawPin) = Some utf8Pin
         \<and> e_writeFile (jobEnv os p)"
  have b: "buildCmd (signApp (v ctx ! p)) (path (v ctx ! p)) (wcs rawPin) = (Some cmd, False)"
    using buildCmd_spec[of "signApp (v ctx ! p)" "path (v ctx ! p)" "wcs rawPin"]
      buildCmd_usesPin[of "signApp (v ctx ! p)" "path (v ctx ! p)" "wcs rawPin"] a wcs_no_nul[of rawPin]
    by (cases "buildCmd (signApp (v ctx ! p)) (path (v ctx ! p)) (wcs rawPin)") simp
  show "processSpawn os p ctx =
             (None, ctx1\<lparr>oscalls := oscalls ctx1 @
                [CreateProcessW cmd, WriteFile_stdin utf8Pin, FlushFileBuffers_stdin,
                 CloseHandle_stdin]\<rparr>)"
    using a by (simp add: processSpawn_def spawnChild_def b addCalls_def)
next
  fix os p ctx ctx1 rawPin
  assume a: "e_pipeSetup (jobEnv os p) = PipeReady
         \<and> getPin os (jobEnv os p) (config (v ctx ! p)) ctx = (Inr rawPin, ctx1)
         \<and> 0 \<notin> set (signApp (v ctx ! p)) \<and> 0 \<notin> set (path (v ctx ! p))
         \<and> spec_expandTemplate (signApp (v ctx ! p)) (path (v ctx ! p)) (wcs rawPin) = []"
  have "fst (buildCmd (signApp (v ctx ! p)) (path (v ctx ! p)) (wcs rawPin)) = None"
    using buildCmd_spec[of "signApp (v ctx ! p)" "path (v ctx ! p)" "wcs rawPin"] a wcs_no_nul[of rawPin]
    by simp
  then obtain hp where b: "buildCmd (signApp (v ctx ! p)) (path (v ctx ! p)) (wcs rawPin) = (None, hp)"
    by (cases "buildCmd (signApp (v ctx ! p)) (path (v ctx ! p)) (wcs rawPin)") simp
  show "processSpawn os p ctx =
             (Some PST_FAIL, ctx1\<lparr>oscalls := oscalls ctx1 @ [CloseHandle_stdin]\<rparr>)"
    using a by (simp add: processSpawn_def spawnChild_def b addCalls_def)
qed

lemma L_eval: "L (c # s) = of_nat (of_char c) # L s" "L [] = []"
  by (simp_all add: L_def)

lemma example_getPin:
  assumes "h ctx = hto_create 64" and "oscalls ctx = []"
  shows "\<exists>ctx1. getPin exampleOs (jobEnv exampleOs i) (config exampleJob) ctx = (Inr (L ''1234'' @ [0]), ctx1)
     \<and> oscalls ctx1 = [CredUIPromptForWindowsCredentials (config exampleJob)]"
proof -
  have wf: "hto_wf (h ctx)" by (simp add: assms hto_create_wf)
  have c: "cacheLookup (h ctx) (config exampleJob) = None"
    by (simp add: assms cacheLookup_initial)
  have i: "iniConfigGetPin (jobEnv exampleOs i) (config exampleJob) None
             = (True, Some [1, 2, 3], [CredUIPromptForWindowsCredentials (config exampleJob)])"
    by (simp add: iniConfigGetPin_def exampleOs_def exampleJobEnv_def exampleJob_def)
  have d: "decodePin exampleOs [1, 2, 3] = Inr (L ''1234'' @ [0])"
    by (simp add: decodePin_def exampleOs_def)
  obtain ctx' where "getPin exampleOs (jobEnv exampleOs i) (config exampleJob) ctx
        = (Inr (L ''1234'' @ [0]), ctx')" "oscalls ctx' = oscalls ctx @ [CredUIPromptForWindowsCredentials (config exampleJob)]"
    using getPin_uncached[OF wf c i, of exampleOs] by (auto simp: d)
  then show ?thesis by (auto simp: assms)
qed

definition idlePinArgCtx :: tIpcWndCtx where
  "idlePinArgCtx = initialCtx\<lparr>v := [exampleJob\<lparr>state := PST_IDLE\<rparr>], proc := Some 0\<rparr>"

text \<open>A job whose template is a single \<^verbatim>\<open>%\<close>, so that its command line is empty.\<close>

definition idleEmptyCmdCtx :: tIpcWndCtx where
  "idleEmptyCmdCtx = initialCtx\<lparr>v := [exampleJob\<lparr>state := PST_IDLE, signApp := L ''%''\<rparr>], proc := Some 0\<rparr>"

theorem command_line_construction_witness:
  "0 \<notin> set (L ''%1 %2 %%'') \<and> 0 \<notin> set (L ''a%2'') \<and> 0 \<notin> set (L ''9'')
   \<and> buildCmd (L ''%1 %2 %%'') (L ''a%2'') (L ''9'') = (Some (L ''a%2 9 %''), True)
   \<and> e_pipeSetup (jobEnv exampleOs 0) = PipeReady
   \<and> fst (getPin exampleOs (jobEnv exampleOs 0) (config (v idleCtx ! 0)) idleCtx) = Inr (L ''1234'' @ [0])
   \<and> 0 \<notin> set (signApp (v idleCtx ! 0)) \<and> 0 \<notin> set (path (v idleCtx ! 0))
   \<and> spec_expandTemplate (signApp (v idleCtx ! 0)) (path (v idleCtx ! 0)) (wcs (L ''1234'' @ [0]))
       = L ''tool.exe fileA.exe''
   \<and> L ''tool.exe fileA.exe'' \<noteq> []
   \<and> e_createProcess (jobEnv exampleOs 0)
   \<and> \<not> spec_usesPinEscape (signApp (v idleCtx ! 0))
   \<and> WideCharToMultiByte exampleOs (wcs (L ''1234'' @ [0])) = Some [0x31, 0x32, 0x33, 0x34]
   \<and> e_writeFile (jobEnv exampleOs 0)
   \<and> fst (processSpawn exampleOs 0 idleCtx) = None
   \<and> oscalls (snd (processSpawn exampleOs 0 idleCtx)) =
        [CredUIPromptForWindowsCredentials (config exampleJob), CreateProcessW (L ''tool.exe fileA.exe''),
         WriteFile_stdin [0x31, 0x32, 0x33, 0x34], FlushFileBuffers_stdin, CloseHandle_stdin]
   \<and> 0 \<notin> set (signApp (v idlePinArgCtx ! 0)) \<and> 0 \<notin> set (path (v idlePinArgCtx ! 0))
   \<and> spec_expandTemplate (signApp (v idlePinArgCtx ! 0)) (path (v idlePinArgCtx ! 0)) (wcs (L ''1234'' @ [0]))
       = L ''tool.exe fileA.exe 1234''
   \<and> L ''tool.exe fileA.exe 1234'' \<noteq> []
   \<and> spec_usesPinEscape (signApp (v idlePinArgCtx ! 0))
   \<and> fst (processSpawn exampleOs 0 idlePinArgCtx) = None
   \<and> oscalls (snd (processSpawn exampleOs 0 idlePinArgCtx)) =
        [CredUIPromptForWindowsCredentials (config exampleJob), CreateProcessW (L ''tool.exe fileA.exe 1234''),
         CloseHandle_stdin]
   \<and> 0 \<notin> set (signApp (v idleEmptyCmdCtx ! 0)) \<and> 0 \<notin> set (path (v idleEmptyCmdCtx ! 0))
   \<and> spec_expandTemplate (signApp (v idleEmptyCmdCtx ! 0)) (path (v idleEmptyCmdCtx ! 0)) (wcs (L ''1234'' @ [0])) = []
   \<and> fst (processSpawn exampleOs 0 idleEmptyCmdCtx) = Some PST_FAIL
   \<and> oscalls (snd (processSpawn exampleOs 0 idleEmptyCmdCtx)) =
        [CredUIPromptForWindowsCredentials (config exampleJob), CloseHandle_stdin]"
proof -
  note t = command_line_construction
  have h1: "0 \<notin> set (L ''%1 %2 %%'') \<and> 0 \<notin> set (L ''a%2'') \<and> 0 \<notin> set (L ''9'')"
    by (simp add: L_eval)
  have c1: "buildCmd (L ''%1 %2 %%'') (L ''a%2'') (L ''9'') = (Some (L ''a%2 9 %''), True)"
    unfolding t[THEN conjunct1, rule_format, OF h1] by (simp add: L_eval)
  have cfg: "config (v idleCtx ! 0) = config exampleJob" "config (v idlePinArgCtx ! 0) = config exampleJob"
    "config (v idleEmptyCmdCtx ! 0) = config exampleJob"
    by (simp_all add: idleCtx_def idleJob_def idlePinArgCtx_def idleEmptyCmdCtx_def)
  obtain ctx1 where g: "getPin exampleOs (jobEnv exampleOs 0) (config (v idleCtx ! 0)) idleCtx = (Inr (L ''1234'' @ [0]), ctx1)"
    and o: "oscalls ctx1 = [CredUIPromptForWindowsCredentials (config exampleJob)]"
    unfolding cfg using example_getPin[of idleCtx 0] by (auto simp: idleCtx_def initialCtx_def)
  obtain ctx2 where g2: "getPin exampleOs (jobEnv exampleOs 0) (config (v idlePinArgCtx ! 0)) idlePinArgCtx = (Inr (L ''1234'' @ [0]), ctx2)"
    and o2: "oscalls ctx2 = [CredUIPromptForWindowsCredentials (config exampleJob)]"
    unfolding cfg using example_getPin[of idlePinArgCtx 0] by (auto simp: idlePinArgCtx_def initialCtx_def)
  obtain ctx3 where g3: "getPin exampleOs (jobEnv exampleOs 0) (config (v idleEmptyCmdCtx ! 0)) idleEmptyCmdCtx = (Inr (L ''1234'' @ [0]), ctx3)"
    and o3: "oscalls ctx3 = [CredUIPromptForWindowsCredentials (config exampleJob)]"
    unfolding cfg using example_getPin[of idleEmptyCmdCtx 0] by (auto simp: idleEmptyCmdCtx_def initialCtx_def)
  have e: "e_pipeSetup (jobEnv exampleOs 0) = PipeReady" "e_createProcess (jobEnv exampleOs 0)"
      "e_writeFile (jobEnv exampleOs 0)"
    by (simp_all add: exampleOs_def exampleJobEnv_def)
  have z: "0 \<notin> set (signApp (v idleCtx ! 0))" "0 \<notin> set (path (v idleCtx ! 0))"
    "0 \<notin> set (signApp (v idlePinArgCtx ! 0))" "0 \<notin> set (path (v idlePinArgCtx ! 0))"
    "0 \<notin> set (signApp (v idleEmptyCmdCtx ! 0))" "0 \<notin> set (path (v idleEmptyCmdCtx ! 0))"
    by (simp_all add: idleCtx_def idleJob_def idlePinArgCtx_def idleEmptyCmdCtx_def exampleJob_def L_eval)
  have n: "\<not> spec_usesPinEscape (signApp (v idleCtx ! 0))"
    "spec_usesPinEscape (signApp (v idlePinArgCtx ! 0))"
    by (simp_all add: idleCtx_def idleJob_def idlePinArgCtx_def exampleJob_def L_eval)
  have w: "WideCharToMultiByte exampleOs (wcs (L ''1234'' @ [0])) = Some [0x31, 0x32, 0x33, 0x34]"
    by (simp add: exampleOs_def wcs_def L_eval)
  have x: "spec_expandTemplate (signApp (v idleCtx ! 0)) (path (v idleCtx ! 0)) (wcs (L ''1234'' @ [0]))
             = L ''tool.exe fileA.exe''"
    "spec_expandTemplate (signApp (v idlePinArgCtx ! 0)) (path (v idlePinArgCtx ! 0)) (wcs (L ''1234'' @ [0]))
             = L ''tool.exe fileA.exe 1234''"
    "spec_expandTemplate (signApp (v idleEmptyCmdCtx ! 0)) (path (v idleEmptyCmdCtx ! 0)) (wcs (L ''1234'' @ [0])) = []"
    by (simp_all add: idleCtx_def idleJob_def idlePinArgCtx_def idleEmptyCmdCtx_def exampleJob_def wcs_def L_eval)
  have ne: "L ''tool.exe fileA.exe'' \<noteq> []" "L ''tool.exe fileA.exe 1234'' \<noteq> []"
    by (simp_all add: L_eval)
  have h3: "e_pipeSetup (jobEnv exampleOs 0) = PipeReady
         \<and> getPin exampleOs (jobEnv exampleOs 0) (config (v idleCtx ! 0)) idleCtx = (Inr (L ''1234'' @ [0]), ctx1)
         \<and> 0 \<notin> set (signApp (v idleCtx ! 0)) \<and> 0 \<notin> set (path (v idleCtx ! 0))
         \<and> spec_expandTemplate (signApp (v idleCtx ! 0)) (path (v idleCtx ! 0)) (wcs (L ''1234'' @ [0]))
              = L ''tool.exe fileA.exe''
         \<and> L ''tool.exe fileA.exe'' \<noteq> []
         \<and> e_createProcess (jobEnv exampleOs 0)
         \<and> \<not> spec_usesPinEscape (signApp (v idleCtx ! 0))
         \<and> WideCharToMultiByte exampleOs (wcs (L ''1234'' @ [0])) = Some [0x31, 0x32, 0x33, 0x34]
         \<and> e_writeFile (jobEnv exampleOs 0)"
    using e g z n w x ne by simp
  note s3 = t[THEN conjunct2, THEN conjunct2, THEN conjunct1, rule_format, OF h3]
  have c3: "fst (processSpawn exampleOs 0 idleCtx) = None
     \<and> oscalls (snd (processSpawn exampleOs 0 idleCtx)) =
        [CredUIPromptForWindowsCredentials (config exampleJob), CreateProcessW (L ''tool.exe fileA.exe''),
         WriteFile_stdin [0x31, 0x32, 0x33, 0x34], FlushFileBuffers_stdin, CloseHandle_stdin]"
    unfolding s3 by (simp add: o)
  have h2: "e_pipeSetup (jobEnv exampleOs 0) = PipeReady
         \<and> getPin exampleOs (jobEnv exampleOs 0) (config (v idlePinArgCtx ! 0)) idlePinArgCtx = (Inr (L ''1234'' @ [0]), ctx2)
         \<and> 0 \<notin> set (signApp (v idlePinArgCtx ! 0)) \<and> 0 \<notin> set (path (v idlePinArgCtx ! 0))
         \<and> spec_expandTemplate (signApp (v idlePinArgCtx ! 0)) (path (v idlePinArgCtx ! 0)) (wcs (L ''1234'' @ [0]))
              = L ''tool.exe fileA.exe 1234''
         \<and> L ''tool.exe fileA.exe 1234'' \<noteq> []
         \<and> e_createProcess (jobEnv exampleOs 0)
         \<and> spec_usesPinEscape (signApp (v idlePinArgCtx ! 0))"
    using e g2 z n x ne by simp
  note s2 = t[THEN conjunct2, THEN conjunct1, rule_format, OF h2]
  have c2: "fst (processSpawn exampleOs 0 idlePinArgCtx) = None
     \<and> oscalls (snd (processSpawn exampleOs 0 idlePinArgCtx)) =
        [CredUIPromptForWindowsCredentials (config exampleJob), CreateProcessW (L ''tool.exe fileA.exe 1234''),
         CloseHandle_stdin]"
    unfolding s2 by (simp add: o2)
  have h4: "e_pipeSetup (jobEnv exampleOs 0) = PipeReady
         \<and> getPin exampleOs (jobEnv exampleOs 0) (config (v idleEmptyCmdCtx ! 0)) idleEmptyCmdCtx = (Inr (L ''1234'' @ [0]), ctx3)
         \<and> 0 \<notin> set (signApp (v idleEmptyCmdCtx ! 0)) \<and> 0 \<notin> set (path (v idleEmptyCmdCtx ! 0))
         \<and> spec_expandTemplate (signApp (v idleEmptyCmdCtx ! 0)) (path (v idleEmptyCmdCtx ! 0)) (wcs (L ''1234'' @ [0])) = []"
    using e g3 z x by simp
  note s4 = t[THEN conjunct2, THEN conjunct2, THEN conjunct2, rule_format, OF h4]
  have c4: "fst (processSpawn exampleOs 0 idleEmptyCmdCtx) = Some PST_FAIL
     \<and> oscalls (snd (processSpawn exampleOs 0 idleEmptyCmdCtx)) =
        [CredUIPromptForWindowsCredentials (config exampleJob), CloseHandle_stdin]"
    unfolding s4 by (simp add: o3)
  have g': "fst (getPin exampleOs (jobEnv exampleOs 0) (config (v idleCtx ! 0)) idleCtx) = Inr (L ''1234'' @ [0])"
    by (simp add: g)
  show ?thesis using h1 c1 e g' z n w x ne c3 c2 c4 by simp
qed

section \<open>Credential lookups\<close>

definition isPrompt :: "tOsCall \<Rightarrow> bool" where
  "isPrompt call = (case call of CredUIPromptForWindowsCredentials c \<Rightarrow> True | _ \<Rightarrow> False)"

definition promptCount :: "tIpcWndCtx \<Rightarrow> nat" where
  "promptCount ctx = length (filter isPrompt (oscalls ctx))"

lemma getPin_success_cached:
  assumes wf: "hto_wf (h ctx)" and g: "getPin os e c ctx = (Inr rawPin, ctx1)"
  shows "hto_wf (h ctx1) \<and> (\<exists>blob. cacheLookup (h ctx1) c = Some blob \<and> decodePin os blob = Inr rawPin)
       \<and> (cacheLookup (h ctx) c = None \<longrightarrow>
             e_validate e \<and> cacheLookup (h ctx1) c = e_protect e
             \<and> oscalls ctx1 = oscalls ctx @ [CredUIPromptForWindowsCredentials c])
       \<and> (cacheLookup (h ctx) c \<noteq> None \<longrightarrow> ctx1 = ctx)"
proof (cases "cacheLookup (h ctx) c")
  case (Some blob)
  show ?thesis using getPin_cached[OF wf Some, of os e] g wf Some by auto
next
  case None
  obtain ok blob calls where i: "iniConfigGetPin e c None = (ok, blob, calls)"
    by (cases "iniConfigGetPin e c None") auto
  obtain ctx' where r: "getPin os e c ctx =
            (if \<not> ok then Inl PST_PIN_MISSING
             else case blob of None \<Rightarrow> Inl PST_PIN_WRONG | Some b \<Rightarrow> decodePin os b, ctx')"
     "oscalls ctx' = oscalls ctx @ calls" "cacheLookup (h ctx') c = blob" "hto_wf (h ctx')"
    using getPin_uncached[OF wf None i, of os] by blast
  have c1: "ctx1 = ctx'" using g r(1) by simp
  have ok: "ok" using g r(1) by (auto split: if_splits)
  obtain b where b: "blob = Some b" "decodePin os b = Inr rawPin"
    using g r(1) ok by (cases blob) auto
  have v: "e_validate e \<and> e_protect e = blob \<and> calls = [CredUIPromptForWindowsCredentials c]"
    using i b(1) by (auto simp: iniConfigGetPin_def split: if_splits option.splits)
  show ?thesis using None r(2,3,4) b v by (simp add: c1)
qed

lemma getPin_second_lookup:
  assumes wf: "hto_wf (h ctx)" and g: "getPin os e c ctx = (Inr rawPin, ctx1)"
    and id: "identityComplete c" "identityComplete c'" "rcIniConfigBaseCmp c c' = 0"
  shows "getPin os e' c' ctx1 = (Inr rawPin, ctx1)"
proof -
  have eq: "c' = c" using rcIniConfigBaseCmp_eq[OF id(1,2)] id(3) by simp
  obtain blob where b: "cacheLookup (h ctx1) c = Some blob" "decodePin os blob = Inr rawPin"
    and wf1: "hto_wf (h ctx1)"
    using getPin_success_cached[OF wf g] by blast
  show ?thesis using getPin_cached[OF wf1 b(1), of os e'] b(2) by (simp add: eq)
qed

lemma getPin_promptCount:
  assumes wf: "hto_wf (h ctx)" and g: "getPin os e c ctx = (r, ctx1)"
  shows "promptCount ctx \<le> promptCount ctx1 \<and> promptCount ctx1 \<le> promptCount ctx + 1"
proof (cases "cacheLookup (h ctx) c")
  case (Some blob)
  show ?thesis using getPin_cached[OF wf Some, of os e] g by auto
next
  case None
  obtain ok blob calls where i: "iniConfigGetPin e c None = (ok, blob, calls)"
    by (cases "iniConfigGetPin e c None") auto
  obtain ctx' where r: "fst (getPin os e c ctx) =
            (if \<not> ok then Inl PST_PIN_MISSING
             else case blob of None \<Rightarrow> Inl PST_PIN_WRONG | Some b \<Rightarrow> decodePin os b)"
     "snd (getPin os e c ctx) = ctx'"
     "oscalls ctx' = oscalls ctx @ calls"
    using getPin_uncached[OF wf None i, of os] by force
  have c1: "ctx1 = ctx'" using g r(2) by simp
  show ?thesis using iniConfigGetPin_prompts[OF i] r(3)
    by (auto simp: c1 promptCount_def isPrompt_def)
qed

lemma promptCount_addCalls:
  "promptCount (addCalls cs ctx) = promptCount ctx + length (filter isPrompt cs)"
  by (simp add: promptCount_def addCalls_def)

lemma spawnChild_no_prompt:
  "spawnChild os e job rawPin = (res, cs) \<Longrightarrow> filter isPrompt cs = []"
  by (auto simp: spawnChild_def isPrompt_def split: prod.splits option.splits if_splits)

lemma processSpawn_promptCount:
  assumes "e_pipeSetup (jobEnv os q) = PipeReady"
  shows "promptCount (snd (processSpawn os q ctx))
           = promptCount (snd (getPin os (jobEnv os q) (config (v ctx ! q)) ctx))"
proof -
  obtain r c1 where g: "getPin os (jobEnv os q) (config (v ctx ! q)) ctx = (r, c1)"
    by (cases "getPin os (jobEnv os q) (config (v ctx ! q)) ctx")
  show ?thesis
  proof (cases r)
    case (Inl st)
    then show ?thesis using assms g
      by (simp add: processSpawn_def promptCount_addCalls isPrompt_def)
  next
    case (Inr rawPin)
    obtain res cs where sc: "spawnChild os (jobEnv os q) (v ctx ! q) rawPin = (res, cs)"
      by (cases "spawnChild os (jobEnv os q) (v ctx ! q) rawPin")
    show ?thesis using assms g Inr sc spawnChild_no_prompt[OF sc]
      by (simp add: processSpawn_def promptCount_addCalls)
  qed
qed

lemma getPin_prompts_when_empty:
  assumes wf: "hto_wf (h ctx)" and c: "cacheLookup (h ctx) c = None"
    and id: "identityComplete c" and card: "e_cardStatus e"
  shows "promptCount (snd (getPin os e c ctx)) = promptCount ctx + 1"
proof -
  have "\<exists>ok blob. iniConfigGetPin e c None = (ok, blob, [CredUIPromptForWindowsCredentials c])"
    using id card by (auto simp: iniConfigGetPin_def identityComplete_def split: option.split)
  then obtain ok blob where i: "iniConfigGetPin e c None = (ok, blob, [CredUIPromptForWindowsCredentials c])"
    by blast
  obtain ctx' where "snd (getPin os e c ctx) = ctx'"
     "oscalls ctx' = oscalls ctx @ [CredUIPromptForWindowsCredentials c]"
    using getPin_uncached[OF wf c i, of os] by force
  then show ?thesis by (simp add: promptCount_def isPrompt_def)
qed

lemma processStart_pin_rejected:
  assumes p: "proc ctx = Some p" "p < length (v ctx)" "state (v ctx ! p) = PST_IDLE"
    and wf: "hto_wf (h ctx)" and id: "identityComplete (config (v ctx ! p))"
    and c: "cacheLookup (h ctx) (config (v ctx ! p)) = None"
    and e: "e_pipeSetup (jobEnv os p) = PipeReady" "e_cardStatus (jobEnv os p)" "e_prompt (jobEnv os p)"
      "e_unpack (jobEnv os p) = Some rawPin" "\<not> e_validate (jobEnv os p)"
  shows "\<exists>ctx'. processStart os ctx = (False, ctx') \<and> state (v ctx' ! p) = PST_PIN_WRONG
           \<and> cacheLookup (h ctx') (config (v ctx ! p)) = None \<and> hto_wf (h ctx')
           \<and> promptCount ctx' = promptCount ctx + 1
           \<and> (\<forall>q. q \<noteq> p \<longrightarrow> v ctx' ! q = v ctx ! q) \<and> length (v ctx') = length (v ctx)
           \<and> config (v ctx' ! p) = config (v ctx ! p)"
proof -
  let ?c = "config (v ctx ! p)"
  have i: "iniConfigGetPin (jobEnv os p) ?c None = (True, None, [CredUIPromptForWindowsCredentials ?c])"
    using id e by (simp add: iniConfigGetPin_def identityComplete_def)
  obtain ctx1 where g: "getPin os (jobEnv os p) ?c ctx = (Inl PST_PIN_WRONG, ctx1)"
    and o: "oscalls ctx1 = oscalls ctx @ [CredUIPromptForWindowsCredentials ?c]"
    and l: "cacheLookup (h ctx1) ?c = None" and w: "hto_wf (h ctx1)"
    and f: "ctx1 = ctx\<lparr>h := h ctx1, oscalls := oscalls ctx @ [CredUIPromptForWindowsCredentials ?c]\<rparr>"
    using getPin_uncached[OF wf c i, of os] by auto
  have v1: "v ctx1 = v ctx" by (subst f) simp
  have s: "processSpawn os p ctx = (Some PST_PIN_WRONG, addCalls [CloseHandle_stdin] ctx1)"
    using e(1) g by (simp add: processSpawn_def)
  let ?ctx' = "setState p PST_PIN_WRONG (addCalls [CloseHandle_stdin] ctx1)"
  have st: "processStart os ctx = (False, ?ctx')"
    by (subst processStart.simps) (simp add: p s)
  have "state (v ?ctx' ! p) = PST_PIN_WRONG" using p(2) by (simp add: setState_def v1)
  moreover have "cacheLookup (h ?ctx') ?c = None" using l by (simp add: setState_def addCalls_def)
  moreover have "hto_wf (h ?ctx')" using w by (simp add: setState_def addCalls_def)
  moreover have "promptCount ?ctx' = promptCount ctx + 1"
    using o by (simp add: promptCount_def setState_def addCalls_def isPrompt_def)
  moreover have "\<forall>q. q \<noteq> p \<longrightarrow> v ?ctx' ! q = v ctx ! q" by (simp add: setState_def v1)
  moreover have "length (v ?ctx') = length (v ctx)" by (simp add: setState_def v1)
  moreover have "config (v ?ctx' ! p) = config (v ctx ! p)" using p(2) by (simp add: setState_def v1)
  ultimately show ?thesis using st by blast
qed

text \<open>Two idle jobs for the same certificate, the first selected.\<close>

definition twoJobsCtx :: tIpcWndCtx where
  "twoJobsCtx = initialCtx\<lparr>v := [idleJob, idleJob], proc := Some 0\<rparr>"

text \<open>The provider rejects the PIN entered for the first job.\<close>

definition rejectOs :: tOs where
  "rejectOs = exampleOs\<lparr>jobEnv := (\<lambda>i. if i = 0 then exampleJobEnv\<lparr>e_validate := False\<rparr> else exampleJobEnv)\<rparr>"

text \<open>The user cancels every prompt.\<close>

definition cancelOs :: tOs where
  "cancelOs = exampleOs\<lparr>jobEnv := (\<lambda>i. exampleJobEnv\<lparr>e_prompt := False\<rparr>)\<rparr>"

text \<open>
  Claim C4. When the provider rejects the PIN entered at the prompt, the job that was
  being started ends in \<^verbatim>\<open>PST_PIN_WRONG\<close> and the blob of the cache entry of its
  identity stays empty. Whenever that blob is empty, starting a job of the same identity
  (with the pipes created and the card present) shows the prompt again.
\<close>

theorem rejected_pin_not_cached:
  assumes "proc ctx = Some p" and "p < length (v ctx)" and "state (v ctx ! p) = PST_IDLE"
    and "hto_wf (h ctx)" and "identityComplete (config (v ctx ! p))"
    and "cacheLookup (h ctx) (config (v ctx ! p)) = None"
    and "e_pipeSetup (jobEnv os p) = PipeReady" and "e_cardStatus (jobEnv os p)"
    and "e_prompt (jobEnv os p)" and "e_unpack (jobEnv os p) = Some rawPin"
    and "\<not> e_validate (jobEnv os p)"
  shows "\<exists>ctx'. processStart os ctx = (False, ctx') \<and> state (v ctx' ! p) = PST_PIN_WRONG
           \<and> promptCount ctx' = promptCount ctx + 1
           \<and> hto_wf (h ctx') \<and> cacheLookup (h ctx') (config (v ctx ! p)) = None
           \<and> (\<forall>ctx2 q os2.
                 hto_wf (h ctx2) \<and> cacheLookup (h ctx2) (config (v ctx ! p)) = None
                 \<and> config (v ctx2 ! q) = config (v ctx ! p)
                 \<and> e_pipeSetup (jobEnv os2 q) = PipeReady \<and> e_cardStatus (jobEnv os2 q) \<longrightarrow>
                   promptCount (snd (processSpawn os2 q ctx2)) = promptCount ctx2 + 1)"
proof -
  obtain ctx' where r: "processStart os ctx = (False, ctx')" "state (v ctx' ! p) = PST_PIN_WRONG"
      "cacheLookup (h ctx') (config (v ctx ! p)) = None" "hto_wf (h ctx')"
      "promptCount ctx' = promptCount ctx + 1"
    using processStart_pin_rejected[OF assms] by blast
  have later: "promptCount (snd (processSpawn os2 q ctx2)) = promptCount ctx2 + 1"
    if "hto_wf (h ctx2) \<and> cacheLookup (h ctx2) (config (v ctx ! p)) = None
        \<and> config (v ctx2 ! q) = config (v ctx ! p)
        \<and> e_pipeSetup (jobEnv os2 q) = PipeReady \<and> e_cardStatus (jobEnv os2 q)" for ctx2 q os2
  proof -
    have "promptCount (snd (processSpawn os2 q ctx2))
            = promptCount (snd (getPin os2 (jobEnv os2 q) (config (v ctx2 ! q)) ctx2))"
      by (rule processSpawn_promptCount) (use that in simp)
    also have "\<dots> = promptCount ctx2 + 1"
      using getPin_prompts_when_empty[of ctx2 "config (v ctx ! p)" "jobEnv os2 q" os2] that assms(5)
      by simp
    finally show ?thesis .
  qed
  show ?thesis using r later by blast
qed

lemma twoJobs_facts:
  "proc twoJobsCtx = Some 0" "0 < length (v twoJobsCtx)" "state (v twoJobsCtx ! 0) = PST_IDLE"
  "hto_wf (h twoJobsCtx)" "identityComplete (config (v twoJobsCtx ! 0))"
  "cacheLookup (h twoJobsCtx) (config (v twoJobsCtx ! 0)) = None"
  "config (v twoJobsCtx ! 1) = config (v twoJobsCtx ! 0)"
  by (simp_all add: twoJobsCtx_def initialCtx_def idleJob_def exampleJob_def hto_create_wf
        identityComplete_def cacheLookup_initial)

theorem rejected_pin_not_cached_witness:
  "proc twoJobsCtx = Some 0 \<and> 0 < length (v twoJobsCtx) \<and> state (v twoJobsCtx ! 0) = PST_IDLE
   \<and> hto_wf (h twoJobsCtx) \<and> identityComplete (config (v twoJobsCtx ! 0))
   \<and> cacheLookup (h twoJobsCtx) (config (v twoJobsCtx ! 0)) = None
   \<and> e_pipeSetup (jobEnv rejectOs 0) = PipeReady \<and> e_cardStatus (jobEnv rejectOs 0)
   \<and> e_prompt (jobEnv rejectOs 0) \<and> e_unpack (jobEnv rejectOs 0) = Some (L ''1234'' @ [0])
   \<and> \<not> e_validate (jobEnv rejectOs 0)
   \<and> fst (processStart rejectOs twoJobsCtx) = False
   \<and> state (v (snd (processStart rejectOs twoJobsCtx)) ! 0) = PST_PIN_WRONG
   \<and> cacheLookup (h (snd (processStart rejectOs twoJobsCtx))) (config (v twoJobsCtx ! 0)) = None
   \<and> promptCount (snd (processStart rejectOs twoJobsCtx)) = 1
   \<and> config (v (snd (processStart rejectOs twoJobsCtx)) ! 1) = config (v twoJobsCtx ! 0)
   \<and> e_pipeSetup (jobEnv rejectOs 1) = PipeReady \<and> e_cardStatus (jobEnv rejectOs 1)
   \<and> promptCount (snd (processSpawn rejectOs 1 (snd (processStart rejectOs twoJobsCtx)))) = 2"
proof -
  have e: "e_pipeSetup (jobEnv rejectOs 0) = PipeReady" "e_cardStatus (jobEnv rejectOs 0)"
    "e_prompt (jobEnv rejectOs 0)" "e_unpack (jobEnv rejectOs 0) = Some (L ''1234'' @ [0])"
    "\<not> e_validate (jobEnv rejectOs 0)"
    "e_pipeSetup (jobEnv rejectOs 1) = PipeReady" "e_cardStatus (jobEnv rejectOs 1)"
    by (simp_all add: rejectOs_def exampleOs_def exampleJobEnv_def)
  note f = twoJobs_facts
  obtain ctx' where r: "processStart rejectOs twoJobsCtx = (False, ctx')"
      "state (v ctx' ! 0) = PST_PIN_WRONG" "promptCount ctx' = promptCount twoJobsCtx + 1"
      "hto_wf (h ctx')" "cacheLookup (h ctx') (config (v twoJobsCtx ! 0)) = None"
      and later: "\<forall>ctx2 q os2.
                 hto_wf (h ctx2) \<and> cacheLookup (h ctx2) (config (v twoJobsCtx ! 0)) = None
                 \<and> config (v ctx2 ! q) = config (v twoJobsCtx ! 0)
                 \<and> e_pipeSetup (jobEnv os2 q) = PipeReady \<and> e_cardStatus (jobEnv os2 q) \<longrightarrow>
                   promptCount (snd (processSpawn os2 q ctx2)) = promptCount ctx2 + 1"
    using rejected_pin_not_cached[OF f(1-6) e(1-5)] by blast
  have v1: "config (v ctx' ! 1) = config (v twoJobsCtx ! 0)"
  proof -
    obtain c'' where "processStart rejectOs twoJobsCtx = (False, c'')" "\<forall>q. q \<noteq> 0 \<longrightarrow> v c'' ! q = v twoJobsCtx ! q"
      using processStart_pin_rejected[OF f(1-6) e(1-5)] by blast
    then show ?thesis using r(1) f(7) by simp
  qed
  have p0: "promptCount twoJobsCtx = 0" by (simp add: promptCount_def twoJobsCtx_def initialCtx_def)
  have l: "promptCount (snd (processSpawn rejectOs 1 ctx')) = promptCount ctx' + 1"
    using later[rule_format, of ctx' 1 rejectOs] r(4,5) v1 e(6,7) by simp
  show ?thesis using e f(1-6) r v1 l p0 by simp
qed

lemma getPin_no_card:
  assumes wf: "hto_wf (h ctx)" and c: "cacheLookup (h ctx) c = None" and card: "\<not> e_cardStatus e"
  shows "fst (getPin os e c ctx) = Inl PST_PIN_MISSING
         \<and> promptCount (snd (getPin os e c ctx)) = promptCount ctx
         \<and> cacheLookup (h (snd (getPin os e c ctx))) c = None"
proof -
  have "\<exists>blob. iniConfigGetPin e c None = (False, blob, []) \<and> blob = None"
    using card by (simp add: iniConfigGetPin_def)
  then have i: "iniConfigGetPin e c None = (False, None, [])" by simp
  obtain ctx' where r: "getPin os e c ctx = (Inl PST_PIN_MISSING, ctx')"
    "oscalls ctx' = oscalls ctx @ []" "cacheLookup (h ctx') c = None"
    using getPin_uncached[OF wf c i, of os] by auto
  show ?thesis by (simp add: r promptCount_def)
qed

lemma getPin_cancelled_or_rejected:
  assumes wf: "hto_wf (h ctx)" and c: "cacheLookup (h ctx) c = None"
    and id: "identityComplete c" and card: "e_cardStatus e"
    and f: "\<not> e_prompt e \<or> (e_unpack e = Some raw \<and> \<not> e_validate e)"
  shows "\<exists>ctx'. getPin os e c ctx = (Inl (if e_prompt e then PST_PIN_WRONG else PST_PIN_MISSING), ctx')
           \<and> cacheLookup (h ctx') c = None \<and> hto_wf (h ctx')
           \<and> promptCount ctx' = promptCount ctx + 1"
proof -
  have i: "iniConfigGetPin e c None = (e_prompt e, None, [CredUIPromptForWindowsCredentials c])"
    using id card f by (auto simp: iniConfigGetPin_def identityComplete_def)
  obtain ctx' where r: "getPin os e c ctx
            = (if \<not> e_prompt e then Inl PST_PIN_MISSING else Inl PST_PIN_WRONG, ctx')"
    "oscalls ctx' = oscalls ctx @ [CredUIPromptForWindowsCredentials c]"
    "cacheLookup (h ctx') c = None" "hto_wf (h ctx')"
    using getPin_uncached[OF wf c i, of os] by auto
  have "promptCount ctx' = promptCount ctx + 1" by (simp add: promptCount_def r(2) isPrompt_def)
  then show ?thesis using r by auto
qed

text \<open>
  Claim C1, as amended. Once a credential lookup for an identity has returned a PIN, the
  cache holds for that identity a blob that decrypts to this PIN; when the lookup had
  found the cache empty the blob is the encryption of a PIN the provider has validated.
  Every later lookup with an equal identity then returns the same PIN and leaves the
  context as it is, so that it makes no call at all, whatever the card and the user
  would answer; the two lookups together show at most one prompt. A lookup that finds
  the cache empty and whose prompt is cancelled, or whose PIN the provider rejects, shows
  one prompt, fails and leaves the cache empty. A lookup that finds the cache empty
  shows the prompt when the status of the card can be read, and fails with
  \<^verbatim>\<open>PST_PIN_MISSING\<close> without a prompt when it cannot.
\<close>

theorem cached_pin_reused_without_prompt:
  assumes "hto_wf (h ctx)" and "getPin os e c ctx = (Inr rawPin, ctx1)"
    and "identityComplete c" and "identityComplete c'" and "rcIniConfigBaseCmp c c' = 0"
  shows "(\<exists>blob. cacheLookup (h ctx1) c = Some blob \<and> decodePin os blob = Inr rawPin)
       \<and> (cacheLookup (h ctx) c = None \<longrightarrow> e_validate e \<and> cacheLookup (h ctx1) c = e_protect e)
       \<and> getPin os e' c' ctx1 = (Inr rawPin, ctx1)
       \<and> promptCount (snd (getPin os e' c' ctx1)) \<le> promptCount ctx + 1
       \<and> (\<forall>ctx2 e2 raw.
             hto_wf (h ctx2) \<and> cacheLookup (h ctx2) c = None \<and> e_cardStatus e2
             \<and> (\<not> e_prompt e2 \<or> (e_unpack e2 = Some raw \<and> \<not> e_validate e2)) \<longrightarrow>
               (\<exists>ctx3. getPin os e2 c ctx2
                          = (Inl (if e_prompt e2 then PST_PIN_WRONG else PST_PIN_MISSING), ctx3)
                  \<and> cacheLookup (h ctx3) c = None \<and> hto_wf (h ctx3)
                  \<and> promptCount ctx3 = promptCount ctx2 + 1))
       \<and> (\<forall>ctx2 e2.
             hto_wf (h ctx2) \<and> cacheLookup (h ctx2) c = None \<and> e_cardStatus e2 \<longrightarrow>
               promptCount (snd (getPin os e2 c ctx2)) = promptCount ctx2 + 1)
       \<and> (\<forall>ctx2 e2.
             hto_wf (h ctx2) \<and> cacheLookup (h ctx2) c = None \<and> \<not> e_cardStatus e2 \<longrightarrow>
               fst (getPin os e2 c ctx2) = Inl PST_PIN_MISSING
               \<and> promptCount (snd (getPin os e2 c ctx2)) = promptCount ctx2
               \<and> cacheLookup (h (snd (getPin os e2 c ctx2))) c = None)"
proof -
  note a = getPin_success_cached[OF assms(1,2)]
  have s: "getPin os e' c' ctx1 = (Inr rawPin, ctx1)"
    by (rule getPin_second_lookup[OF assms])
  have "promptCount ctx1 \<le> promptCount ctx + 1"
    using getPin_promptCount[OF assms(1,2)] by simp
  then have 1: "(\<exists>blob. cacheLookup (h ctx1) c = Some blob \<and> decodePin os blob = Inr rawPin)
       \<and> (cacheLookup (h ctx) c = None \<longrightarrow> e_validate e \<and> cacheLookup (h ctx1) c = e_protect e)
       \<and> getPin os e' c' ctx1 = (Inr rawPin, ctx1)
       \<and> promptCount (snd (getPin os e' c' ctx1)) \<le> promptCount ctx + 1"
    using a s by simp
  have 2: "\<forall>ctx2 e2 raw.
             hto_wf (h ctx2) \<and> cacheLookup (h ctx2) c = None \<and> e_cardStatus e2
             \<and> (\<not> e_prompt e2 \<or> (e_unpack e2 = Some raw \<and> \<not> e_validate e2)) \<longrightarrow>
               (\<exists>ctx3. getPin os e2 c ctx2
                          = (Inl (if e_prompt e2 then PST_PIN_WRONG else PST_PIN_MISSING), ctx3)
                  \<and> cacheLookup (h ctx3) c = None \<and> hto_wf (h ctx3)
                  \<and> promptCount ctx3 = promptCount ctx2 + 1)"
    using getPin_cancelled_or_rejected[OF _ _ assms(3)] by blast
  have 3: "\<forall>ctx2 e2.
             hto_wf (h ctx2) \<and> cacheLookup (h ctx2) c = None \<and> e_cardStatus e2 \<longrightarrow>
               promptCount (snd (getPin os e2 c ctx2)) = promptCount ctx2 + 1"
    using getPin_prompts_when_empty[OF _ _ assms(3)] by blast
  have 4: "\<forall>ctx2 e2.
             hto_wf (h ctx2) \<and> cacheLookup (h ctx2) c = None \<and> \<not> e_cardStatus e2 \<longrightarrow>
               fst (getPin os e2 c ctx2) = Inl PST_PIN_MISSING
               \<and> promptCount (snd (getPin os e2 c ctx2)) = promptCount ctx2
               \<and> cacheLookup (h (snd (getPin os e2 c ctx2))) c = None"
    using getPin_no_card by blast
  show ?thesis using 1 2 3 4 by blast
qed

text \<open>The card has been removed: its status cannot be read.\<close>

definition noCardOs :: tOs where
  "noCardOs = exampleOs\<lparr>jobEnv := (\<lambda>i. exampleJobEnv\<lparr>e_cardStatus := False\<rparr>)\<rparr>"

theorem cached_pin_reused_without_prompt_witness:
  "hto_wf (h idleCtx)
   \<and> fst (getPin exampleOs (jobEnv exampleOs 0) (config exampleJob) idleCtx) = Inr (L ''1234'' @ [0])
   \<and> identityComplete (config exampleJob)
   \<and> rcIniConfigBaseCmp (config exampleJob) (config exampleJob) = 0
   \<and> cacheLookup (h idleCtx) (config exampleJob) = None
   \<and> cacheLookup (h (snd (getPin exampleOs (jobEnv exampleOs 0) (config exampleJob) idleCtx))) (config exampleJob)
       = Some [1, 2, 3]
   \<and> getPin exampleOs (jobEnv cancelOs 1) (config exampleJob)
        (snd (getPin exampleOs (jobEnv exampleOs 0) (config exampleJob) idleCtx))
       = (Inr (L ''1234'' @ [0]), snd (getPin exampleOs (jobEnv exampleOs 0) (config exampleJob) idleCtx))
   \<and> promptCount (snd (getPin exampleOs (jobEnv exampleOs 0) (config exampleJob) idleCtx)) = 1
   \<and> e_cardStatus (jobEnv cancelOs 0) \<and> \<not> e_prompt (jobEnv cancelOs 0)
   \<and> fst (getPin exampleOs (jobEnv cancelOs 0) (config exampleJob) idleCtx) = Inl PST_PIN_MISSING
   \<and> cacheLookup (h (snd (getPin exampleOs (jobEnv cancelOs 0) (config exampleJob) idleCtx))) (config exampleJob) = None
   \<and> promptCount (snd (getPin exampleOs (jobEnv cancelOs 0) (config exampleJob) idleCtx)) = 1
   \<and> e_cardStatus (jobEnv rejectOs 0) \<and> e_prompt (jobEnv rejectOs 0)
   \<and> e_unpack (jobEnv rejectOs 0) = Some (L ''1234'' @ [0]) \<and> \<not> e_validate (jobEnv rejectOs 0)
   \<and> fst (getPin exampleOs (jobEnv rejectOs 0) (config exampleJob) idleCtx) = Inl PST_PIN_WRONG
   \<and> cacheLookup (h (snd (getPin exampleOs (jobEnv rejectOs 0) (config exampleJob) idleCtx))) (config exampleJob) = None
   \<and> promptCount (snd (getPin exampleOs (jobEnv rejectOs 0) (config exampleJob) idleCtx)) = 1
   \<and> \<not> e_cardStatus (jobEnv noCardOs 1)
   \<and> fst (getPin exampleOs (jobEnv noCardOs 1) (config exampleJob) idleCtx) = Inl PST_PIN_MISSING
   \<and> promptCount (snd (getPin exampleOs (jobEnv noCardOs 1) (config exampleJob) idleCtx)) = 0"
proof -
  have wf: "hto_wf (h idleCtx)" by (simp add: idleCtx_def initialCtx_def hto_create_wf)
  obtain ctx1 where g: "getPin exampleOs (jobEnv exampleOs 0) (config exampleJob) idleCtx = (Inr (L ''1234'' @ [0]), ctx1)"
    and o: "oscalls ctx1 = [CredUIPromptForWindowsCredentials (config exampleJob)]"
    using example_getPin[of idleCtx 0] by (auto simp: idleCtx_def initialCtx_def)
  have id: "identityComplete (config exampleJob)" by (simp add: identityComplete_def exampleJob_def)
  have cmp: "rcIniConfigBaseCmp (config exampleJob) (config exampleJob) = 0" by (rule rcIniConfigBaseCmp_refl)
  have n: "cacheLookup (h idleCtx) (config exampleJob) = None"
    by (simp add: idleCtx_def initialCtx_def cacheLookup_initial)
  note t = cached_pin_reused_without_prompt[OF wf g id id cmp, of "jobEnv cancelOs 1"]
  have pr: "e_protect (jobEnv exampleOs 0) = Some [1, 2, 3]" by (simp add: exampleOs_def exampleJobEnv_def)
  have l: "cacheLookup (h ctx1) (config exampleJob) = Some [1, 2, 3]" using t n pr by simp
  have s: "getPin exampleOs (jobEnv cancelOs 1) (config exampleJob) ctx1 = (Inr (L ''1234'' @ [0]), ctx1)"
    using t by simp
  have p: "promptCount ctx1 = 1" using o by (simp add: promptCount_def isPrompt_def)
  have p0: "promptCount idleCtx = 0" by (simp add: promptCount_def idleCtx_def initialCtx_def)
  have ec: "e_cardStatus (jobEnv cancelOs 0)" "\<not> e_prompt (jobEnv cancelOs 0)"
    by (simp_all add: cancelOs_def exampleOs_def exampleJobEnv_def)
  have er: "e_cardStatus (jobEnv rejectOs 0)" "e_prompt (jobEnv rejectOs 0)"
    "e_unpack (jobEnv rejectOs 0) = Some (L ''1234'' @ [0])" "\<not> e_validate (jobEnv rejectOs 0)"
    by (simp_all add: rejectOs_def exampleOs_def exampleJobEnv_def)
  have en: "\<not> e_cardStatus (jobEnv noCardOs 1)"
    by (simp add: noCardOs_def exampleOs_def exampleJobEnv_def)
  have t5: "\<forall>ctx2 e2 raw.
             hto_wf (h ctx2) \<and> cacheLookup (h ctx2) (config exampleJob) = None \<and> e_cardStatus e2
             \<and> (\<not> e_prompt e2 \<or> (e_unpack e2 = Some raw \<and> \<not> e_validate e2)) \<longrightarrow>
               (\<exists>ctx3. getPin exampleOs e2 (config exampleJob) ctx2
                          = (Inl (if e_prompt e2 then PST_PIN_WRONG else PST_PIN_MISSING), ctx3)
                  \<and> cacheLookup (h ctx3) (config exampleJob) = None \<and> hto_wf (h ctx3)
                  \<and> promptCount ctx3 = promptCount ctx2 + 1)"
    using t by blast
  have t7: "\<forall>ctx2 e2.
             hto_wf (h ctx2) \<and> cacheLookup (h ctx2) (config exampleJob) = None \<and> \<not> e_cardStatus e2 \<longrightarrow>
               fst (getPin exampleOs e2 (config exampleJob) ctx2) = Inl PST_PIN_MISSING
               \<and> promptCount (snd (getPin exampleOs e2 (config exampleJob) ctx2)) = promptCount ctx2
               \<and> cacheLookup (h (snd (getPin exampleOs e2 (config exampleJob) ctx2))) (config exampleJob) = None"
    using t by blast
  obtain c3 where c: "getPin exampleOs (jobEnv cancelOs 0) (config exampleJob) idleCtx = (Inl PST_PIN_MISSING, c3)"
    "cacheLookup (h c3) (config exampleJob) = None" "promptCount c3 = promptCount idleCtx + 1"
    using t5[rule_format, of idleCtx "jobEnv cancelOs 0" "[]"] wf n ec by auto
  obtain c4 where r: "getPin exampleOs (jobEnv rejectOs 0) (config exampleJob) idleCtx = (Inl PST_PIN_WRONG, c4)"
    "cacheLookup (h c4) (config exampleJob) = None" "promptCount c4 = promptCount idleCtx + 1"
    using t5[rule_format, of idleCtx "jobEnv rejectOs 0" "L ''1234'' @ [0]"] wf n er by auto
  have m: "fst (getPin exampleOs (jobEnv noCardOs 1) (config exampleJob) idleCtx) = Inl PST_PIN_MISSING"
    "promptCount (snd (getPin exampleOs (jobEnv noCardOs 1) (config exampleJob) idleCtx)) = 0"
    using t7[rule_format, of idleCtx "jobEnv noCardOs 1"] wf n en p0 by simp_all
  show ?thesis using wf id cmp n l s p ec er en c r m p0 by (simp add: g)
qed

text \<open>
  As the claim is worded, two successive lookups never show more than one prompt. When
  the user cancels the prompt nothing is cached, and the second lookup prompts again.
\<close>

theorem two_lookups_two_prompts_counterexample:
  "promptCount idleCtx = 0
   \<and> promptCount
        (snd (getPin cancelOs (jobEnv cancelOs 1) (config exampleJob)
               (snd (getPin cancelOs (jobEnv cancelOs 0) (config exampleJob) idleCtx)))) = 2"
proof -
  have wf: "hto_wf (h idleCtx)" by (simp add: idleCtx_def initialCtx_def hto_create_wf)
  have n: "cacheLookup (h idleCtx) (config exampleJob) = None"
    by (simp add: idleCtx_def initialCtx_def cacheLookup_initial)
  have i: "iniConfigGetPin (jobEnv cancelOs k) (config exampleJob) None
             = (False, None, [CredUIPromptForWindowsCredentials (config exampleJob)])" for k
    by (simp add: iniConfigGetPin_def cancelOs_def exampleOs_def exampleJobEnv_def exampleJob_def)
  obtain ctx1 where 1: "snd (getPin cancelOs (jobEnv cancelOs 0) (config exampleJob) idleCtx) = ctx1"
    "oscalls ctx1 = oscalls idleCtx @ [CredUIPromptForWindowsCredentials (config exampleJob)]"
    "cacheLookup (h ctx1) (config exampleJob) = None" "hto_wf (h ctx1)"
    using getPin_uncached[OF wf n i, of cancelOs 0] by force
  obtain ctx2 where 2: "snd (getPin cancelOs (jobEnv cancelOs 1) (config exampleJob) ctx1) = ctx2"
    "oscalls ctx2 = oscalls ctx1 @ [CredUIPromptForWindowsCredentials (config exampleJob)]"
    using getPin_uncached[OF 1(4) 1(3) i, of cancelOs 1] by force
  have o: "oscalls idleCtx = []" by (simp add: idleCtx_def initialCtx_def)
  show ?thesis unfolding 1(1) 2(1) by (simp add: promptCount_def 2(2) 1(2) o isPrompt_def)
qed

section \<open>Job queue and state machine\<close>

text \<open>
  The states a job can be in after an operation, given its state before: a job leaves
  \<^verbatim>\<open>PST_IDLE\<close> when it is started (to \<^verbatim>\<open>PST_RUNNING\<close>, or straight to the state the
  failed start assigns), leaves \<^verbatim>\<open>PST_RUNNING\<close> for \<^verbatim>\<open>PST_OK\<close> or \<^verbatim>\<open>PST_FAIL\<close>, and
  otherwise stays as it is.
\<close>

definition terminal :: "tProcState \<Rightarrow> bool" where
  "terminal s = (s \<noteq> PST_IDLE \<and> s \<noteq> PST_RUNNING)"

definition startFailure :: "tProcState \<Rightarrow> bool" where
  "startFailure s =
     (s = PST_FAIL \<or> s = PST_BROKEN_PIPE \<or> s = PST_APP_NOT_FOUND \<or> s = PST_PIN_MISSING \<or> s = PST_PIN_WRONG)"

definition jobStep :: "tProcState \<Rightarrow> tProcState \<Rightarrow> bool" where
  "jobStep s s' =
     (s' = s
      \<or> (s = PST_IDLE \<and> (s' = PST_RUNNING \<or> s' = PST_OK \<or> startFailure s'))
      \<or> (s = PST_RUNNING \<and> (s' = PST_OK \<or> s' = PST_FAIL)))"

lemma jobStep_refl: "jobStep s s"
  by (simp add: jobStep_def)

lemma jobStep_trans: "jobStep a b \<Longrightarrow> jobStep b c \<Longrightarrow> jobStep a c"
  by (auto simp: jobStep_def startFailure_def)

text \<open>
  What holds of the queue between two operations: a running job is the current one and
  has a read pending, the current job is an element of the vector at the cursor, a read
  is pending only while the current job runs, no job before the cursor is idle, and the
  cursor does not point beyond the end of the vector.
\<close>

definition queueInv :: "tIpcWndCtx \<Rightarrow> bool" where
  "queueInv ctx =
     ((\<forall>i < length (v ctx). state (v ctx ! i) = PST_RUNNING \<longrightarrow> proc ctx = Some i \<and> ovProcRead ctx)
      \<and> (\<forall>p. proc ctx = Some p \<longrightarrow> p < length (v ctx) \<and> vi ctx = p)
      \<and> (ovProcRead ctx \<longrightarrow> (\<exists>p. proc ctx = Some p \<and> state (v ctx ! p) = PST_RUNNING))
      \<and> (\<forall>i < length (v ctx). i < vi ctx \<longrightarrow> state (v ctx ! i) \<noteq> PST_IDLE)
      \<and> vi ctx \<le> length (v ctx))"

definition noneRunning :: "tIpcWndCtx \<Rightarrow> bool" where
  "noneRunning ctx = (\<forall>i < length (v ctx). state (v ctx ! i) \<noteq> PST_RUNNING)"

text \<open>The jobs of \<open>ctx'\<close> are those of \<open>ctx\<close>, each one step further at most.\<close>

definition jobsStep :: "tIpcWndCtx \<Rightarrow> tIpcWndCtx \<Rightarrow> bool" where
  "jobsStep ctx ctx' =
     (length (v ctx') = length (v ctx)
      \<and> (\<forall>i < length (v ctx). jobStep (state (v ctx ! i)) (state (v ctx' ! i))
            \<and> config (v ctx' ! i) = config (v ctx ! i) \<and> signApp (v ctx' ! i) = signApp (v ctx ! i)
            \<and> path (v ctx' ! i) = path (v ctx ! i)))"

lemma jobsStep_refl: "jobsStep ctx ctx"
  by (simp add: jobsStep_def jobStep_refl)

lemma jobsStep_trans:
  assumes "jobsStep a b" and "jobsStep b c"
  shows "jobsStep a c"
proof -
  have l: "length (v b) = length (v a)" "length (v c) = length (v b)"
    using assms by (simp_all add: jobsStep_def)
  have "jobStep (state (v a ! i)) (state (v c ! i)) \<and> config (v c ! i) = config (v a ! i)
        \<and> signApp (v c ! i) = signApp (v a ! i) \<and> path (v c ! i) = path (v a ! i)"
    if "i < length (v a)" for i
  proof -
    have 1: "jobStep (state (v a ! i)) (state (v b ! i))" "config (v b ! i) = config (v a ! i)"
      "signApp (v b ! i) = signApp (v a ! i)" "path (v b ! i) = path (v a ! i)"
      using assms(1) that by (simp_all add: jobsStep_def)
    have 2: "jobStep (state (v b ! i)) (state (v c ! i))" "config (v c ! i) = config (v b ! i)"
      "signApp (v c ! i) = signApp (v b ! i)" "path (v c ! i) = path (v b ! i)"
      using assms(2) that l by (simp_all add: jobsStep_def)
    show ?thesis using jobStep_trans[OF 1(1) 2(1)] 1 2 by simp
  qed
  then show ?thesis using l by (simp add: jobsStep_def)
qed

lemma jobsStep_same_v: "v b = v a \<Longrightarrow> jobsStep a b"
  by (simp add: jobsStep_def jobStep_refl)

lemma vi_addCalls [simp]: "vi (addCalls cs ctx) = vi ctx"
  by (simp add: addCalls_def)

lemma ovProcRead_addCalls [simp]: "ovProcRead (addCalls cs ctx) = ovProcRead ctx"
  by (simp add: addCalls_def)

lemma processSpawn_frame:
  "vi (snd (processSpawn os p ctx)) = vi ctx" "ovProcRead (snd (processSpawn os p ctx)) = ovProcRead ctx"
  using processSpawn_changes[of os p ctx] by auto

lemma getPin_newState:
  "getPin os e c ctx = (Inl st, c1) \<Longrightarrow> st = PST_PIN_MISSING \<or> st = PST_PIN_WRONG"
proof -
  assume g: "getPin os e c ctx = (Inl st, c1)"
  obtain pin ht where a: "hto_addKey (h ctx) c = (pin, ht)" by (cases "hto_addKey (h ctx) c")
  obtain ok blob calls where i: "iniConfigGetPin e c (blobAt ht pin) = (ok, blob, calls)"
    by (cases "iniConfigGetPin e c (blobAt ht pin)") auto
  show ?thesis
  proof (cases "blobAt ht pin")
    case None
    show ?thesis using g i[unfolded None]
      by (simp add: getPin_def a None Let_def split: option.splits if_splits)
  next
    case (Some y)
    show ?thesis using g
      by (simp add: getPin_def a Some Let_def split: option.splits if_splits)
  qed
qed

lemma spawnChild_newState:
  "spawnChild os e job rawPin = (Some st, cs) \<Longrightarrow>
     st = PST_FAIL \<or> st = PST_APP_NOT_FOUND \<or> st = PST_PIN_MISSING"
  by (auto simp: spawnChild_def split: prod.splits option.splits if_splits)

lemma processSpawn_newState:
  assumes "fst (processSpawn os p ctx) = Some st"
  shows "startFailure st"
proof (cases "e_pipeSetup (jobEnv os p)")
  case UuidFailed
  then show ?thesis using assms by (auto simp: processSpawn_def startFailure_def)
next
  case PipeFailed
  then show ?thesis using assms by (auto simp: processSpawn_def startFailure_def)
next
  case PipeReady
  obtain r c1 where g: "getPin os (jobEnv os p) (config (v ctx ! p)) ctx = (r, c1)"
    by (cases "getPin os (jobEnv os p) (config (v ctx ! p)) ctx")
  show ?thesis
  proof (cases r)
    case (Inl x)
    then have "st = x" using assms by (simp add: processSpawn_def PipeReady g)
    then show ?thesis using getPin_newState[OF g[unfolded Inl]] by (auto simp: startFailure_def)
  next
    case (Inr rawPin)
    obtain res cs where sc: "spawnChild os (jobEnv os p) (v ctx ! p) rawPin = (res, cs)"
      by (cases "spawnChild os (jobEnv os p) (v ctx ! p) rawPin")
    have "res = Some st" using assms by (simp add: processSpawn_def PipeReady g Inr sc)
    then show ?thesis using spawnChild_newState[of os "jobEnv os p" "v ctx ! p" rawPin st cs] sc
      by (auto simp: startFailure_def)
  qed
qed

lemma queueInv_cong:
  "v a = v b \<Longrightarrow> proc a = proc b \<Longrightarrow> vi a = vi b \<Longrightarrow> ovProcRead a = ovProcRead b \<Longrightarrow>
     queueInv a = queueInv b"
  by (simp add: queueInv_def)

lemma setState_fields [simp]:
  "proc (setState p st ctx) = proc ctx" "vi (setState p st ctx) = vi ctx"
  "ovProcRead (setState p st ctx) = ovProcRead ctx" "length (v (setState p st ctx)) = length (v ctx)"
  "h (setState p st ctx) = h ctx" "oscalls (setState p st ctx) = oscalls ctx"
  by (simp_all add: setState_def)

lemma setState_nth:
  "i < length (v ctx) \<Longrightarrow>
     state (v (setState p st ctx) ! i) = (if i = p then st else state (v ctx ! i))
     \<and> config (v (setState p st ctx) ! i) = config (v ctx ! i)
     \<and> signApp (v (setState p st ctx) ! i) = signApp (v ctx ! i)
     \<and> path (v (setState p st ctx) ! i) = path (v ctx ! i)
     \<and> output (v (setState p st ctx) ! i) = output (v ctx ! i)"
  by (simp add: setState_def nth_list_update)

lemma queueInvD1:
  "queueInv ctx \<Longrightarrow> i < length (v ctx) \<Longrightarrow> state (v ctx ! i) = PST_RUNNING \<Longrightarrow>
     proc ctx = Some i \<and> ovProcRead ctx"
  unfolding queueInv_def by blast

lemma queueInvD2: "queueInv ctx \<Longrightarrow> proc ctx = Some p \<Longrightarrow> p < length (v ctx) \<and> vi ctx = p"
  unfolding queueInv_def by blast

lemma queueInvD3:
  "queueInv ctx \<Longrightarrow> ovProcRead ctx \<Longrightarrow> \<exists>p. proc ctx = Some p \<and> state (v ctx ! p) = PST_RUNNING"
  unfolding queueInv_def by blast

lemma queueInvD4:
  "queueInv ctx \<Longrightarrow> i < length (v ctx) \<Longrightarrow> i < vi ctx \<Longrightarrow> state (v ctx ! i) \<noteq> PST_IDLE"
  unfolding queueInv_def by blast

lemma queueInvD5: "queueInv ctx \<Longrightarrow> vi ctx \<le> length (v ctx)"
  unfolding queueInv_def by blast

lemma queueInvI:
  assumes "\<And>i. i < length (v ctx) \<Longrightarrow> state (v ctx ! i) = PST_RUNNING \<Longrightarrow> proc ctx = Some i \<and> ovProcRead ctx"
    and "\<And>p. proc ctx = Some p \<Longrightarrow> p < length (v ctx) \<and> vi ctx = p"
    and "ovProcRead ctx \<Longrightarrow> \<exists>p. proc ctx = Some p \<and> state (v ctx ! p) = PST_RUNNING"
    and "\<And>i. i < length (v ctx) \<Longrightarrow> i < vi ctx \<Longrightarrow> state (v ctx ! i) \<noteq> PST_IDLE"
    and "vi ctx \<le> length (v ctx)"
  shows "queueInv ctx"
  unfolding queueInv_def using assms by blast

lemma noneRunningD: "noneRunning ctx \<Longrightarrow> i < length (v ctx) \<Longrightarrow> state (v ctx ! i) \<noteq> PST_RUNNING"
  unfolding noneRunning_def by blast

lemma queueInv_not_pending:
  assumes "queueInv ctx" and "noneRunning ctx"
  shows "\<not> ovProcRead ctx"
proof
  assume "ovProcRead ctx"
  then obtain p where p: "proc ctx = Some p" "state (v ctx ! p) = PST_RUNNING"
    using queueInvD3[OF assms(1)] by blast
  have "p < length (v ctx)" using queueInvD2[OF assms(1) p(1)] by simp
  then show False using noneRunningD[OF assms(2)] p(2) by blast
qed

lemma jobsStep_setState:
  assumes "p < length (v ctx)" and "jobStep (state (v ctx ! p)) st"
  shows "jobsStep ctx (setState p st ctx)"
proof -
  have "jobStep (state (v ctx ! i)) (state (v (setState p st ctx) ! i))
        \<and> config (v (setState p st ctx) ! i) = config (v ctx ! i)
        \<and> signApp (v (setState p st ctx) ! i) = signApp (v ctx ! i)
        \<and> path (v (setState p st ctx) ! i) = path (v ctx ! i)" if "i < length (v ctx)" for i
  proof (cases "i = p")
    case True
    then show ?thesis using setState_nth[OF that, of p st] assms(2) by simp
  next
    case False
    then show ?thesis using setState_nth[OF that, of p st] by (simp add: jobStep_refl)
  qed
  then show ?thesis unfolding jobsStep_def by simp
qed

lemma queueInv_setState_terminal:
  assumes q: "queueInv ctx" and n: "noneRunning ctx" and st: "st \<noteq> PST_RUNNING" "st \<noteq> PST_IDLE"
  shows "queueInv (setState p st ctx) \<and> noneRunning (setState p st ctx)"
proof -
  let ?c = "setState p st ctx"
  have np: "\<not> ovProcRead ctx" by (rule queueInv_not_pending[OF q n])
  have r: "state (v ?c ! i) \<noteq> PST_RUNNING" if "i < length (v ctx)" for i
  proof (cases "i = p")
    case True then show ?thesis using setState_nth[OF that, of p st] st by simp
  next
    case False then show ?thesis using setState_nth[OF that, of p st] noneRunningD[OF n that] by simp
  qed
  have d: "state (v ?c ! i) \<noteq> PST_IDLE" if "i < length (v ctx)" "i < vi ctx" for i
  proof (cases "i = p")
    case True then show ?thesis using setState_nth[OF that(1), of p st] st by simp
  next
    case False then show ?thesis using setState_nth[OF that(1), of p st] queueInvD4[OF q that] by simp
  qed
  have "queueInv ?c"
  proof (rule queueInvI)
    fix i assume "i < length (v ?c)" "state (v ?c ! i) = PST_RUNNING"
    then show "proc ?c = Some i \<and> ovProcRead ?c" using r[of i] by simp
  next
    fix k assume "proc ?c = Some k"
    then show "k < length (v ?c) \<and> vi ?c = k" using queueInvD2[OF q, of k] by simp
  next
    assume "ovProcRead ?c"
    then show "\<exists>k. proc ?c = Some k \<and> state (v ?c ! k) = PST_RUNNING" using np by simp
  next
    fix i assume "i < length (v ?c)" "i < vi ?c"
    then show "state (v ?c ! i) \<noteq> PST_IDLE" using d[of i] by simp
  next
    show "vi ?c \<le> length (v ?c)" using queueInvD5[OF q] by simp
  qed
  moreover have "noneRunning ?c" unfolding noneRunning_def using r by simp
  ultimately show ?thesis by simp
qed

lemma queueInv_started:
  assumes q: "queueInv ctx" and n: "noneRunning ctx" and p: "proc ctx = Some p"
  shows "queueInv ((setState p PST_RUNNING ctx)\<lparr>ovProcRead := True\<rparr>)"
proof -
  have pv: "p < length (v ctx)" "vi ctx = p" using queueInvD2[OF q p] by simp_all
  let ?c = "(setState p PST_RUNNING ctx)\<lparr>ovProcRead := True\<rparr>"
  have f: "v ?c = v (setState p PST_RUNNING ctx)" "proc ?c = Some p" "vi ?c = p" "ovProcRead ?c"
    "length (v ?c) = length (v ctx)"
    using p pv by simp_all
  have s: "state (v ?c ! i) = (if i = p then PST_RUNNING else state (v ctx ! i))" if "i < length (v ctx)" for i
    unfolding f(1) using setState_nth[OF that, of p PST_RUNNING] by simp
  show ?thesis
  proof (rule queueInvI)
    fix i assume a: "i < length (v ?c)" "state (v ?c ! i) = PST_RUNNING"
    have "i = p"
    proof (rule ccontr)
      assume "i \<noteq> p"
      then have "state (v ctx ! i) = PST_RUNNING" using a s[of i] f(5) by simp
      then show False using noneRunningD[OF n, of i] a(1) f(5) by simp
    qed
    then show "proc ?c = Some i \<and> ovProcRead ?c" using f by simp
  next
    fix k assume "proc ?c = Some k"
    then show "k < length (v ?c) \<and> vi ?c = k" using f pv by simp
  next
    assume "ovProcRead ?c"
    have "state (v ?c ! p) = PST_RUNNING" using s[OF pv(1)] by simp
    then show "\<exists>k. proc ?c = Some k \<and> state (v ?c ! k) = PST_RUNNING" using f(2) by blast
  next
    fix i assume a: "i < length (v ?c)" "i < vi ?c"
    then have "i \<noteq> p" "i < vi ctx" "i < length (v ctx)" using f pv by simp_all
    then show "state (v ?c ! i) \<noteq> PST_IDLE" using s[of i] queueInvD4[OF q, of i] by simp
  next
    show "vi ?c \<le> length (v ?c)" using f pv by simp
  qed
qed

lemma processFinish_result:
  assumes p: "proc ctx = Some p" and pl: "p < length (v ctx)"
  shows "\<exists>st out. (st = PST_OK \<or> st = PST_FAIL)
           \<and> v (snd (processFinish os ctx)) = (v ctx)[p := (v ctx ! p)\<lparr>output := out, state := st\<rparr>]
           \<and> (proc (snd (processFinish os ctx)) = None \<or> proc (snd (processFinish os ctx)) = Some p)
           \<and> vi (snd (processFinish os ctx)) = vi ctx
           \<and> ovProcRead (snd (processFinish os ctx)) = ovProcRead ctx
           \<and> h (snd (processFinish os ctx)) = h ctx \<and> oscalls (snd (processFinish os ctx)) = oscalls ctx"
proof (cases "e_wait (jobEnv os p)")
  case False
  have "v (snd (processFinish os ctx)) = (v ctx)[p := (v ctx ! p)\<lparr>output := output (v ctx ! p), state := PST_FAIL\<rparr>]"
    using False by (simp add: processFinish_def p setState_def)
  then show ?thesis using False by (intro exI[of _ PST_FAIL] exI[of _ "output (v ctx ! p)"]) (simp add: processFinish_def p)
next
  case True
  show ?thesis
  proof (cases "e_exitCode (jobEnv os p)")
    case None
    have "v (snd (processFinish os ctx)) = (v ctx)[p := (v ctx ! p)\<lparr>output := output (v ctx ! p), state := PST_FAIL\<rparr>]"
      using True None by (simp add: processFinish_def p setState_def)
    then show ?thesis using True None
      by (intro exI[of _ PST_FAIL] exI[of _ "output (v ctx ! p)"]) (simp add: processFinish_def p)
  next
    case (Some code)
    show ?thesis
    proof (cases "code = 0")
      case z: True
      have "v (snd (processFinish os ctx)) = (v ctx)[p := (v ctx ! p)\<lparr>output := output (v ctx ! p), state := PST_OK\<rparr>]"
        using True Some z by (simp add: processFinish_def p setState_def)
      then show ?thesis using True Some z
        by (intro exI[of _ PST_OK] exI[of _ "output (v ctx ! p)"]) (simp add: processFinish_def p)
    next
      case nz: False
      let ?out = "usb_add (output (v ctx ! p)) (exitCodeNotice code)"
      have "v (snd (processFinish os ctx)) = (v ctx)[p := (v ctx ! p)\<lparr>output := ?out, state := PST_FAIL\<rparr>]"
        using True Some nz pl by (simp add: processFinish_def p setState_def)
      then show ?thesis using True Some nz
        by (intro exI[of _ PST_FAIL] exI[of _ ?out]) (simp add: processFinish_def p)
    qed
  qed
qed

lemma noneRunning_cong: "v a = v b \<Longrightarrow> noneRunning a = noneRunning b"
  by (simp add: noneRunning_def)

lemma jobsStep_cong_left: "v a = v b \<Longrightarrow> jobsStep a c = jobsStep b c"
  by (simp add: jobsStep_def)

lemma findIdle_Some:
  "findIdle jobs i = Some j \<Longrightarrow>
     i \<le> j \<and> j < length jobs \<and> state (jobs ! j) = PST_IDLE
     \<and> (\<forall>k. i \<le> k \<and> k < j \<longrightarrow> state (jobs ! k) \<noteq> PST_IDLE)"
proof (induction jobs i rule: findIdle.induct)
  case (1 jobs i)
  show ?case
  proof (cases "i < length jobs")
    case False
    then show ?thesis using "1.prems" by (simp add: findIdle.simps[of jobs i])
  next
    case True
    show ?thesis
    proof (cases "state (jobs ! i) = PST_IDLE")
      case idle: True
      then have "j = i" using True "1.prems" by (simp add: findIdle.simps[of jobs i])
      then show ?thesis using True idle by auto
    next
      case busy: False
      then have f: "findIdle jobs (Suc i) = Some j" using True "1.prems" by (simp add: findIdle.simps[of jobs i])
      note ih = "1.IH"[OF True busy f]
      have "state (jobs ! k) \<noteq> PST_IDLE" if "i \<le> k \<and> k < j" for k
      proof (cases "k = i")
        case True then show ?thesis using busy by simp
      next
        case False then show ?thesis using ih that by simp
      qed
      then show ?thesis using ih by simp
    qed
  qed
qed

lemma findIdle_None:
  "findIdle jobs i = None \<Longrightarrow> \<forall>k. i \<le> k \<and> k < length jobs \<longrightarrow> state (jobs ! k) \<noteq> PST_IDLE"
proof (induction jobs i rule: findIdle.induct)
  case (1 jobs i)
  show ?case
  proof (cases "i < length jobs")
    case False
    then show ?thesis by auto
  next
    case True
    have busy: "state (jobs ! i) \<noteq> PST_IDLE" using True "1.prems" by (auto simp: findIdle.simps[of jobs i] split: if_splits)
    then have f: "findIdle jobs (Suc i) = None" using True "1.prems" by (simp add: findIdle.simps[of jobs i])
    note ih = "1.IH"[OF True busy f]
    have "state (jobs ! k) \<noteq> PST_IDLE" if "i \<le> k \<and> k < length jobs" for k
    proof (cases "k = i")
      case True then show ?thesis using busy by simp
    next
      case False then show ?thesis using ih that by simp
    qed
    then show ?thesis by simp
  qed
qed

declare findIdle.simps [simp del]

text \<open>The context in which \<^verbatim>\<open>processNext\<close> calls \<^verbatim>\<open>processStart\<close>.\<close>

definition selectNext :: "tIpcWndCtx \<Rightarrow> tIpcWndCtx" where
  "selectNext ctx =
     (case findIdle (v ctx) (vi ctx) of None \<Rightarrow> ctx | Some i \<Rightarrow> ctx\<lparr>proc := Some i, vi := i\<rparr>)"

lemma selectNext_v [simp]: "v (selectNext ctx) = v ctx"
  by (cases "findIdle (v ctx) (vi ctx)") (simp_all add: selectNext_def)

lemma selectNext_ovProcRead [simp]: "ovProcRead (selectNext ctx) = ovProcRead ctx"
  by (cases "findIdle (v ctx) (vi ctx)") (simp_all add: selectNext_def)

lemma queueInv_idle_none_running:
  assumes q: "queueInv ctx"
    and r: "\<not> (case proc ctx of None \<Rightarrow> False | Some p \<Rightarrow> state (v ctx ! p) = PST_RUNNING)"
  shows "noneRunning ctx"
  unfolding noneRunning_def
proof (intro allI impI)
  fix i assume i: "i < length (v ctx)"
  show "state (v ctx ! i) \<noteq> PST_RUNNING"
  proof
    assume s: "state (v ctx ! i) = PST_RUNNING"
    then have "proc ctx = Some i" using queueInvD1[OF q i] by simp
    then show False using r s by simp
  qed
qed

lemma queueInv_selectNext:
  assumes q: "queueInv ctx" and n: "noneRunning ctx"
  shows "queueInv (selectNext ctx)"
proof (cases "findIdle (v ctx) (vi ctx)")
  case None
  then show ?thesis using q by (simp add: selectNext_def)
next
  case (Some j)
  note f = findIdle_Some[OF Some]
  have np: "\<not> ovProcRead ctx" by (rule queueInv_not_pending[OF q n])
  have sel: "selectNext ctx = ctx\<lparr>proc := Some j, vi := j\<rparr>" by (simp add: selectNext_def Some)
  show ?thesis
  proof (rule queueInvI)
    fix i assume "i < length (v (selectNext ctx))" "state (v (selectNext ctx) ! i) = PST_RUNNING"
    then show "proc (selectNext ctx) = Some i \<and> ovProcRead (selectNext ctx)"
      using noneRunningD[OF n, of i] by simp
  next
    fix p assume "proc (selectNext ctx) = Some p"
    then show "p < length (v (selectNext ctx)) \<and> vi (selectNext ctx) = p" using f by (simp add: sel)
  next
    assume "ovProcRead (selectNext ctx)"
    then show "\<exists>p. proc (selectNext ctx) = Some p \<and> state (v (selectNext ctx) ! p) = PST_RUNNING"
      using np by simp
  next
    fix i assume a: "i < length (v (selectNext ctx))" "i < vi (selectNext ctx)"
    then have ij: "i < j" "i < length (v ctx)" by (simp_all add: sel)
    show "state (v (selectNext ctx) ! i) \<noteq> PST_IDLE"
    proof (cases "i < vi ctx")
      case True then show ?thesis using queueInvD4[OF q ij(2)] by simp
    next
      case False then show ?thesis using f ij by simp
    qed
  next
    show "vi (selectNext ctx) \<le> length (v (selectNext ctx))" using f by (simp add: sel)
  qed
qed

lemma finished_inv:
  assumes q: "queueInv ctx" and p: "proc ctx = Some p"
    and cur: "state (v ctx ! p) = PST_IDLE \<or> state (v ctx ! p) = PST_RUNNING"
    and st: "st = PST_OK \<or> st = PST_FAIL"
    and v3: "v c3 = (v ctx)[p := (v ctx ! p)\<lparr>output := out, state := st\<rparr>]"
    and p3: "proc c3 = None \<or> proc c3 = Some p" and vi3: "vi c3 = vi ctx" and o3: "\<not> ovProcRead c3"
  shows "queueInv c3 \<and> noneRunning c3 \<and> jobsStep ctx c3"
proof -
  have pv: "p < length (v ctx)" "vi ctx = p" using queueInvD2[OF q p] by simp_all
  have len: "length (v c3) = length (v ctx)" by (simp add: v3)
  have nth: "state (v c3 ! i) = (if i = p then st else state (v ctx ! i))
             \<and> config (v c3 ! i) = config (v ctx ! i) \<and> signApp (v c3 ! i) = signApp (v ctx ! i)
             \<and> path (v c3 ! i) = path (v ctx ! i)" if "i < length (v ctx)" for i
    using that by (simp add: v3 nth_list_update)
  have nr: "state (v c3 ! i) \<noteq> PST_RUNNING" if "i < length (v ctx)" for i
  proof (cases "i = p")
    case True then show ?thesis using nth[OF that] st by auto
  next
    case False
    have "state (v ctx ! i) \<noteq> PST_RUNNING" using queueInvD1[OF q that] p False by auto
    then show ?thesis using nth[OF that] False by simp
  qed
  have inv: "queueInv c3"
  proof (rule queueInvI)
    fix i assume "i < length (v c3)" "state (v c3 ! i) = PST_RUNNING"
    then show "proc c3 = Some i \<and> ovProcRead c3" using nr[of i] len by simp
  next
    fix k assume "proc c3 = Some k"
    then show "k < length (v c3) \<and> vi c3 = k" using p3 pv len vi3 by auto
  next
    assume "ovProcRead c3"
    then show "\<exists>k. proc c3 = Some k \<and> state (v c3 ! k) = PST_RUNNING" using o3 by simp
  next
    fix i assume a: "i < length (v c3)" "i < vi c3"
    then have "i \<noteq> p" "i < length (v ctx)" "i < vi ctx" using len vi3 pv by simp_all
    then show "state (v c3 ! i) \<noteq> PST_IDLE" using nth[of i] queueInvD4[OF q, of i] by simp
  next
    show "vi c3 \<le> length (v c3)" using queueInvD5[OF q] len vi3 by simp
  qed
  have nn: "noneRunning c3" unfolding noneRunning_def using nr len by simp
  have "jobStep (state (v ctx ! i)) (state (v c3 ! i))" if "i < length (v ctx)" for i
  proof (cases "i = p")
    case True
    then show ?thesis using nth[OF that] cur st by (auto simp: jobStep_def startFailure_def)
  next
    case False
    then show ?thesis using nth[OF that] by (simp add: jobStep_refl)
  qed
  then have js: "jobsStep ctx c3" unfolding jobsStep_def using len nth by simp
  show ?thesis using inv nn js by simp
qed

lemma processNext_unfold:
  "processNext os ctx =
     (if (case proc ctx of None \<Rightarrow> False | Some p \<Rightarrow> state (v ctx ! p) = PST_RUNNING)
      then (False, ctx) else processStart os (selectNext ctx))"
  by (subst processNext.simps) (simp add: selectNext_def)

lemma processStart_processNext_inv:
  shows "queueInv ctx \<and> noneRunning ctx \<longrightarrow>
           queueInv (snd (processStart os ctx)) \<and> jobsStep ctx (snd (processStart os ctx))"
    and "queueInv ctx2 \<longrightarrow>
           queueInv (snd (processNext os2 ctx2)) \<and> jobsStep ctx2 (snd (processNext os2 ctx2))"
proof (induction os ctx and os2 ctx2 rule: processStart_processNext.induct)
  case (1 os ctx)
  show ?case
  proof (intro impI)
    assume pre: "queueInv ctx \<and> noneRunning ctx"
    then have q: "queueInv ctx" and n: "noneRunning ctx" by simp_all
    show "queueInv (snd (processStart os ctx)) \<and> jobsStep ctx (snd (processStart os ctx))"
    proof (cases "proc ctx")
      case None
      then have "processStart os ctx = (False, ctx)" by (subst processStart.simps) simp
      then show ?thesis using q by (simp add: jobsStep_refl)
    next
      case (Some p)
      show ?thesis
      proof (cases "\<not> p < length (v ctx) \<or> state (v ctx ! p) \<noteq> PST_IDLE")
        case True
        then have "processStart os ctx = (False, ctx)" by (subst processStart.simps) (simp add: Some)
        then show ?thesis using q by (simp add: jobsStep_refl)
      next
        case False
        then have pl: "p < length (v ctx)" and idle: "state (v ctx ! p) = PST_IDLE" by simp_all
        obtain x y where sp: "processSpawn os p ctx = (x, y)" by (cases "processSpawn os p ctx")
        have y: "v y = v ctx" "proc y = proc ctx" "vi y = vi ctx" "ovProcRead y = ovProcRead ctx"
          using v_processSpawn[of os p ctx] proc_processSpawn[of os p ctx] processSpawn_frame[of os p ctx]
          by (simp_all add: sp)
        have qy: "queueInv y" using q queueInv_cong[OF y] by simp
        have ny: "noneRunning y" using n noneRunning_cong[OF y(1)] by simp
        show ?thesis
        proof (cases x)
          case (Some st)
          have res: "processStart os ctx = (False, setState p st y)"
            by (subst processStart.simps) (simp add: \<open>proc ctx = Some p\<close> pl idle sp Some)
          have sf: "startFailure st" using processSpawn_newState[of os p ctx st] sp Some by simp
          then have ne: "st \<noteq> PST_RUNNING" "st \<noteq> PST_IDLE" by (auto simp: startFailure_def)
          have 1: "queueInv (setState p st y)" using queueInv_setState_terminal[OF qy ny ne] by simp
          have "jobStep (state (v y ! p)) st" using idle sf by (simp add: y jobStep_def)
          then have "jobsStep y (setState p st y)" using jobsStep_setState[of p y st] pl by (simp add: y)
          then have 2: "jobsStep ctx (setState p st y)" using jobsStep_cong_left[OF y(1)] by simp
          show ?thesis using 1 2 by (simp add: res)
        next
          case None
          let ?y' = "y\<lparr>utf8 := \<lparr>cp = 0, rem = 0\<rparr>, outputLen := 0, lastChar := 0\<rparr>"
          have y': "v ?y' = v ctx" "proc ?y' = proc ctx" "vi ?y' = vi ctx" "ovProcRead ?y' = ovProcRead ctx"
            using y by simp_all
          have qy': "queueInv ?y'" using q queueInv_cong[OF y'] by simp
          have ny': "noneRunning ?y'" using n noneRunning_cong[OF y'(1)] by simp
          have py': "proc ?y' = Some p" using y' \<open>proc ctx = Some p\<close> by simp
          let ?r = "setState p PST_RUNNING ?y'"
          have ra: "processReadAsync ok ?r = (ok, ?r\<lparr>ovProcRead := ok\<rparr>)" for ok
            using py' by (simp add: processReadAsync_def)
          show ?thesis
          proof (cases "e_readAsync (jobEnv os p)")
            case True
            have res: "processStart os ctx = (True, ?r\<lparr>ovProcRead := True\<rparr>)"
              by (subst processStart.simps) (simp add: \<open>proc ctx = Some p\<close> pl idle sp None ra True)
            have 1: "queueInv (?r\<lparr>ovProcRead := True\<rparr>)" by (rule queueInv_started[OF qy' ny' py'])
            have "jobStep (state (v ?y' ! p)) PST_RUNNING" using idle by (simp add: y jobStep_def)
            then have "jobsStep ?y' ?r" using jobsStep_setState[of p ?y' PST_RUNNING] pl y by simp
            then have "jobsStep ctx ?r" using jobsStep_cong_left[OF y'(1)] by simp
            then have 2: "jobsStep ctx (?r\<lparr>ovProcRead := True\<rparr>)" by (simp add: jobsStep_def)
            show ?thesis using 1 2 by (simp add: res)
          next
            case False
            let ?ya = "?r\<lparr>ovProcRead := False\<rparr>"
            let ?c3 = "snd (processFinish os ?ya)"
            have res: "processStart os ctx = processNext os ?c3"
              by (subst processStart.simps) (simp add: \<open>proc ctx = Some p\<close> pl idle sp None ra False)
            have pya: "proc ?ya = Some p" "p < length (v ?ya)" using py' pl y by simp_all
            obtain st out where fin: "st = PST_OK \<or> st = PST_FAIL"
              "v ?c3 = (v ?ya)[p := (v ?ya ! p)\<lparr>output := out, state := st\<rparr>]"
              "proc ?c3 = None \<or> proc ?c3 = Some p" "vi ?c3 = vi ?ya" "ovProcRead ?c3 = ovProcRead ?ya"
              using processFinish_result[OF pya, of os] by blast
            have vya: "v ?ya = (v ctx)[p := (v ctx ! p)\<lparr>state := PST_RUNNING\<rparr>]"
              using y by (simp add: setState_def)
            have v3: "v ?c3 = (v ctx)[p := (v ctx ! p)\<lparr>output := out, state := st\<rparr>]"
              unfolding fin(2) vya using pl by simp
            have vi3: "vi ?c3 = vi ctx" using fin(4) y by simp
            have o3: "\<not> ovProcRead ?c3" using fin(5) by simp
            note f = finished_inv[OF q \<open>proc ctx = Some p\<close> disjI1[OF idle] fin(1) v3 fin(3) vi3 o3]
            have ih: "queueInv ?c3 \<longrightarrow>
                        queueInv (snd (processNext os ?c3)) \<and> jobsStep ?c3 (snd (processNext os ?c3))"
              by (rule "1.IH"[of p x y False ?ya]) (simp_all add: \<open>proc ctx = Some p\<close> pl idle sp None ra False)
            have 1: "queueInv (snd (processNext os ?c3))" using ih f by simp
            have 2: "jobsStep ctx (snd (processNext os ?c3))"
              using ih f jobsStep_trans[of ctx ?c3 "snd (processNext os ?c3)"] by simp
            show ?thesis unfolding res using 1 2 by simp
          qed
        qed
      qed
    qed
  qed
next
  case (2 os ctx)
  show ?case
  proof (intro impI)
    assume q: "queueInv ctx"
    show "queueInv (snd (processNext os ctx)) \<and> jobsStep ctx (snd (processNext os ctx))"
    proof (cases "case proc ctx of None \<Rightarrow> False | Some p \<Rightarrow> state (v ctx ! p) = PST_RUNNING")
      case True
      then have "processNext os ctx = (False, ctx)" by (simp add: processNext_unfold)
      then show ?thesis using q by (simp add: jobsStep_refl)
    next
      case False
      have n: "noneRunning ctx" by (rule queueInv_idle_none_running[OF q False])
      have res: "processNext os ctx = processStart os (selectNext ctx)"
        using False by (simp add: processNext_unfold)
      have qs: "queueInv (selectNext ctx)" by (rule queueInv_selectNext[OF q n])
      have ns: "noneRunning (selectNext ctx)" using n noneRunning_cong[of "selectNext ctx" ctx] by simp
      have ih: "queueInv (selectNext ctx) \<and> noneRunning (selectNext ctx) \<longrightarrow>
           queueInv (snd (processStart os (selectNext ctx)))
           \<and> jobsStep (selectNext ctx) (snd (processStart os (selectNext ctx)))"
        using "2.IH"[OF False] by (simp add: selectNext_def)
      have "jobsStep ctx (snd (processStart os (selectNext ctx)))"
        using ih qs ns jobsStep_cong_left[of "selectNext ctx" ctx] by simp
      then show ?thesis using ih qs ns by (simp add: res)
    qed
  qed
qed

text \<open>
  The jobs of \<open>ctx\<close> are still there in \<open>ctx'\<close>, each one step further at most; jobs may have
  been appended.
\<close>

definition jobsExt :: "tIpcWndCtx \<Rightarrow> tIpcWndCtx \<Rightarrow> bool" where
  "jobsExt ctx ctx' =
     (length (v ctx) \<le> length (v ctx')
      \<and> (\<forall>i < length (v ctx). jobStep (state (v ctx ! i)) (state (v ctx' ! i))
            \<and> config (v ctx' ! i) = config (v ctx ! i) \<and> signApp (v ctx' ! i) = signApp (v ctx ! i)
            \<and> path (v ctx' ! i) = path (v ctx ! i)))"

lemma jobsExt_refl: "jobsExt ctx ctx"
  by (simp add: jobsExt_def jobStep_refl)

lemma jobsStep_jobsExt: "jobsStep a b \<Longrightarrow> jobsExt a b"
  by (simp add: jobsStep_def jobsExt_def)

lemma jobsExt_trans:
  assumes "jobsExt a b" and "jobsExt b c"
  shows "jobsExt a c"
proof -
  have l: "length (v a) \<le> length (v b)" "length (v b) \<le> length (v c)"
    using assms by (simp_all add: jobsExt_def)
  have "jobStep (state (v a ! i)) (state (v c ! i)) \<and> config (v c ! i) = config (v a ! i)
        \<and> signApp (v c ! i) = signApp (v a ! i) \<and> path (v c ! i) = path (v a ! i)"
    if "i < length (v a)" for i
  proof -
    have 1: "jobStep (state (v a ! i)) (state (v b ! i))" "config (v b ! i) = config (v a ! i)"
      "signApp (v b ! i) = signApp (v a ! i)" "path (v b ! i) = path (v a ! i)"
      using assms(1) that by (simp_all add: jobsExt_def)
    have "i < length (v b)" using that l by simp
    then have 2: "jobStep (state (v b ! i)) (state (v c ! i))" "config (v c ! i) = config (v b ! i)"
      "signApp (v c ! i) = signApp (v b ! i)" "path (v c ! i) = path (v b ! i)"
      using assms(2) by (simp_all add: jobsExt_def)
    show ?thesis using jobStep_trans[OF 1(1) 2(1)] 1 2 by simp
  qed
  then show ?thesis using l by (simp add: jobsExt_def)
qed

text \<open>The job that \<^verbatim>\<open>processAddFile\<close> appends, before \<^verbatim>\<open>processNext\<close> is called.\<close>

definition newItem :: "tOs \<Rightarrow> tIniConfigBase \<Rightarrow> wstr \<Rightarrow> wstr \<Rightarrow> tIpcWndCtx \<Rightarrow> tProcCtx" where
  "newItem os c sApp fpath ctx =
     \<lparr>state = (if e_fileExists (jobEnv os (length (v ctx))) then PST_IDLE else PST_FILE_NOT_FOUND),
      config = c, signApp = sApp,
      path = (case e_fullPath (jobEnv os (length (v ctx))) of None \<Rightarrow> fpath | Some p \<Rightarrow> p),
      output = []\<rparr>"

text \<open>
  \<^verbatim>\<open>ctx->proc\<close> is left dangling by the next \<^verbatim>\<open>vec_pushBack\<close>: the vector is full, its
  buffer exists and \<^verbatim>\<open>ctx->proc\<close> points into it.
\<close>

definition procDangles :: "tIpcWndCtx \<Rightarrow> bool" where
  "procDangles ctx = (0 < capacity ctx \<and> capacity ctx \<le> length (v ctx) \<and> proc ctx \<noteq> None)"

lemma v_vec_pushBack [simp]: "v (snd (vec_pushBack item ctx)) = v ctx @ [item]"
  by (simp add: vec_pushBack_def)

lemma vec_pushBack_fields [simp]:
  "proc (snd (vec_pushBack item ctx)) = proc ctx" "vi (snd (vec_pushBack item ctx)) = vi ctx"
  "ovProcRead (snd (vec_pushBack item ctx)) = ovProcRead ctx"
  by (simp_all add: vec_pushBack_def)

lemma processAddFile_unfold:
  "processAddFile os (Some c) (Some sApp) fpath ctx =
     (if procDangles ctx then None
      else Some (True, snd (processNext os (snd (vec_pushBack (newItem os c sApp fpath ctx) ctx)))))"
  by (auto simp: processAddFile_def newItem_def procDangles_def vec_pushBack_def Let_def)

lemma queueInv_append:
  assumes q: "queueInv ctx" and s: "state item \<noteq> PST_RUNNING"
  shows "queueInv (snd (vec_pushBack item ctx))"
proof (rule queueInvI)
  let ?c = "snd (vec_pushBack item ctx)"
  fix i assume a: "i < length (v ?c)" "state (v ?c ! i) = PST_RUNNING"
  have "i < length (v ctx)"
  proof (rule ccontr)
    assume "\<not> i < length (v ctx)"
    then have "i = length (v ctx)" using a(1) by simp
    then show False using a(2) s by simp
  qed
  then show "proc ?c = Some i \<and> ovProcRead ?c" using a(2) queueInvD1[OF q, of i] by (simp add: nth_append)
next
  let ?c = "snd (vec_pushBack item ctx)"
  fix p assume "proc ?c = Some p"
  then show "p < length (v ?c) \<and> vi ?c = p" using queueInvD2[OF q, of p] by simp
next
  let ?c = "snd (vec_pushBack item ctx)"
  assume "ovProcRead ?c"
  then obtain p where p: "proc ctx = Some p" "state (v ctx ! p) = PST_RUNNING"
    using queueInvD3[OF q] by auto
  have "p < length (v ctx)" using queueInvD2[OF q p(1)] by simp
  then show "\<exists>p. proc ?c = Some p \<and> state (v ?c ! p) = PST_RUNNING" using p by (simp add: nth_append)
next
  let ?c = "snd (vec_pushBack item ctx)"
  fix i assume a: "i < length (v ?c)" "i < vi ?c"
  then have "i < length (v ctx)" using queueInvD5[OF q] by simp
  then show "state (v ?c ! i) \<noteq> PST_IDLE" using a(2) queueInvD4[OF q, of i] by (simp add: nth_append)
next
  show "vi (snd (vec_pushBack item ctx)) \<le> length (v (snd (vec_pushBack item ctx)))"
    using queueInvD5[OF q] by simp
qed

lemma processAddFile_inv:
  fixes os c sApp fpath ctx
  assumes q: "queueInv ctx" and r: "processAddFile os (Some c) (Some sApp) fpath ctx = Some (ok, ctx')"
  shows "queueInv ctx'"
    and "length (v ctx') = Suc (length (v ctx))"
    and "jobsExt ctx ctx'"
    and "jobStep (state (newItem os c sApp fpath ctx)) (state (v ctx' ! length (v ctx)))"
    and "config (v ctx' ! length (v ctx)) = c \<and> signApp (v ctx' ! length (v ctx)) = sApp"
proof -
  let ?item = "newItem os c sApp fpath ctx"
  let ?ca = "snd (vec_pushBack ?item ctx)"
  have c': "ctx' = snd (processNext os ?ca)"
    using r by (simp add: processAddFile_unfold split: if_splits)
  have "state ?item \<noteq> PST_RUNNING" by (simp add: newItem_def)
  then have qa: "queueInv ?ca" by (rule queueInv_append[OF q])
  have rr: "queueInv ctx'" "jobsStep ?ca ctx'"
    using processStart_processNext_inv(2)[of ?ca os] qa by (simp_all add: c')
  show "queueInv ctx'" by (rule rr(1))
  have len: "length (v ctx') = Suc (length (v ctx))" using rr(2) by (simp add: jobsStep_def)
  show "length (v ctx') = Suc (length (v ctx))" by (rule len)
  have st: "jobStep (state (v ?ca ! i)) (state (v ctx' ! i)) \<and> config (v ctx' ! i) = config (v ?ca ! i)
            \<and> signApp (v ctx' ! i) = signApp (v ?ca ! i) \<and> path (v ctx' ! i) = path (v ?ca ! i)"
    if "i < Suc (length (v ctx))" for i
    using rr(2) that by (simp add: jobsStep_def)
  have "jobStep (state (v ctx ! i)) (state (v ctx' ! i)) \<and> config (v ctx' ! i) = config (v ctx ! i)
            \<and> signApp (v ctx' ! i) = signApp (v ctx ! i) \<and> path (v ctx' ! i) = path (v ctx ! i)"
    if "i < length (v ctx)" for i
    using st[of i] that by (simp add: nth_append)
  then show "jobsExt ctx ctx'" using len by (simp add: jobsExt_def)
  show "jobStep (state ?item) (state (v ctx' ! length (v ctx)))"
    using st[of "length (v ctx)"] by simp
  show "config (v ctx' ! length (v ctx)) = c \<and> signApp (v ctx' ! length (v ctx)) = sApp"
    using st[of "length (v ctx)"] by (simp add: newItem_def)
qed

lemma processHandleReadComplete_inv:
  assumes q: "queueInv ctx" and o: "ovProcRead ctx"
  shows "queueInv (processHandleReadComplete os err data readOk ctx)
         \<and> jobsStep ctx (processHandleReadComplete os err data readOk ctx)"
proof -
  obtain p where p: "proc ctx = Some p" "state (v ctx ! p) = PST_RUNNING"
    using queueInvD3[OF q o] by auto
  have pv: "p < length (v ctx)" "vi ctx = p" using queueInvD2[OF q p(1)] by simp_all
  let ?c0 = "ctx\<lparr>ovProcRead := False\<rparr>"
  have fin: "queueInv (snd (processNext os (snd (processFinish os c))))
             \<and> jobsStep ctx (snd (processNext os (snd (processFinish os c))))"
    if c: "proc c = Some p" "vi c = vi ctx" "\<not> ovProcRead c"
      "v c = (v ctx)[p := (v ctx ! p)\<lparr>output := x\<rparr>]" for c x
  proof -
    have pl: "p < length (v c)" using pv c(4) by simp
    obtain st out where f: "st = PST_OK \<or> st = PST_FAIL"
        "v (snd (processFinish os c)) = (v c)[p := (v c ! p)\<lparr>output := out, state := st\<rparr>]"
        "proc (snd (processFinish os c)) = None \<or> proc (snd (processFinish os c)) = Some p"
        "vi (snd (processFinish os c)) = vi c"
        "ovProcRead (snd (processFinish os c)) = ovProcRead c"
      using processFinish_result[OF c(1) pl, of os] by blast
    have v3: "v (snd (processFinish os c)) = (v ctx)[p := (v ctx ! p)\<lparr>output := out, state := st\<rparr>]"
      using f(2) pv by (simp add: c(4))
    have vi3: "vi (snd (processFinish os c)) = vi ctx" using f(4) c(2) by simp
    have o3: "\<not> ovProcRead (snd (processFinish os c))" using f(5) c(3) by simp
    note g = finished_inv[OF q p(1) disjI2[OF p(2)] f(1) v3 f(3) vi3 o3]
    have 1: "queueInv (snd (processFinish os c))" "jobsStep ctx (snd (processFinish os c))"
      using g by simp_all
    have 2: "queueInv (snd (processNext os (snd (processFinish os c))))"
       "jobsStep (snd (processFinish os c)) (snd (processNext os (snd (processFinish os c))))"
      using processStart_processNext_inv(2)[of "snd (processFinish os c)" os] 1(1) by simp_all
    show ?thesis using 2(1) jobsStep_trans[OF 1(2) 2(2)] by simp
  qed
  show ?thesis
  proof (cases "err = 0 \<and> data \<noteq> []")
    case False
    then have e: "processHandleReadComplete os err data readOk ctx
                  = snd (processNext os (snd (processFinish os ?c0)))"
      by (auto simp: processHandleReadComplete_def Let_def)
    have "v ?c0 = (v ctx)[p := (v ctx ! p)\<lparr>output := output (v ctx ! p)\<rparr>]" by simp
    then show ?thesis unfolding e using fin[of ?c0 "output (v ctx ! p)"] p(1) by simp
  next
    case True
    define s where "s = decodeLoop data
                        \<lparr>l_utf8 = utf8 ctx, l_output = output (v ctx ! p), l_outputLen = outputLen ctx,
                         l_lastChr = lastChar ctx, l_added = False\<rparr>"
    define out where "out = (if l_added s \<and> l_outputLen s \<ge> PROCESS_MAX_OUTPUT
                         then usb_add (l_output s) truncationNotice else l_output s)"
    define c1 where "c1 = ?c0\<lparr>utf8 := l_utf8 s, outputLen := l_outputLen s, lastChar := l_lastChr s,
                             v := (v ctx)[p := (v ctx ! p)\<lparr>output := out\<rparr>]\<rparr>"
    have e: "processHandleReadComplete os err data readOk ctx
             = (if readOk then c1\<lparr>ovProcRead := True\<rparr>
                else snd (processNext os (snd (processFinish os (c1\<lparr>ovProcRead := False\<rparr>)))))"
      using True p(1)
      by (simp add: processHandleReadComplete_def Let_def processReadAsync_def s_def out_def c1_def)
    show ?thesis
    proof (cases readOk)
      case False
      have "queueInv (snd (processNext os (snd (processFinish os (c1\<lparr>ovProcRead := False\<rparr>)))))
             \<and> jobsStep ctx (snd (processNext os (snd (processFinish os (c1\<lparr>ovProcRead := False\<rparr>)))))"
        by (rule fin[where x = out]) (simp_all add: c1_def p(1))
      then show ?thesis unfolding e using False by simp
    next
      case rt: True
      let ?c = "c1\<lparr>ovProcRead := True\<rparr>"
      have vc: "v ?c = (v ctx)[p := (v ctx ! p)\<lparr>output := out\<rparr>]" "proc ?c = Some p" "vi ?c = vi ctx"
        "ovProcRead ?c" by (simp_all add: c1_def p(1))
      have nth: "state (v ?c ! i) = state (v ctx ! i) \<and> config (v ?c ! i) = config (v ctx ! i)
                 \<and> signApp (v ?c ! i) = signApp (v ctx ! i) \<and> path (v ?c ! i) = path (v ctx ! i)"
        if "i < length (v ctx)" for i
        using that unfolding vc(1) by (cases "i = p") simp_all
      have len: "length (v ?c) = length (v ctx)" unfolding vc(1) by simp
      have inv: "queueInv ?c"
      proof (rule queueInvI)
        fix i assume "i < length (v ?c)" "state (v ?c ! i) = PST_RUNNING"
        then have "proc ctx = Some i" using nth[of i] len queueInvD1[OF q, of i] by simp
        then show "proc ?c = Some i \<and> ovProcRead ?c" using vc p(1) by simp
      next
        fix k assume "proc ?c = Some k"
        then show "k < length (v ?c) \<and> vi ?c = k" using vc pv len by simp
      next
        show "\<exists>k. proc ?c = Some k \<and> state (v ?c ! k) = PST_RUNNING"
          using vc(2) nth[OF pv(1)] p(2) by simp
      next
        fix i assume "i < length (v ?c)" "i < vi ?c"
        then show "state (v ?c ! i) \<noteq> PST_IDLE" using nth[of i] len vc(3) queueInvD4[OF q, of i] by simp
      next
        show "vi ?c \<le> length (v ?c)" using len vc(3) queueInvD5[OF q] by simp
      qed
      have "jobsStep ctx ?c" unfolding jobsStep_def using len nth by (simp add: jobStep_refl)
      then show ?thesis unfolding e using inv rt by simp
    qed
  qed
qed

lemma queueInv_initialCtx: "queueInv initialCtx"
  by (simp add: queueInv_def initialCtx_def)

text \<open>
  What happens to the queue of a window: a file is added (from the command line or from a
  frame received on the pipe), or a read on the output pipe of the subprocess completes.
  A completion routine only runs for a read that was posted. \<open>None\<close> is the undefined
  behaviour of \<^verbatim>\<open>processAddFile\<close>, after which nothing is known.
\<close>

datatype tEvent =
    AddFile tIniConfigBase wstr wstr
  | ReadComplete u32 "u8 list" bool

fun step :: "tOs \<Rightarrow> tEvent \<Rightarrow> tIpcWndCtx \<Rightarrow> tIpcWndCtx option" where
  "step os (AddFile c sApp fpath) ctx = map_option snd (processAddFile os (Some c) (Some sApp) fpath ctx)"
| "step os (ReadComplete dwErrorCode data readOk) ctx =
     Some (if ovProcRead ctx then processHandleReadComplete os dwErrorCode data readOk ctx else ctx)"

fun run :: "tOs \<Rightarrow> tEvent list \<Rightarrow> tIpcWndCtx \<Rightarrow> tIpcWndCtx option" where
  "run os [] ctx = Some ctx"
| "run os (ev # evs) ctx = (case step os ev ctx of None \<Rightarrow> None | Some ctx' \<Rightarrow> run os evs ctx')"

lemma run_append:
  "run os (evs @ evs') ctx = (case run os evs ctx of None \<Rightarrow> None | Some ctx' \<Rightarrow> run os evs' ctx')"
  by (induction evs arbitrary: ctx) (simp_all split: option.split)

lemma run_snoc:
  "run os (evs @ [ev]) ctx = (case run os evs ctx of None \<Rightarrow> None | Some ctx' \<Rightarrow> step os ev ctx')"
  by (simp add: run_append split: option.split)

lemma step_inv:
  assumes q: "queueInv ctx" and s: "step os ev ctx = Some ctx'"
  shows "queueInv ctx' \<and> jobsExt ctx ctx'"
proof (cases ev)
  case (AddFile c sApp fpath)
  obtain ok where r: "processAddFile os (Some c) (Some sApp) fpath ctx = Some (ok, ctx')"
    using s by (auto simp: AddFile)
  show ?thesis using processAddFile_inv(1,3)[OF q r] by simp
next
  case (ReadComplete err data readOk)
  show ?thesis
  proof (cases "ovProcRead ctx")
    case True
    then show ?thesis
      using processHandleReadComplete_inv[OF q True, of os err data readOk] s
      by (auto simp: ReadComplete jobsStep_jobsExt)
  next
    case False
    then show ?thesis using q s by (auto simp: ReadComplete jobsExt_refl)
  qed
qed

lemma run_inv:
  "queueInv ctx \<Longrightarrow> run os evs ctx = Some ctx' \<Longrightarrow> queueInv ctx' \<and> jobsExt ctx ctx'"
proof (induction evs arbitrary: ctx)
  case Nil
  then show ?case by (simp add: jobsExt_refl)
next
  case (Cons ev evs)
  obtain c1 where 1: "step os ev ctx = Some c1" "run os evs c1 = Some ctx'"
    using Cons.prems(2) by (auto split: option.splits)
  have 2: "queueInv c1" "jobsExt ctx c1" using step_inv[OF Cons.prems(1) 1(1)] by simp_all
  have 3: "queueInv ctx'" "jobsExt c1 ctx'" using Cons.IH[OF 2(1) 1(2)] by simp_all
  show ?case using 3(1) jobsExt_trans[OF 2(2) 3(2)] by simp
qed

lemma filter_unique:
  "(\<And>i j. i < length xs \<Longrightarrow> j < length xs \<Longrightarrow> P (xs ! i) \<Longrightarrow> P (xs ! j) \<Longrightarrow> i = j)
     \<Longrightarrow> length (filter P xs) \<le> 1"
proof (induction xs)
  case Nil then show ?case by simp
next
  case (Cons a xs)
  have ih: "length (filter P xs) \<le> 1"
  proof (rule Cons.IH)
    fix i j assume "i < length xs" "j < length xs" "P (xs ! i)" "P (xs ! j)"
    then have "Suc i = Suc j" using Cons.prems[of "Suc i" "Suc j"] by simp
    then show "i = j" by simp
  qed
  show ?case
  proof (cases "P a")
    case False then show ?thesis using ih by simp
  next
    case True
    have "\<not> P x" if mem: "x \<in> set xs" for x
    proof
      assume px: "P x"
      obtain k where k: "k < length xs" "xs ! k = x" using mem by (auto simp: in_set_conv_nth)
      have "0 = Suc k" using Cons.prems[of 0 "Suc k"] True px k by simp
      then show False by simp
    qed
    then have "filter P xs = []" by (simp add: filter_empty_conv)
    then show ?thesis using True by simp
  qed
qed

text \<open>The number of jobs in the state \<^verbatim>\<open>PST_RUNNING\<close>.\<close>

definition runningCount :: "tIpcWndCtx \<Rightarrow> nat" where
  "runningCount ctx = length (filter (\<lambda>j. state j = PST_RUNNING) (v ctx))"

lemma queueInv_runningCount: "queueInv ctx \<Longrightarrow> runningCount ctx \<le> 1"
  unfolding runningCount_def
proof (rule filter_unique)
  fix i j assume q: "queueInv ctx" and a: "i < length (v ctx)" "j < length (v ctx)"
    "state (v ctx ! i) = PST_RUNNING" "state (v ctx ! j) = PST_RUNNING"
  have "proc ctx = Some i" "proc ctx = Some j"
    using queueInvD1[OF q a(1) a(3)] queueInvD1[OF q a(2) a(4)] by simp_all
  then show "i = j" by simp
qed

lemma processNext_running:
  "proc ctx = Some p \<Longrightarrow> p < length (v ctx) \<Longrightarrow> state (v ctx ! p) = PST_RUNNING
     \<Longrightarrow> processNext os ctx = (False, ctx)"
  by (subst processNext.simps) simp

lemma processStart_failed:
  assumes "proc ctx = Some p" and "p < length (v ctx)" and "state (v ctx ! p) = PST_IDLE"
    and "fst (processSpawn os p ctx) = Some st"
  shows "processStart os ctx = (False, setState p st (snd (processSpawn os p ctx)))"
proof -
  obtain r c1 where s: "processSpawn os p ctx = (r, c1)" by (cases "processSpawn os p ctx")
  then have "r = Some st" using assms(4) by simp
  then show ?thesis using assms(1-3) s by (subst processStart.simps) simp
qed

lemma step_length:
  assumes q: "queueInv ctx" and s: "step os ev ctx = Some ctx'"
  shows "length (v ctx') = (case ev of AddFile c s f \<Rightarrow> Suc (length (v ctx)) | _ \<Rightarrow> length (v ctx))"
proof (cases ev)
  case (AddFile c sApp fpath)
  obtain ok where r: "processAddFile os (Some c) (Some sApp) fpath ctx = Some (ok, ctx')"
    using s by (auto simp: AddFile)
  show ?thesis using processAddFile_inv(2)[OF q r] by (simp add: AddFile)
next
  case (ReadComplete err data readOk)
  show ?thesis
  proof (cases "ovProcRead ctx")
    case True
    then show ?thesis
      using processHandleReadComplete_inv[OF q True, of os err data readOk] s
      by (auto simp: ReadComplete jobsStep_def)
  next
    case False
    then show ?thesis using s by (auto simp: ReadComplete)
  qed
qed

lemma step_new_job:
  assumes q: "queueInv ctx" and s: "step os ev ctx = Some ctx'"
    and i: "length (v ctx) \<le> i" "i < length (v ctx')"
  shows "jobStep (if e_fileExists (jobEnv os i) then PST_IDLE else PST_FILE_NOT_FOUND)
           (state (v ctx' ! i))"
proof (cases ev)
  case (AddFile c sApp fpath)
  obtain ok where r: "processAddFile os (Some c) (Some sApp) fpath ctx = Some (ok, ctx')"
    using s by (auto simp: AddFile)
  have "length (v ctx') = Suc (length (v ctx))" by (rule processAddFile_inv(2)[OF q r])
  then have e: "i = length (v ctx)" using i by simp
  show ?thesis using processAddFile_inv(4)[OF q r] by (simp add: e newItem_def)
next
  case (ReadComplete err data readOk)
  have "length (v ctx') = length (v ctx)"
    using step_length[OF q s] by (simp add: ReadComplete)
  then show ?thesis using i by simp
qed

lemma jobStep_terminal: "terminal s \<Longrightarrow> jobStep s s' \<Longrightarrow> s' = s"
  by (auto simp: jobStep_def terminal_def)

lemma jobStep_file_not_found: "jobStep s PST_FILE_NOT_FOUND \<Longrightarrow> s = PST_FILE_NOT_FOUND"
  by (auto simp: jobStep_def startFailure_def)

lemma processNext_failed:
  assumes "\<forall>p. proc ctx = Some p \<longrightarrow> state (v ctx ! p) \<noteq> PST_RUNNING"
    and "findIdle (v ctx) (vi ctx) = Some i"
    and "fst (processSpawn os i (ctx\<lparr>proc := Some i, vi := i\<rparr>)) = Some st"
  shows "processNext os ctx
         = (False, setState i st (snd (processSpawn os i (ctx\<lparr>proc := Some i, vi := i\<rparr>))))"
proof -
  have f: "i < length (v ctx)" "state (v ctx ! i) = PST_IDLE"
    using findIdle_Some[OF assms(2)] by simp_all
  have "processNext os ctx = processStart os (ctx\<lparr>proc := Some i, vi := i\<rparr>)"
    using assms(1) by (cases "proc ctx") (simp_all add: processNext_unfold assms(2) selectNext_def)
  also have "\<dots> = (False, setState i st (snd (processSpawn os i (ctx\<lparr>proc := Some i, vi := i\<rparr>))))"
    by (rule processStart_failed) (use f assms(3) in simp_all)
  finally show ?thesis .
qed

text \<open>
  The functions that start and finish jobs neither read nor write the fields of the client
  pipe and the capacity of the vector: \<open>withIpc a ctx\<close> is \<open>ctx\<close> with these fields taken
  from \<open>a\<close>.
\<close>

definition withIpc :: "tIpcWndCtx \<Rightarrow> tIpcWndCtx \<Rightarrow> tIpcWndCtx" where
  "withIpc a ctx =
     ctx\<lparr>hPipe := hPipe a, waitForClient := waitForClient a, ovRead := ovRead a, buf := buf a,
         cfg := cfg a, cfgBase := cfgBase a, ipcState := ipcState a, capacity := capacity a\<rparr>"

lemma withIpc_fields [simp]:
  "hPipe (withIpc a ctx) = hPipe a" "waitForClient (withIpc a ctx) = waitForClient a"
  "ovRead (withIpc a ctx) = ovRead a" "buf (withIpc a ctx) = buf a" "cfg (withIpc a ctx) = cfg a"
  "cfgBase (withIpc a ctx) = cfgBase a" "ipcState (withIpc a ctx) = ipcState a"
  "capacity (withIpc a ctx) = capacity a"
  "v (withIpc a ctx) = v ctx" "h (withIpc a ctx) = h ctx" "proc (withIpc a ctx) = proc ctx"
  "vi (withIpc a ctx) = vi ctx" "ovProcRead (withIpc a ctx) = ovProcRead ctx"
  "utf8 (withIpc a ctx) = utf8 ctx" "outputLen (withIpc a ctx) = outputLen ctx"
  "lastChar (withIpc a ctx) = lastChar ctx" "oscalls (withIpc a ctx) = oscalls ctx"
  by (simp_all add: withIpc_def)

lemma withIpc_self [simp]: "withIpc ctx ctx = ctx"
  by (simp add: withIpc_def)

lemma withIpc_withIpc [simp]: "withIpc a (withIpc b ctx) = withIpc a ctx"
  by (simp add: withIpc_def)

lemma withIpc_updates:
  "(withIpc a ctx)\<lparr>h := ht\<rparr> = withIpc a (ctx\<lparr>h := ht\<rparr>)"
  "(withIpc a ctx)\<lparr>oscalls := cs\<rparr> = withIpc a (ctx\<lparr>oscalls := cs\<rparr>)"
  "(withIpc a ctx)\<lparr>v := jobs\<rparr> = withIpc a (ctx\<lparr>v := jobs\<rparr>)"
  "(withIpc a ctx)\<lparr>proc := pr\<rparr> = withIpc a (ctx\<lparr>proc := pr\<rparr>)"
  "(withIpc a ctx)\<lparr>vi := i\<rparr> = withIpc a (ctx\<lparr>vi := i\<rparr>)"
  "(withIpc a ctx)\<lparr>ovProcRead := rd\<rparr> = withIpc a (ctx\<lparr>ovProcRead := rd\<rparr>)"
  "(withIpc a ctx)\<lparr>utf8 := u\<rparr> = withIpc a (ctx\<lparr>utf8 := u\<rparr>)"
  "(withIpc a ctx)\<lparr>outputLen := n\<rparr> = withIpc a (ctx\<lparr>outputLen := n\<rparr>)"
  "(withIpc a ctx)\<lparr>lastChar := l\<rparr> = withIpc a (ctx\<lparr>lastChar := l\<rparr>)"
  by (cases ctx; simp add: withIpc_def)+

lemma withIpc_setState: "setState p st (withIpc a ctx) = withIpc a (setState p st ctx)"
  by (simp add: setState_def withIpc_updates)

lemma withIpc_addCalls: "addCalls cs (withIpc a ctx) = withIpc a (addCalls cs ctx)"
  by (simp add: addCalls_def withIpc_updates)

lemma getPin_withIpc:
  "getPin os e c (withIpc a ctx) = (fst (getPin os e c ctx), withIpc a (snd (getPin os e c ctx)))"
proof -
  obtain pin ht where p: "hto_addKey (h ctx) c = (pin, ht)" by (cases "hto_addKey (h ctx) c")
  obtain ok blob calls where i: "iniConfigGetPin e c (blobAt ht pin) = (ok, blob, calls)"
    by (cases "iniConfigGetPin e c (blobAt ht pin)") auto
  show ?thesis
  proof (cases "blobAt ht pin = None")
    case True
    then show ?thesis using i by (simp add: getPin_def p Let_def withIpc_updates split: option.split)
  next
    case False
    then obtain y where y: "blobAt ht pin = Some y" by auto
    show ?thesis by (simp add: getPin_def p y Let_def withIpc_updates split: option.split)
  qed
qed

lemma processSpawn_withIpc:
  "processSpawn os p (withIpc a ctx)
     = (fst (processSpawn os p ctx), withIpc a (snd (processSpawn os p ctx)))"
proof (cases "e_pipeSetup (jobEnv os p)")
  case UuidFailed then show ?thesis by (simp add: processSpawn_def)
next
  case PipeFailed then show ?thesis by (simp add: processSpawn_def)
next
  case PipeReady
  obtain r c1 where g: "getPin os (jobEnv os p) (config (v ctx ! p)) ctx = (r, c1)"
    by (cases "getPin os (jobEnv os p) (config (v ctx ! p)) ctx")
  have g': "getPin os (jobEnv os p) (config (v ctx ! p)) (withIpc a ctx) = (r, withIpc a c1)"
    by (simp add: getPin_withIpc g)
  show ?thesis
  proof (cases r)
    case (Inl st)
    then show ?thesis by (simp add: processSpawn_def PipeReady g g' withIpc_addCalls)
  next
    case (Inr rawPin)
    obtain res cs where sc: "spawnChild os (jobEnv os p) (v ctx ! p) rawPin = (res, cs)"
      by (cases "spawnChild os (jobEnv os p) (v ctx ! p) rawPin")
    show ?thesis by (simp add: processSpawn_def PipeReady g g' Inr sc withIpc_addCalls)
  qed
qed

lemma processFinish_withIpc:
  "processFinish os (withIpc a ctx)
     = (fst (processFinish os ctx), withIpc a (snd (processFinish os ctx)))"
  by (simp add: processFinish_def withIpc_setState withIpc_updates Let_def split: option.split)

lemma processReadAsync_withIpc:
  "processReadAsync ok (withIpc a ctx)
     = (fst (processReadAsync ok ctx), withIpc a (snd (processReadAsync ok ctx)))"
  by (simp add: processReadAsync_def withIpc_updates)

lemma processStart_processNext_withIpc:
  shows "processStart os ctx = (r, c') \<longrightarrow> processStart os (withIpc a ctx) = (r, withIpc a c')"
    and "processNext os2 ctx2 = (r2, c2') \<longrightarrow> processNext os2 (withIpc a ctx2) = (r2, withIpc a c2')"
proof (induction os ctx and os2 ctx2 arbitrary: r c' and r2 c2' rule: processStart_processNext.induct)
  case (1 os ctx)
  show ?case
  proof (cases "proc ctx")
    case None
    have e1: "processStart os ctx = (False, ctx)" using None by (subst processStart.simps) simp
    have e2: "processStart os (withIpc a ctx) = (False, withIpc a ctx)"
      using None by (subst processStart.simps) simp
    show ?thesis unfolding e1 e2 by auto
  next
    case (Some p)
    show ?thesis
    proof (cases "\<not> p < length (v ctx) \<or> state (v ctx ! p) \<noteq> PST_IDLE")
      case True
      have e1: "processStart os ctx = (False, ctx)" using Some True by (subst processStart.simps) auto
      have e2: "processStart os (withIpc a ctx) = (False, withIpc a ctx)"
        using Some True by (subst processStart.simps) auto
      show ?thesis unfolding e1 e2 by auto
    next
      case ok: False
      obtain res c1 where s: "processSpawn os p ctx = (res, c1)" by (cases "processSpawn os p ctx")
      have s': "processSpawn os p (withIpc a ctx) = (res, withIpc a c1)"
        by (simp add: processSpawn_withIpc s)
      show ?thesis
      proof (cases res)
        case (Some st)
        have e1: "processStart os ctx = (False, setState p st c1)"
          using \<open>proc ctx = Some p\<close> ok s Some by (subst processStart.simps) simp
        have e2: "processStart os (withIpc a ctx) = (False, withIpc a (setState p st c1))"
          using \<open>proc ctx = Some p\<close> ok s' Some by (subst processStart.simps) (simp add: withIpc_setState)
        show ?thesis unfolding e1 e2 by auto
      next
        case None
        let ?c = "setState p PST_RUNNING (c1\<lparr>utf8 := \<lparr>cp = 0, rem = 0\<rparr>, outputLen := 0, lastChar := 0\<rparr>)"
        let ?cb = "setState p PST_RUNNING ((withIpc a c1)\<lparr>utf8 := \<lparr>cp = 0, rem = 0\<rparr>, outputLen := 0, lastChar := 0\<rparr>)"
        obtain ra c2 where ra: "processReadAsync (e_readAsync (jobEnv os p)) ?c = (ra, c2)"
          by (cases "processReadAsync (e_readAsync (jobEnv os p)) ?c")
        have cb: "?cb = withIpc a ?c" by (simp add: withIpc_setState withIpc_updates)
        have ra': "processReadAsync (e_readAsync (jobEnv os p)) ?cb = (ra, withIpc a c2)"
          unfolding cb by (simp add: processReadAsync_withIpc ra)
        show ?thesis
        proof (cases ra)
          case True
          have e1: "processStart os ctx = (True, c2)"
            using \<open>proc ctx = Some p\<close> ok s None ra True by (subst processStart.simps) simp
          have e2: "processStart os (withIpc a ctx) = (True, withIpc a c2)"
            using \<open>proc ctx = Some p\<close> ok s' None ra' True by (subst processStart.simps) simp
          show ?thesis unfolding e1 e2 by auto
        next
          case False
          have e1: "processStart os ctx = processNext os (snd (processFinish os c2))"
            using \<open>proc ctx = Some p\<close> ok s None ra False by (subst processStart.simps) simp
          have e2: "processStart os (withIpc a ctx) = processNext os (snd (processFinish os (withIpc a c2)))"
            using \<open>proc ctx = Some p\<close> ok s' None ra' False by (subst processStart.simps) simp
          have f: "snd (processFinish os (withIpc a c2)) = withIpc a (snd (processFinish os c2))"
            by (simp add: processFinish_withIpc)
          have ih: "processNext os (snd (processFinish os c2)) = (r, c') \<longrightarrow>
                    processNext os (withIpc a (snd (processFinish os c2))) = (r, withIpc a c')"
            using "1.IH"[OF \<open>proc ctx = Some p\<close> ok s[symmetric] None ra[symmetric] eq_False[THEN iffD2, OF False]]
            by simp
          show ?thesis unfolding e1 e2 f using ih by simp
        qed
      qed
    qed
  qed
next
  case (2 os ctx)
  have t: "(case proc ctx of None \<Rightarrow> False | Some p \<Rightarrow> state (v (withIpc a ctx) ! p) = PST_RUNNING)
           = (case proc ctx of None \<Rightarrow> False | Some p \<Rightarrow> state (v ctx ! p) = PST_RUNNING)"
    by (cases "proc ctx") simp_all
  show ?case
  proof (cases "case proc ctx of None \<Rightarrow> False | Some p \<Rightarrow> state (v ctx ! p) = PST_RUNNING")
    case True
    have e1: "processNext os ctx = (False, ctx)" using True by (subst processNext.simps) simp
    have e2: "processNext os (withIpc a ctx) = (False, withIpc a ctx)"
      using True by (subst processNext.simps) (simp add: t)
    show ?thesis unfolding e1 e2 by auto
  next
    case False
    let ?s = "case findIdle (v ctx) (vi ctx) of None \<Rightarrow> ctx | Some i \<Rightarrow> ctx\<lparr>proc := Some i, vi := i\<rparr>"
    have e1: "processNext os ctx = processStart os ?s"
      using False by (subst processNext.simps) simp
    have sel: "(case findIdle (v ctx) (vi ctx) of None \<Rightarrow> withIpc a ctx
                | Some i \<Rightarrow> (withIpc a ctx)\<lparr>proc := Some i, vi := i\<rparr>) = withIpc a ?s"
      by (cases "findIdle (v ctx) (vi ctx)") (simp_all add: withIpc_updates)
    have e2: "processNext os (withIpc a ctx) = processStart os (withIpc a ?s)"
      using False sel by (subst processNext.simps) (simp add: t)
    show ?thesis unfolding e1 e2 using "2.IH"[OF False] by simp
  qed
qed

lemma processNext_fields [simp]:
  "hPipe (snd (processNext os ctx)) = hPipe ctx"
  "waitForClient (snd (processNext os ctx)) = waitForClient ctx"
  "ovRead (snd (processNext os ctx)) = ovRead ctx"
  "buf (snd (processNext os ctx)) = buf ctx"
  "cfg (snd (processNext os ctx)) = cfg ctx"
  "cfgBase (snd (processNext os ctx)) = cfgBase ctx"
  "ipcState (snd (processNext os ctx)) = ipcState ctx"
  "capacity (snd (processNext os ctx)) = capacity ctx"
proof -
  obtain r x where n: "processNext os ctx = (r, x)" by (cases "processNext os ctx")
  have "processNext os (withIpc ctx ctx) = (r, withIpc ctx x)"
    using processStart_processNext_withIpc(2) n by blast
  then have e: "x = withIpc ctx x" using n by simp
  show "hPipe (snd (processNext os ctx)) = hPipe ctx"
    "waitForClient (snd (processNext os ctx)) = waitForClient ctx"
    "ovRead (snd (processNext os ctx)) = ovRead ctx"
    "buf (snd (processNext os ctx)) = buf ctx"
    "cfg (snd (processNext os ctx)) = cfg ctx"
    "cfgBase (snd (processNext os ctx)) = cfgBase ctx"
    "ipcState (snd (processNext os ctx)) = ipcState ctx"
    "capacity (snd (processNext os ctx)) = capacity ctx"
    unfolding n snd_conv by (subst e, simp)+
qed

lemma processFinish_capacity [simp]: "capacity (snd (processFinish os ctx)) = capacity ctx"
  by (simp add: processFinish_def setState_def Let_def split: option.split)

lemma processHandleReadComplete_capacity [simp]:
  "capacity (processHandleReadComplete os err data readOk ctx) = capacity ctx"
proof -
  have fin: "capacity (snd (processNext os (snd (processFinish os c)))) = capacity c" for c
    by simp
  consider (a) "\<not> (err = 0 \<and> data \<noteq> [])" | (b) "err = 0 \<and> data \<noteq> []" "proc ctx = None"
    | (c) p where "err = 0 \<and> data \<noteq> []" "proc ctx = Some p"
    by (cases "proc ctx") auto
  then show ?thesis
  proof cases
    case a
    then show ?thesis by (auto simp: processHandleReadComplete_def Let_def fin)
  next
    case b
    then show ?thesis by (simp add: processHandleReadComplete_def Let_def fin)
  next
    case c
    define s where "s = decodeLoop data
                        \<lparr>l_utf8 = utf8 ctx, l_output = output (v ctx ! p), l_outputLen = outputLen ctx,
                         l_lastChr = lastChar ctx, l_added = False\<rparr>"
    define out where "out = (if l_added s \<and> l_outputLen s \<ge> PROCESS_MAX_OUTPUT
                         then usb_add (l_output s) truncationNotice else l_output s)"
    define c1 where "c1 = ctx\<lparr>ovProcRead := False, utf8 := l_utf8 s, outputLen := l_outputLen s,
                             lastChar := l_lastChr s, v := (v ctx)[p := (v ctx ! p)\<lparr>output := out\<rparr>]\<rparr>"
    have e: "processHandleReadComplete os err data readOk ctx
             = (if readOk then c1\<lparr>ovProcRead := True\<rparr>
                else snd (processNext os (snd (processFinish os (c1\<lparr>ovProcRead := False\<rparr>)))))"
      using c by (simp add: processHandleReadComplete_def Let_def processReadAsync_def s_def out_def c1_def)
    show ?thesis unfolding e by (simp add: fin) (simp add: c1_def)
  qed
qed

text \<open>
  The vector fits into its buffer, and a buffer has room for at least
  \<^verbatim>\<open>LIBPCF_VEC_INIT_CAPACITY\<close> elements.
\<close>

definition capInv :: "tIpcWndCtx \<Rightarrow> bool" where
  "capInv ctx = (length (v ctx) \<le> capacity ctx \<and> (capacity ctx = 0 \<or> 16 \<le> capacity ctx))"

definition isAddFile :: "tEvent \<Rightarrow> bool" where
  "isAddFile ev = (case ev of AddFile c sApp fpath \<Rightarrow> True | ReadComplete err data readOk \<Rightarrow> False)"

definition numAdds :: "tEvent list \<Rightarrow> nat" where
  "numAdds evs = length (filter isAddFile evs)"

lemma step_None: "step os ev ctx = None \<longleftrightarrow> isAddFile ev \<and> procDangles ctx"
  by (cases ev) (simp_all add: isAddFile_def processAddFile_unfold)

lemma capInv_step:
  assumes q: "queueInv ctx" and c: "capInv ctx" and s: "step os ev ctx = Some ctx'"
  shows "capInv ctx'"
proof (cases ev)
  case (AddFile c' sApp fpath)
  let ?ca = "snd (vec_pushBack (newItem os c' sApp fpath ctx) ctx)"
  have e: "ctx' = snd (processNext os ?ca)"
    using s by (auto simp: AddFile processAddFile_unfold split: if_splits)
  have l: "length (v ctx') = Suc (length (v ctx))"
    using step_length[OF q s] by (simp add: AddFile)
  have k: "capacity ctx' = (if capacity ctx \<le> length (v ctx)
                            then (if 0 < capacity ctx then capacity ctx * 2 else 16) else capacity ctx)"
    unfolding e by (simp add: vec_pushBack_def LIBPCF_VEC_INIT_CAPACITY_def)
  show ?thesis using c unfolding capInv_def l k by auto
next
  case (ReadComplete err data readOk)
  have l: "length (v ctx') = length (v ctx)"
    using step_length[OF q s] by (simp add: ReadComplete)
  have k: "capacity ctx' = capacity ctx" using s by (auto simp: ReadComplete)
  show ?thesis using c unfolding capInv_def l k by simp
qed

lemma run_defined:
  "queueInv ctx \<Longrightarrow> capInv ctx \<Longrightarrow> length (v ctx) + numAdds evs \<le> 16
     \<Longrightarrow> \<exists>ctx'. run os evs ctx = Some ctx'"
proof (induction evs arbitrary: ctx)
  case Nil
  then show ?case by simp
next
  case (Cons ev evs)
  have n: "numAdds (ev # evs) = (if isAddFile ev then Suc (numAdds evs) else numAdds evs)"
    by (simp add: numAdds_def)
  have "\<not> (isAddFile ev \<and> procDangles ctx)"
  proof
    assume a: "isAddFile ev \<and> procDangles ctx"
    then have "16 \<le> length (v ctx)" using Cons.prems(2) by (auto simp: procDangles_def capInv_def)
    then show False using Cons.prems(3) a n by simp
  qed
  then obtain c1 where s: "step os ev ctx = Some c1" using step_None[of os ev ctx] by auto
  have q1: "queueInv c1" using step_inv[OF Cons.prems(1) s] by simp
  have c1: "capInv c1" by (rule capInv_step[OF Cons.prems(1,2) s])
  have l: "length (v c1) = (if isAddFile ev then Suc (length (v ctx)) else length (v ctx))"
    using step_length[OF Cons.prems(1) s] by (cases ev) (simp_all add: isAddFile_def)
  have "length (v c1) + numAdds evs \<le> 16" using Cons.prems(3) n l by (simp split: if_splits)
  then obtain c2 where "run os evs c1 = Some c2" using Cons.IH[OF q1 c1] by blast
  then show ?case using s by simp
qed

lemma capInv_initialCtx: "capInv initialCtx"
  by (simp add: capInv_def initialCtx_def)

definition addFileA :: tEvent where
  "addFileA = AddFile (config exampleJob) (L ''tool.exe %1'') (L ''fileA.exe'')"

lemma processStart_started:
  assumes "proc ctx = Some p" and "p < length (v ctx)" and "state (v ctx ! p) = PST_IDLE"
    and "fst (processSpawn os p ctx) = None" and "e_readAsync (jobEnv os p)"
  shows "processStart os ctx
         = (True, (setState p PST_RUNNING
                     ((snd (processSpawn os p ctx))\<lparr>utf8 := \<lparr>cp = 0, rem = 0\<rparr>, outputLen := 0, lastChar := 0\<rparr>))
                  \<lparr>ovProcRead := True\<rparr>)"
proof -
  obtain r c1 where s: "processSpawn os p ctx = (r, c1)" by (cases "processSpawn os p ctx")
  then have r: "r = None" using assms(4) by simp
  have pc: "proc c1 = Some p" using proc_processSpawn[of os p ctx] s assms(1) by simp
  show ?thesis using assms(1-3,5) s r pc
    by (subst processStart.simps) (simp add: processReadAsync_def setState_def)
qed

lemma spawnChild_ok:
  "fst (buildCmd (signApp job) (path job) (wcs rawPin)) \<noteq> None \<Longrightarrow> e_createProcess e
     \<Longrightarrow> e_writeFile e \<Longrightarrow> WideCharToMultiByte os (wcs rawPin) \<noteq> None
     \<Longrightarrow> fst (spawnChild os e job rawPin) = None"
  by (cases "buildCmd (signApp job) (path job) (wcs rawPin)") (auto simp: spawnChild_def)

text \<open>
  The output pipe of the second job cannot be created; everything else succeeds and every
  subprocess exits with code 0.
\<close>

definition stallOs :: tOs where
  "stallOs = exampleOs\<lparr>jobEnv := (\<lambda>i. if i = 1 then exampleJobEnv\<lparr>e_pipeSetup := PipeFailed\<rparr>
                                        else exampleJobEnv)\<rparr>"

lemma stall_spawn0:
  assumes "h ctx = hto_create 64" and "v ctx ! 0 = idleJob"
  shows "fst (processSpawn stallOs 0 ctx) = None"
proof -
  have cf: "config (v ctx ! 0) = config exampleJob" by (simp add: assms(2) idleJob_def)
  have wf: "hto_wf (h ctx)" by (simp add: assms hto_create_wf)
  have c: "cacheLookup (h ctx) (config exampleJob) = None"
    by (simp add: assms cacheLookup_initial)
  have i: "iniConfigGetPin (jobEnv stallOs 0) (config exampleJob) None
             = (True, Some [1, 2, 3], [CredUIPromptForWindowsCredentials (config exampleJob)])"
    by (simp add: iniConfigGetPin_def stallOs_def exampleOs_def exampleJobEnv_def exampleJob_def)
  have d: "decodePin stallOs [1, 2, 3] = Inr (L ''1234'' @ [0])"
    by (simp add: decodePin_def stallOs_def exampleOs_def)
  obtain ctx' where g: "getPin stallOs (jobEnv stallOs 0) (config exampleJob) ctx
        = (Inr (L ''1234'' @ [0]), ctx')"
    using getPin_uncached[OF wf c i, of stallOs] by (auto simp: d)
  have e: "e_pipeSetup (jobEnv stallOs 0) = PipeReady" "e_createProcess (jobEnv stallOs 0)"
    "e_writeFile (jobEnv stallOs 0)" "WideCharToMultiByte stallOs w \<noteq> None" for w
    by (simp_all add: stallOs_def exampleOs_def exampleJobEnv_def)
  have b: "fst (buildCmd (signApp (v ctx ! 0)) (path (v ctx ! 0)) (wcs (L ''1234'' @ [0]))) \<noteq> None"
    by (simp add: assms(2) idleJob_def exampleJob_def buildCmd_def usb_get_def usb_add_eq usb_addC_def
          wcs_def L_eval)
  obtain res calls where sc: "spawnChild stallOs (jobEnv stallOs 0) (v ctx ! 0) (L ''1234'' @ [0]) = (res, calls)"
    by (cases "spawnChild stallOs (jobEnv stallOs 0) (v ctx ! 0) (L ''1234'' @ [0])")
  have "res = None"
    using spawnChild_ok[OF b e(2) e(3) e(4)] sc by simp
  then show ?thesis using e(1) g sc by (simp add: processSpawn_def cf)
qed

text \<open>The first file is added: its job runs and the first read is pending.\<close>

lemma stall_step1:
  "\<exists>ht calls. run stallOs [addFileA] initialCtx
     = Some (initialCtx\<lparr>v := [idleJob\<lparr>state := PST_RUNNING\<rparr>], capacity := 16, proc := Some 0,
                   ovProcRead := True, h := ht, oscalls := calls\<rparr>)"
proof -
  let ?ca = "initialCtx\<lparr>v := [idleJob], capacity := 16\<rparr>"
  let ?cs = "?ca\<lparr>proc := Some 0, vi := 0\<rparr>"
  have a: "run stallOs [addFileA] initialCtx = Some (snd (processNext stallOs ?ca))"
    by (simp add: addFileA_def processAddFile_def vec_pushBack_def LIBPCF_VEC_INIT_CAPACITY_def
          stallOs_def exampleOs_def exampleJobEnv_def initialCtx_def idleJob_def exampleJob_def)
  have f: "findIdle [idleJob] 0 = Some 0"
    by (simp add: findIdle.simps idleJob_def)
  have n: "processNext stallOs ?ca = processStart stallOs ?cs"
    by (simp add: processNext_unfold selectNext_def f initialCtx_def)
  have s: "fst (processSpawn stallOs 0 ?cs) = None"
    by (rule stall_spawn0) (simp_all add: initialCtx_def)
  obtain ht calls where ch: "snd (processSpawn stallOs 0 ?cs) = ?cs\<lparr>h := ht, oscalls := oscalls ?cs @ calls\<rparr>"
    using processSpawn_changes[of stallOs 0 ?cs] by blast
  have ra: "e_readAsync (jobEnv stallOs 0)" by (simp add: stallOs_def exampleOs_def exampleJobEnv_def)
  have "processStart stallOs ?cs
         = (True, (setState 0 PST_RUNNING
                     ((snd (processSpawn stallOs 0 ?cs))\<lparr>utf8 := \<lparr>cp = 0, rem = 0\<rparr>, outputLen := 0, lastChar := 0\<rparr>))
                  \<lparr>ovProcRead := True\<rparr>)"
    by (rule processStart_started[OF _ _ _ s ra]) (simp_all add: idleJob_def)
  then have "snd (processNext stallOs ?ca)
      = initialCtx\<lparr>v := [idleJob\<lparr>state := PST_RUNNING\<rparr>], capacity := 16, proc := Some 0,
                   ovProcRead := True, h := ht, oscalls := calls\<rparr>"
    unfolding n ch by (simp add: setState_def initialCtx_def)
  then show ?thesis unfolding a by blast
qed

text \<open>
  While the first job runs, every added file only appends an idle job, as long as the
  vector has room.
\<close>

definition runningWith :: "nat \<Rightarrow> tHTableO \<Rightarrow> tOsCall list \<Rightarrow> tIpcWndCtx" where
  "runningWith n ht calls =
     initialCtx\<lparr>v := idleJob\<lparr>state := PST_RUNNING\<rparr> # replicate n idleJob, capacity := 16,
                 proc := Some 0, ovProcRead := True, h := ht, oscalls := calls\<rparr>"

lemma stall_add_while_running:
  assumes "n < 15"
  shows "step stallOs addFileA (runningWith n ht calls) = Some (runningWith (Suc n) ht calls)"
proof -
  let ?c = "runningWith n ht calls"
  have nd: "\<not> procDangles ?c" using assms by (simp add: procDangles_def runningWith_def)
  have it: "newItem stallOs (config exampleJob) (L ''tool.exe %1'') (L ''fileA.exe'') ?c = idleJob"
    by (simp add: newItem_def stallOs_def exampleOs_def exampleJobEnv_def idleJob_def exampleJob_def)
  have pb: "snd (vec_pushBack idleJob ?c) = runningWith (Suc n) ht calls"
    using assms by (simp add: vec_pushBack_def runningWith_def replicate_append_same)
  have "processNext stallOs (runningWith (Suc n) ht calls) = (False, runningWith (Suc n) ht calls)"
    by (rule processNext_running[of _ 0]) (simp_all add: runningWith_def)
  then show ?thesis by (simp add: addFileA_def processAddFile_unfold nd it pb)
qed

lemma stall_adds_while_running:
  "n + k \<le> 15 \<Longrightarrow>
     run stallOs (replicate k addFileA) (runningWith n ht calls) = Some (runningWith (n + k) ht calls)"
proof (induction k arbitrary: n)
  case 0
  then show ?case by simp
next
  case (Suc k)
  have "n < 15" using Suc.prems by simp
  then have s: "step stallOs addFileA (runningWith n ht calls) = Some (runningWith (Suc n) ht calls)"
    by (rule stall_add_while_running)
  have "run stallOs (replicate k addFileA) (runningWith (Suc n) ht calls)
        = Some (runningWith (Suc n + k) ht calls)"
    by (rule Suc.IH) (use Suc.prems in simp)
  then show ?case using s by simp
qed

text \<open>Seventeen files are added while the job of the first one runs.\<close>

lemma stall_full:
  "\<exists>ht calls. run stallOs (replicate 16 addFileA) initialCtx = Some (runningWith 15 ht calls)"
proof -
  obtain ht calls where 1: "run stallOs [addFileA] initialCtx = Some (runningWith 0 ht calls)"
    using stall_step1 by (auto simp: runningWith_def)
  have 2: "run stallOs (replicate 15 addFileA) (runningWith 0 ht calls) = Some (runningWith 15 ht calls)"
    using stall_adds_while_running[of 0 15 ht calls] by simp
  have "replicate 16 addFileA = [addFileA] @ replicate 15 addFileA" by (simp add: numeral_eq_Suc)
  then have "run stallOs (replicate 16 addFileA) initialCtx = Some (runningWith 15 ht calls)"
    using 1 2 by (simp only: run_append) simp
  then show ?thesis by blast
qed

lemma runningWith_full: "procDangles (runningWith 15 ht calls) \<and> runningCount (runningWith 15 ht calls) = 1"
  by (simp add: procDangles_def runningWith_def runningCount_def idleJob_def)

lemma stall_undefined: "run stallOs (replicate 17 addFileA) initialCtx = None"
proof -
  obtain ht calls where 1: "run stallOs (replicate 16 addFileA) initialCtx = Some (runningWith 15 ht calls)"
    using stall_full by blast
  have 2: "step stallOs addFileA (runningWith 15 ht calls) = None"
    using runningWith_full[of ht calls] step_None[of stallOs addFileA "runningWith 15 ht calls"]
    by (simp add: isAddFile_def addFileA_def)
  have "replicate 17 addFileA = replicate 16 addFileA @ [addFileA]"
    by (simp add: numeral_eq_Suc replicate_append_same)
  then show ?thesis using 1 2 by (simp only: run_snoc) simp
qed

text \<open>
  The machine as the specification draws it: a job goes from idle to running and from
  running to a terminal state.
\<close>

definition spec_jobStep :: "tProcState \<Rightarrow> tProcState \<Rightarrow> bool" where
  "spec_jobStep s s' = ((s = PST_IDLE \<and> s' = PST_RUNNING) \<or> (s = PST_RUNNING \<and> terminal s'))"

text \<open>The named pipe for the output of the subprocess cannot be created.\<close>

definition pipeFailOs :: tOs where
  "pipeFailOs = exampleOs\<lparr>jobEnv := (\<lambda>i. exampleJobEnv\<lparr>e_pipeSetup := PipeFailed\<rparr>)\<rparr>"

text \<open>
  Claim C6, amended. Over every sequence of queue operations from the initial context
  that stays clear of the undefined behaviour of \<^verbatim>\<open>processAddFile\<close>, as every sequence
  with at most 16 added files does, the state of each job moves along \<open>jobStep\<close> only: a
  job is appended idle, or in \<^verbatim>\<open>PST_FILE_NOT_FOUND\<close> when its file does not exist, and no
  other operation assigns that state; an idle job becomes running, or is given
  \<^verbatim>\<open>PST_FAIL\<close>, \<^verbatim>\<open>PST_BROKEN_PIPE\<close>, \<^verbatim>\<open>PST_APP_NOT_FOUND\<close>, \<^verbatim>\<open>PST_PIN_MISSING\<close> or
  \<^verbatim>\<open>PST_PIN_WRONG\<close> by the failed start directly, in a single assignment to the idle job;
  a running job ends in \<^verbatim>\<open>PST_OK\<close> or \<^verbatim>\<open>PST_FAIL\<close>; a job in a terminal state keeps that
  state. An operation is undefined exactly when a file is added while the vector is full
  and \<^verbatim>\<open>ctx->proc\<close> is set.
\<close>

theorem job_state_machine:
  "(\<forall>c c'. run os evs initialCtx = Some c \<and> step os ev c = Some c' \<longrightarrow>
       length (v c) \<le> length (v c')
       \<and> (\<forall>i < length (v c). jobStep (state (v c ! i)) (state (v c' ! i)))
       \<and> (\<forall>i. length (v c) \<le> i \<and> i < length (v c') \<longrightarrow>
             jobStep (if e_fileExists (jobEnv os i) then PST_IDLE else PST_FILE_NOT_FOUND)
               (state (v c' ! i))))
   \<and> (numAdds evs \<le> 16 \<longrightarrow> (\<exists>c. run os evs initialCtx = Some c))
   \<and> (\<forall>c. step os ev c = None \<longleftrightarrow> isAddFile ev \<and> procDangles c)
   \<and> (\<forall>s s'. terminal s \<and> jobStep s s' \<longrightarrow> s' = s)
   \<and> (\<forall>s. jobStep s PST_FILE_NOT_FOUND \<longrightarrow> s = PST_FILE_NOT_FOUND)
   \<and> (\<forall>ctx p st. proc ctx = Some p \<and> p < length (v ctx) \<and> state (v ctx ! p) = PST_IDLE
           \<and> fst (processSpawn os p ctx) = Some st \<longrightarrow>
         startFailure st \<and> processStart os ctx = (False, setState p st (snd (processSpawn os p ctx))))"
proof -
  have 1: "length (v c) \<le> length (v c')
       \<and> (\<forall>i < length (v c). jobStep (state (v c ! i)) (state (v c' ! i)))
       \<and> (\<forall>i. length (v c) \<le> i \<and> i < length (v c') \<longrightarrow>
             jobStep (if e_fileExists (jobEnv os i) then PST_IDLE else PST_FILE_NOT_FOUND)
               (state (v c' ! i)))"
    if r: "run os evs initialCtx = Some c \<and> step os ev c = Some c'" for c c'
  proof -
    have q: "queueInv c" using run_inv[OF queueInv_initialCtx, of os evs c] r by simp
    have s: "step os ev c = Some c'" using r by simp
    have e: "jobsExt c c'" using step_inv[OF q s] by simp
    have a: "length (v c) \<le> length (v c')" using e by (simp add: jobsExt_def)
    have b: "\<forall>i < length (v c). jobStep (state (v c ! i)) (state (v c' ! i))"
      using e by (simp add: jobsExt_def)
    have d: "\<forall>i. length (v c) \<le> i \<and> i < length (v c') \<longrightarrow>
         jobStep (if e_fileExists (jobEnv os i) then PST_IDLE else PST_FILE_NOT_FOUND)
           (state (v c' ! i))"
      using step_new_job[OF q s] by blast
    show ?thesis using a b d by blast
  qed
  have 2: "numAdds evs \<le> 16 \<longrightarrow> (\<exists>c. run os evs initialCtx = Some c)"
    using run_defined[OF queueInv_initialCtx capInv_initialCtx, of evs os]
    by (simp add: initialCtx_def)
  have 3: "\<forall>c. step os ev c = None \<longleftrightarrow> isAddFile ev \<and> procDangles c"
    using step_None by blast
  have 4: "\<forall>s s'. terminal s \<and> jobStep s s' \<longrightarrow> s' = s" using jobStep_terminal by blast
  have 5: "\<forall>s. jobStep s PST_FILE_NOT_FOUND \<longrightarrow> s = PST_FILE_NOT_FOUND"
    using jobStep_file_not_found by blast
  have 6: "\<forall>ctx p st. proc ctx = Some p \<and> p < length (v ctx) \<and> state (v ctx ! p) = PST_IDLE
           \<and> fst (processSpawn os p ctx) = Some st \<longrightarrow>
         startFailure st \<and> processStart os ctx = (False, setState p st (snd (processSpawn os p ctx)))"
    using processSpawn_newState processStart_failed by blast
  show ?thesis using 1 2 3 4 5 6 by blast
qed

lemma pipeFail_step1:
  "run pipeFailOs [addFileA] initialCtx
     = Some (initialCtx\<lparr>v := [idleJob\<lparr>state := PST_BROKEN_PIPE\<rparr>], capacity := 16, proc := Some 0\<rparr>)"
proof -
  let ?ca = "initialCtx\<lparr>v := [idleJob], capacity := 16\<rparr>"
  have a: "run pipeFailOs [addFileA] initialCtx = Some (snd (processNext pipeFailOs ?ca))"
    by (simp add: addFileA_def processAddFile_def vec_pushBack_def LIBPCF_VEC_INIT_CAPACITY_def
          pipeFailOs_def exampleOs_def exampleJobEnv_def initialCtx_def idleJob_def exampleJob_def)
  have f: "findIdle (v ?ca) (vi ?ca) = Some 0"
    by (simp add: findIdle.simps initialCtx_def idleJob_def)
  have s: "processSpawn pipeFailOs 0 (?ca\<lparr>proc := Some 0, vi := 0\<rparr>)
           = (Some PST_BROKEN_PIPE, ?ca\<lparr>proc := Some 0, vi := 0\<rparr>)"
    by (simp add: processSpawn_def pipeFailOs_def)
  have "processNext pipeFailOs ?ca = (False, setState 0 PST_BROKEN_PIPE (?ca\<lparr>proc := Some 0, vi := 0\<rparr>))"
    using processNext_failed[of ?ca 0 pipeFailOs PST_BROKEN_PIPE] f s by (simp add: initialCtx_def)
  then show ?thesis unfolding a by (simp add: setState_def initialCtx_def)
qed

lemma pipeFail_step2:
  "step pipeFailOs addFileA
      (initialCtx\<lparr>v := [idleJob\<lparr>state := PST_BROKEN_PIPE\<rparr>], capacity := 16, proc := Some 0\<rparr>)
     = Some (initialCtx\<lparr>v := [idleJob\<lparr>state := PST_BROKEN_PIPE\<rparr>, idleJob\<lparr>state := PST_BROKEN_PIPE\<rparr>],
                   capacity := 16, proc := Some 1, vi := 1\<rparr>)"
proof -
  let ?c1 = "initialCtx\<lparr>v := [idleJob\<lparr>state := PST_BROKEN_PIPE\<rparr>], capacity := 16, proc := Some 0\<rparr>"
  let ?ca = "initialCtx\<lparr>v := [idleJob\<lparr>state := PST_BROKEN_PIPE\<rparr>, idleJob], capacity := 16, proc := Some 0\<rparr>"
  have a: "step pipeFailOs addFileA ?c1 = Some (snd (processNext pipeFailOs ?ca))"
    by (simp add: addFileA_def processAddFile_def vec_pushBack_def pipeFailOs_def exampleOs_def
          exampleJobEnv_def initialCtx_def idleJob_def exampleJob_def)
  have f: "findIdle (v ?ca) (vi ?ca) = Some 1"
    by (simp add: findIdle.simps initialCtx_def idleJob_def)
  have s: "processSpawn pipeFailOs 1 (?ca\<lparr>proc := Some 1, vi := 1\<rparr>)
           = (Some PST_BROKEN_PIPE, ?ca\<lparr>proc := Some 1, vi := 1\<rparr>)"
    by (simp add: processSpawn_def pipeFailOs_def)
  have "processNext pipeFailOs ?ca = (False, setState 1 PST_BROKEN_PIPE (?ca\<lparr>proc := Some 1, vi := 1\<rparr>))"
    using processNext_failed[of ?ca 1 pipeFailOs PST_BROKEN_PIPE] f s by (simp add: initialCtx_def)
  then show ?thesis unfolding a by (simp add: setState_def initialCtx_def)
qed

theorem job_state_machine_witness:
  "run pipeFailOs [addFileA] initialCtx
     = Some (initialCtx\<lparr>v := [idleJob\<lparr>state := PST_BROKEN_PIPE\<rparr>], capacity := 16, proc := Some 0\<rparr>)
   \<and> step pipeFailOs addFileA
        (initialCtx\<lparr>v := [idleJob\<lparr>state := PST_BROKEN_PIPE\<rparr>], capacity := 16, proc := Some 0\<rparr>)
     = Some (initialCtx\<lparr>v := [idleJob\<lparr>state := PST_BROKEN_PIPE\<rparr>, idleJob\<lparr>state := PST_BROKEN_PIPE\<rparr>],
                   capacity := 16, proc := Some 1, vi := 1\<rparr>)
   \<and> jobStep PST_BROKEN_PIPE PST_BROKEN_PIPE
   \<and> e_fileExists (jobEnv pipeFailOs 1)
   \<and> jobStep PST_IDLE PST_BROKEN_PIPE
   \<and> numAdds (replicate 16 addFileA) \<le> 16
   \<and> run stallOs (replicate 16 addFileA) initialCtx \<noteq> None
   \<and> isAddFile addFileA
   \<and> procDangles (the (run stallOs (replicate 16 addFileA) initialCtx))
   \<and> step stallOs addFileA (the (run stallOs (replicate 16 addFileA) initialCtx)) = None
   \<and> terminal PST_BROKEN_PIPE
   \<and> jobStep PST_FILE_NOT_FOUND PST_FILE_NOT_FOUND
   \<and> proc idleCtx = Some 0 \<and> 0 < length (v idleCtx) \<and> state (v idleCtx ! 0) = PST_IDLE
   \<and> fst (processSpawn pipeFailOs 0 idleCtx) = Some PST_BROKEN_PIPE
   \<and> startFailure PST_BROKEN_PIPE
   \<and> processStart pipeFailOs idleCtx = (False, setState 0 PST_BROKEN_PIPE (snd (processSpawn pipeFailOs 0 idleCtx)))"
proof -
  let ?c1 = "initialCtx\<lparr>v := [idleJob\<lparr>state := PST_BROKEN_PIPE\<rparr>], capacity := 16, proc := Some 0\<rparr>"
  let ?c2 = "initialCtx\<lparr>v := [idleJob\<lparr>state := PST_BROKEN_PIPE\<rparr>, idleJob\<lparr>state := PST_BROKEN_PIPE\<rparr>],
                   capacity := 16, proc := Some 1, vi := 1\<rparr>"
  note m = job_state_machine[of pipeFailOs "[addFileA]" addFileA]
  note m' = job_state_machine[of stallOs "replicate 16 addFileA" addFileA]
  note r1 = pipeFail_step1
  note r2 = pipeFail_step2
  have m1: "length (v ?c1) \<le> length (v ?c2)
       \<and> (\<forall>i < length (v ?c1). jobStep (state (v ?c1 ! i)) (state (v ?c2 ! i)))
       \<and> (\<forall>i. length (v ?c1) \<le> i \<and> i < length (v ?c2) \<longrightarrow>
             jobStep (if e_fileExists (jobEnv pipeFailOs i) then PST_IDLE else PST_FILE_NOT_FOUND)
               (state (v ?c2 ! i)))"
    using m r1 r2 by blast
  have fe: "e_fileExists (jobEnv pipeFailOs 1)"
    by (simp add: pipeFailOs_def exampleOs_def exampleJobEnv_def)
  have 2: "jobStep PST_BROKEN_PIPE PST_BROKEN_PIPE"
    using m1[THEN conjunct2, THEN conjunct1, rule_format, of 0] by simp
  have 3: "jobStep PST_IDLE PST_BROKEN_PIPE"
    using m1[THEN conjunct2, THEN conjunct2, rule_format, of 1] fe by simp
  have na: "numAdds (replicate 16 addFileA) \<le> 16"
    unfolding numAdds_def by (rule order_trans[OF length_filter_le]) simp
  have df: "run stallOs (replicate 16 addFileA) initialCtx \<noteq> None" using m' na by auto
  have ia: "isAddFile addFileA" by (simp add: isAddFile_def addFileA_def)
  obtain ht calls where f: "run stallOs (replicate 16 addFileA) initialCtx = Some (runningWith 15 ht calls)"
    using stall_full by blast
  have pd: "procDangles (the (run stallOs (replicate 16 addFileA) initialCtx))"
    unfolding f using runningWith_full[of ht calls] by simp
  have un: "step stallOs addFileA (the (run stallOs (replicate 16 addFileA) initialCtx)) = None"
    using m' ia pd by blast
  have i: "proc idleCtx = Some 0" "0 < length (v idleCtx)" "state (v idleCtx ! 0) = PST_IDLE"
    "fst (processSpawn pipeFailOs 0 idleCtx) = Some PST_BROKEN_PIPE"
    by (simp_all add: idleCtx_def idleJob_def processSpawn_def pipeFailOs_def)
  have t: "terminal PST_BROKEN_PIPE" "jobStep PST_FILE_NOT_FOUND PST_FILE_NOT_FOUND"
    by (simp_all add: terminal_def jobStep_def)
  have 6: "startFailure PST_BROKEN_PIPE
           \<and> processStart pipeFailOs idleCtx = (False, setState 0 PST_BROKEN_PIPE (snd (processSpawn pipeFailOs 0 idleCtx)))"
    using m i by blast
  show ?thesis using r1 r2 2 3 fe na df ia pd un i t 6 by blast
qed

theorem failed_start_skips_running_counterexample:
  "state (v idleCtx ! 0) = PST_IDLE \<and> proc idleCtx = Some 0
   \<and> processStart pipeFailOs idleCtx = (False, setState 0 PST_BROKEN_PIPE idleCtx)
   \<and> state (v (snd (processStart pipeFailOs idleCtx)) ! 0) = PST_BROKEN_PIPE
   \<and> oscalls (snd (processStart pipeFailOs idleCtx)) = []
   \<and> run pipeFailOs [addFileA] initialCtx
       = Some (initialCtx\<lparr>v := [idleJob\<lparr>state := PST_BROKEN_PIPE\<rparr>], capacity := 16, proc := Some 0\<rparr>)
   \<and> oscalls (initialCtx\<lparr>v := [idleJob\<lparr>state := PST_BROKEN_PIPE\<rparr>], capacity := 16, proc := Some 0\<rparr>) = []
   \<and> \<not> spec_jobStep PST_IDLE PST_BROKEN_PIPE"
proof -
  have i: "proc idleCtx = Some 0" "0 < length (v idleCtx)" "state (v idleCtx ! 0) = PST_IDLE"
    "processSpawn pipeFailOs 0 idleCtx = (Some PST_BROKEN_PIPE, idleCtx)"
    by (simp_all add: idleCtx_def idleJob_def processSpawn_def pipeFailOs_def)
  have p: "processStart pipeFailOs idleCtx = (False, setState 0 PST_BROKEN_PIPE idleCtx)"
    using processStart_failed[OF i(1-3), of pipeFailOs PST_BROKEN_PIPE] i(4) by simp
  have s: "state (v (setState 0 PST_BROKEN_PIPE idleCtx) ! 0) = PST_BROKEN_PIPE"
    "oscalls (setState 0 PST_BROKEN_PIPE idleCtx) = []"
    by (simp_all add: setState_def idleCtx_def initialCtx_def)
  have o: "oscalls (initialCtx\<lparr>v := [idleJob\<lparr>state := PST_BROKEN_PIPE\<rparr>], capacity := 16, proc := Some 0\<rparr>) = []"
    by (simp add: initialCtx_def)
  have n: "\<not> spec_jobStep PST_IDLE PST_BROKEN_PIPE" by (simp add: spec_jobStep_def)
  show ?thesis using i(1,3) p s pipeFail_step1 o n by simp
qed

lemma processNext_started:
  assumes nr: "\<forall>p. proc ctx = Some p \<longrightarrow> state (v ctx ! p) \<noteq> PST_RUNNING"
    and f: "findIdle (v ctx) (vi ctx) = Some i"
    and s: "fst (processSpawn os i (ctx\<lparr>proc := Some i, vi := i\<rparr>)) = None"
    and r: "e_readAsync (jobEnv os i)"
  shows "fst (processNext os ctx) = True \<and> state (v (snd (processNext os ctx)) ! i) = PST_RUNNING
         \<and> ovProcRead (snd (processNext os ctx))"
proof -
  let ?cs = "ctx\<lparr>proc := Some i, vi := i\<rparr>"
  have fi: "i < length (v ctx)" "state (v ctx ! i) = PST_IDLE"
    using findIdle_Some[OF f] by simp_all
  have "processNext os ctx = processStart os ?cs"
    using nr by (cases "proc ctx") (simp_all add: processNext_unfold f selectNext_def)
  also have "\<dots> = (True, (setState i PST_RUNNING
                     ((snd (processSpawn os i ?cs))\<lparr>utf8 := \<lparr>cp = 0, rem = 0\<rparr>, outputLen := 0, lastChar := 0\<rparr>))
                  \<lparr>ovProcRead := True\<rparr>)"
    by (rule processStart_started[OF _ _ _ s r]) (use fi in simp_all)
  finally show ?thesis using fi by (simp add: setState_def)
qed

lemma processNext_failed_result:
  assumes nr: "\<forall>p. proc ctx = Some p \<longrightarrow> state (v ctx ! p) \<noteq> PST_RUNNING"
    and f: "findIdle (v ctx) (vi ctx) = Some i"
    and s: "fst (processSpawn os i (ctx\<lparr>proc := Some i, vi := i\<rparr>)) = Some st"
  shows "fst (processNext os ctx) = False
         \<and> v (snd (processNext os ctx)) = (v ctx)[i := (v ctx ! i)\<lparr>state := st\<rparr>]
         \<and> ovProcRead (snd (processNext os ctx)) = ovProcRead ctx"
proof -
  let ?cs = "ctx\<lparr>proc := Some i, vi := i\<rparr>"
  have "ovProcRead (snd (processSpawn os i ?cs)) = ovProcRead ?cs" by (rule processSpawn_frame(2))
  then show ?thesis unfolding processNext_failed[OF nr f s] by (simp add: setState_def)
qed

lemma processHandleReadComplete_end:
  "\<not> (err = 0 \<and> data \<noteq> []) \<Longrightarrow>
     processHandleReadComplete os err data readOk ctx
       = snd (processNext os (snd (processFinish os (ctx\<lparr>ovProcRead := False\<rparr>))))"
  by (auto simp: processHandleReadComplete_def Let_def)

text \<open>Two more files are added while the first job runs, then its output ends.\<close>

definition stallEvents :: "tEvent list" where
  "stallEvents = [addFileA, addFileA, addFileA, ReadComplete 0 [] True]"

lemma stall_run:
  "\<exists>ht calls. run stallOs stallEvents initialCtx
     = Some (initialCtx\<lparr>v := [idleJob\<lparr>state := PST_OK\<rparr>, idleJob\<lparr>state := PST_BROKEN_PIPE\<rparr>, idleJob],
                   capacity := 16, proc := Some 1, vi := 1, h := ht, oscalls := calls\<rparr>)"
proof -
  obtain ht calls where 1: "run stallOs [addFileA] initialCtx = Some (runningWith 0 ht calls)"
    using stall_step1 by (auto simp: runningWith_def)
  have 2: "run stallOs (replicate 2 addFileA) (runningWith 0 ht calls) = Some (runningWith 2 ht calls)"
    using stall_adds_while_running[of 0 2 ht calls] by (simp add: numeral_eq_Suc)
  have "[addFileA, addFileA, addFileA] = [addFileA] @ replicate 2 addFileA" by (simp add: numeral_eq_Suc)
  then have 3: "run stallOs [addFileA, addFileA, addFileA] initialCtx = Some (runningWith 2 ht calls)"
    using 1 2 by (simp only: run_append) simp
  let ?c3 = "runningWith 2 ht calls"
  let ?cf = "initialCtx\<lparr>v := [idleJob\<lparr>state := PST_OK\<rparr>, idleJob, idleJob], capacity := 16,
                         h := ht, oscalls := calls\<rparr>"
  have fin: "snd (processFinish stallOs (?c3\<lparr>ovProcRead := False\<rparr>)) = ?cf"
    by (simp add: processFinish_def runningWith_def stallOs_def exampleOs_def exampleJobEnv_def
          setState_def initialCtx_def numeral_eq_Suc)
  have hd: "processHandleReadComplete stallOs 0 [] True ?c3 = snd (processNext stallOs ?cf)"
    unfolding fin[symmetric] by (simp add: processHandleReadComplete_def)
  have f: "findIdle (v ?cf) (vi ?cf) = Some 1"
    by (simp add: findIdle.simps initialCtx_def idleJob_def)
  have s: "processSpawn stallOs 1 (?cf\<lparr>proc := Some 1, vi := 1\<rparr>)
           = (Some PST_BROKEN_PIPE, ?cf\<lparr>proc := Some 1, vi := 1\<rparr>)"
    by (simp add: processSpawn_def stallOs_def)
  have "processNext stallOs ?cf = (False, setState 1 PST_BROKEN_PIPE (?cf\<lparr>proc := Some 1, vi := 1\<rparr>))"
    using processNext_failed[of ?cf 1 stallOs PST_BROKEN_PIPE] f s by (simp add: initialCtx_def)
  then have n: "snd (processNext stallOs ?cf)
       = initialCtx\<lparr>v := [idleJob\<lparr>state := PST_OK\<rparr>, idleJob\<lparr>state := PST_BROKEN_PIPE\<rparr>, idleJob],
                   capacity := 16, proc := Some 1, vi := 1, h := ht, oscalls := calls\<rparr>"
    by (simp add: setState_def initialCtx_def)
  have o: "ovProcRead ?c3" by (simp add: runningWith_def)
  have "run stallOs ([addFileA, addFileA, addFileA] @ [ReadComplete 0 [] True]) initialCtx
        = step stallOs (ReadComplete 0 [] True) ?c3"
    unfolding run_snoc 3 by simp
  then have "run stallOs stallEvents initialCtx = step stallOs (ReadComplete 0 [] True) ?c3"
    by (simp add: stallEvents_def)
  also have "\<dots> = Some (processHandleReadComplete stallOs 0 [] True ?c3)" using o by simp
  finally show ?thesis unfolding hd n by blast
qed

text \<open>The first job has ended with exit code 0 and two idle jobs are waiting.\<close>

definition finishedCtx :: tIpcWndCtx where
  "finishedCtx = initialCtx\<lparr>v := [idleJob\<lparr>state := PST_OK\<rparr>, idleJob, idleJob], capacity := 16\<rparr>"

text \<open>
  Claim C2. After any sequence of queue operations that stays clear of the undefined
  behaviour of \<^verbatim>\<open>processAddFile\<close>, as every sequence with at most 16 added files does, at
  most one job is running, and \<^verbatim>\<open>processNext\<close> returns false and changes nothing while the
  current job runs. When the output of the running job ends, \<^verbatim>\<open>processFinish\<close> is
  followed by \<^verbatim>\<open>processNext\<close>, which selects the first idle job from the cursor on; if
  that job starts, it is the running one with a read pending. If its start fails,
  \<^verbatim>\<open>processNext\<close> returns false having changed the state of that job only: no other job
  is started and no read is posted, so the idle jobs behind it are left waiting. Adding a
  file is undefined exactly when the vector is full and \<^verbatim>\<open>ctx->proc\<close> is set.
\<close>

theorem queue_advance:
  "(\<forall>c. run os evs initialCtx = Some c \<longrightarrow> runningCount c \<le> 1)
   \<and> (numAdds evs \<le> 16 \<longrightarrow> (\<exists>c. run os evs initialCtx = Some c))
   \<and> (\<forall>c ev. step os ev c = None \<longleftrightarrow> isAddFile ev \<and> procDangles c)
   \<and> (\<forall>ctx p. proc ctx = Some p \<and> p < length (v ctx) \<and> state (v ctx ! p) = PST_RUNNING \<longrightarrow>
         processNext os ctx = (False, ctx))
   \<and> (\<forall>ctx err data readOk. \<not> (err = 0 \<and> data \<noteq> []) \<longrightarrow>
         processHandleReadComplete os err data readOk ctx
           = snd (processNext os (snd (processFinish os (ctx\<lparr>ovProcRead := False\<rparr>)))))
   \<and> (\<forall>ctx i. (\<forall>p. proc ctx = Some p \<longrightarrow> state (v ctx ! p) \<noteq> PST_RUNNING)
           \<and> findIdle (v ctx) (vi ctx) = Some i
           \<and> fst (processSpawn os i (ctx\<lparr>proc := Some i, vi := i\<rparr>)) = None
           \<and> e_readAsync (jobEnv os i) \<longrightarrow>
         fst (processNext os ctx) = True \<and> state (v (snd (processNext os ctx)) ! i) = PST_RUNNING
         \<and> ovProcRead (snd (processNext os ctx)))
   \<and> (\<forall>ctx i st. (\<forall>p. proc ctx = Some p \<longrightarrow> state (v ctx ! p) \<noteq> PST_RUNNING)
           \<and> findIdle (v ctx) (vi ctx) = Some i
           \<and> fst (processSpawn os i (ctx\<lparr>proc := Some i, vi := i\<rparr>)) = Some st \<longrightarrow>
         fst (processNext os ctx) = False
         \<and> v (snd (processNext os ctx)) = (v ctx)[i := (v ctx ! i)\<lparr>state := st\<rparr>]
         \<and> ovProcRead (snd (processNext os ctx)) = ovProcRead ctx)"
proof -
  have 1: "\<forall>c. run os evs initialCtx = Some c \<longrightarrow> runningCount c \<le> 1"
    using run_inv[OF queueInv_initialCtx, of os evs] queueInv_runningCount by blast
  have d1: "numAdds evs \<le> 16 \<longrightarrow> (\<exists>c. run os evs initialCtx = Some c)"
    using run_defined[OF queueInv_initialCtx capInv_initialCtx, of evs os]
    by (simp add: initialCtx_def)
  have d2: "\<forall>c ev. step os ev c = None \<longleftrightarrow> isAddFile ev \<and> procDangles c"
    using step_None by blast
  have 2: "\<forall>ctx p. proc ctx = Some p \<and> p < length (v ctx) \<and> state (v ctx ! p) = PST_RUNNING \<longrightarrow>
         processNext os ctx = (False, ctx)"
    using processNext_running by blast
  have 3: "\<forall>ctx err data readOk. \<not> (err = 0 \<and> data \<noteq> []) \<longrightarrow>
         processHandleReadComplete os err data readOk ctx
           = snd (processNext os (snd (processFinish os (ctx\<lparr>ovProcRead := False\<rparr>))))"
    using processHandleReadComplete_end by blast
  have 4: "\<forall>ctx i. (\<forall>p. proc ctx = Some p \<longrightarrow> state (v ctx ! p) \<noteq> PST_RUNNING)
           \<and> findIdle (v ctx) (vi ctx) = Some i
           \<and> fst (processSpawn os i (ctx\<lparr>proc := Some i, vi := i\<rparr>)) = None
           \<and> e_readAsync (jobEnv os i) \<longrightarrow>
         fst (processNext os ctx) = True \<and> state (v (snd (processNext os ctx)) ! i) = PST_RUNNING
         \<and> ovProcRead (snd (processNext os ctx))"
    using processNext_started by blast
  have 5: "\<forall>ctx i st. (\<forall>p. proc ctx = Some p \<longrightarrow> state (v ctx ! p) \<noteq> PST_RUNNING)
           \<and> findIdle (v ctx) (vi ctx) = Some i
           \<and> fst (processSpawn os i (ctx\<lparr>proc := Some i, vi := i\<rparr>)) = Some st \<longrightarrow>
         fst (processNext os ctx) = False
         \<and> v (snd (processNext os ctx)) = (v ctx)[i := (v ctx ! i)\<lparr>state := st\<rparr>]
         \<and> ovProcRead (snd (processNext os ctx)) = ovProcRead ctx"
    using processNext_failed_result by blast
  show ?thesis using 1 d1 d2 2 3 4 5 by blast
qed

theorem queue_advance_witness:
  "map_option runningCount (run stallOs stallEvents initialCtx) = Some 0
   \<and> map_option (\<lambda>c. map state (v c)) (run stallOs stallEvents initialCtx)
       = Some [PST_OK, PST_BROKEN_PIPE, PST_IDLE]
   \<and> map_option ovProcRead (run stallOs stallEvents initialCtx) = Some False
   \<and> numAdds stallEvents \<le> 16
   \<and> map_option runningCount (run stallOs (replicate 16 addFileA) initialCtx) = Some 1
   \<and> isAddFile addFileA
   \<and> procDangles (the (run stallOs (replicate 16 addFileA) initialCtx))
   \<and> step stallOs addFileA (the (run stallOs (replicate 16 addFileA) initialCtx)) = None
   \<and> run stallOs (replicate 17 addFileA) initialCtx = None
   \<and> proc runningCtx = Some 0 \<and> 0 < length (v runningCtx) \<and> state (v runningCtx ! 0) = PST_RUNNING
   \<and> processNext stallOs runningCtx = (False, runningCtx)
   \<and> processHandleReadComplete stallOs 0 [] True runningCtx
       = snd (processNext stallOs (snd (processFinish stallOs (runningCtx\<lparr>ovProcRead := False\<rparr>))))
   \<and> proc idleCtx = Some 0 \<and> state (v idleCtx ! 0) \<noteq> PST_RUNNING
   \<and> findIdle (v idleCtx) (vi idleCtx) = Some 0
   \<and> fst (processSpawn stallOs 0 (idleCtx\<lparr>proc := Some 0, vi := 0\<rparr>)) = None
   \<and> e_readAsync (jobEnv stallOs 0)
   \<and> fst (processNext stallOs idleCtx) = True
   \<and> state (v (snd (processNext stallOs idleCtx)) ! 0) = PST_RUNNING
   \<and> ovProcRead (snd (processNext stallOs idleCtx))
   \<and> proc finishedCtx = None
   \<and> findIdle (v finishedCtx) (vi finishedCtx) = Some 1
   \<and> fst (processSpawn stallOs 1 (finishedCtx\<lparr>proc := Some 1, vi := 1\<rparr>)) = Some PST_BROKEN_PIPE
   \<and> fst (processNext stallOs finishedCtx) = False
   \<and> map state (v (snd (processNext stallOs finishedCtx))) = [PST_OK, PST_BROKEN_PIPE, PST_IDLE]
   \<and> \<not> ovProcRead (snd (processNext stallOs finishedCtx))"
proof -
  note m = queue_advance[of stallOs stallEvents]
  note m' = queue_advance[of stallOs "replicate 16 addFileA"]
  obtain ht calls where r: "run stallOs stallEvents initialCtx
     = Some (initialCtx\<lparr>v := [idleJob\<lparr>state := PST_OK\<rparr>, idleJob\<lparr>state := PST_BROKEN_PIPE\<rparr>, idleJob],
                   capacity := 16, proc := Some 1, vi := 1, h := ht, oscalls := calls\<rparr>)"
    using stall_run by blast
  have a: "map_option runningCount (run stallOs stallEvents initialCtx) = Some 0"
    "map_option (\<lambda>c. map state (v c)) (run stallOs stallEvents initialCtx)
       = Some [PST_OK, PST_BROKEN_PIPE, PST_IDLE]"
    "map_option ovProcRead (run stallOs stallEvents initialCtx) = Some False"
    unfolding r by (simp_all add: runningCount_def idleJob_def initialCtx_def)
  have na: "numAdds stallEvents \<le> 16" by (simp add: numAdds_def stallEvents_def)
  obtain ht2 calls2 where f: "run stallOs (replicate 16 addFileA) initialCtx = Some (runningWith 15 ht2 calls2)"
    using stall_full by blast
  have u: "map_option runningCount (run stallOs (replicate 16 addFileA) initialCtx) = Some 1"
    "procDangles (the (run stallOs (replicate 16 addFileA) initialCtx))"
    unfolding f using runningWith_full[of ht2 calls2] by simp_all
  have ia: "isAddFile addFileA" by (simp add: isAddFile_def addFileA_def)
  have un: "step stallOs addFileA (the (run stallOs (replicate 16 addFileA) initialCtx)) = None"
    using m' ia u(2) by blast
  have b: "proc runningCtx = Some 0" "0 < length (v runningCtx)" "state (v runningCtx ! 0) = PST_RUNNING"
    by (simp_all add: runningCtx_def exampleJob_def)
  have b': "processNext stallOs runningCtx = (False, runningCtx)" using m b by blast
  have c: "processHandleReadComplete stallOs 0 [] True runningCtx
       = snd (processNext stallOs (snd (processFinish stallOs (runningCtx\<lparr>ovProcRead := False\<rparr>))))"
    using m by blast
  have d: "proc idleCtx = Some 0" "state (v idleCtx ! 0) \<noteq> PST_RUNNING"
    "findIdle (v idleCtx) (vi idleCtx) = Some 0" "e_readAsync (jobEnv stallOs 0)"
    by (simp_all add: idleCtx_def idleJob_def initialCtx_def findIdle.simps stallOs_def exampleOs_def
          exampleJobEnv_def)
  have d2: "fst (processSpawn stallOs 0 (idleCtx\<lparr>proc := Some 0, vi := 0\<rparr>)) = None"
    by (rule stall_spawn0) (simp_all add: idleCtx_def initialCtx_def)
  have dn: "\<forall>p. proc idleCtx = Some p \<longrightarrow> state (v idleCtx ! p) \<noteq> PST_RUNNING"
    using d(1,2) by simp
  have d': "fst (processNext stallOs idleCtx) = True \<and> state (v (snd (processNext stallOs idleCtx)) ! 0) = PST_RUNNING
         \<and> ovProcRead (snd (processNext stallOs idleCtx))"
    using m dn d(3,4) d2 by blast
  have e: "proc finishedCtx = None" "findIdle (v finishedCtx) (vi finishedCtx) = Some 1"
    "fst (processSpawn stallOs 1 (finishedCtx\<lparr>proc := Some 1, vi := 1\<rparr>)) = Some PST_BROKEN_PIPE"
    by (simp_all add: finishedCtx_def initialCtx_def idleJob_def findIdle.simps processSpawn_def stallOs_def)
  have en: "\<forall>p. proc finishedCtx = Some p \<longrightarrow> state (v finishedCtx ! p) \<noteq> PST_RUNNING"
    using e(1) by simp
  have e': "fst (processNext stallOs finishedCtx) = False
         \<and> v (snd (processNext stallOs finishedCtx)) = (v finishedCtx)[1 := (v finishedCtx ! 1)\<lparr>state := PST_BROKEN_PIPE\<rparr>]
         \<and> ovProcRead (snd (processNext stallOs finishedCtx)) = ovProcRead finishedCtx"
    using m en e(2,3) by blast
  have e2: "map state (v (snd (processNext stallOs finishedCtx))) = [PST_OK, PST_BROKEN_PIPE, PST_IDLE]"
    "\<not> ovProcRead (snd (processNext stallOs finishedCtx))"
    using e' by (simp_all add: finishedCtx_def initialCtx_def idleJob_def)
  show ?thesis using a na u ia un stall_undefined b b' c d d2 d' e e' e2 by simp
qed

section \<open>Client pipe (siguwi-process.c)\<close>

definition MAX_CONFIG_STR_LEN :: nat where
  "MAX_CONFIG_STR_LEN = 4 * 1024"

text \<open>
  \<^verbatim>\<open>sizeof(ctx->buf)\<close>, with 2 for \<^verbatim>\<open>sizeof(wchar_t)\<close>; a \<^verbatim>\<open>wchar_t\<close> read from two bytes
  of the buffer (little endian). The array \<^verbatim>\<open>buf\<close> of characters follows a \<^verbatim>\<open>bool\<close> in
  \<^verbatim>\<open>tIpcWndCtx\<close> and the code reads it through a pointer to \<^verbatim>\<open>wchar_t\<close>, which need not
  be aligned; such a read is taken to yield the two bytes, as it does on the processors
  that run Windows.
\<close>

definition ipcBufSize :: nat where
  "ipcBufSize = MAX_CONFIG_STR_LEN * 2"

definition wchar :: "u8 \<Rightarrow> u8 \<Rightarrow> u16" where
  "wchar lo hi = ucast lo OR push_bit 8 (ucast hi)"

text \<open>
  The scan \<^verbatim>\<open>for (; it < endIt && *it != 0; ++it)\<close> over the complete code units of
  the buffer (lines 207 to 213): the string before the first terminator and the bytes
  after it, or \<open>None\<close> when more data is needed.
\<close>

fun scanNul :: "u8 list \<Rightarrow> (wstr \<times> u8 list) option" where
  "scanNul (lo # hi # rest) =
     (if wchar lo hi = 0 then Some ([], rest)
      else (case scanNul rest of None \<Rightarrow> None | Some (s, r) \<Rightarrow> Some (wchar lo hi # s, r)))"
| "scanNul [b] = None"
| "scanNul [] = None"

text \<open>
  The answers of the operating system to one call of \<^verbatim>\<open>ipcHandleReadComplete\<close> or to
  the acceptance of a client: whether \<^verbatim>\<open>ReadFileEx\<close> can post the next read, what
  \<^verbatim>\<open>ConnectNamedPipe\<close> reports in \<^verbatim>\<open>ipcListen\<close> (an error, \<^verbatim>\<open>ERROR_IO_PENDING\<close> or
  \<^verbatim>\<open>ERROR_PIPE_CONNECTED\<close>), and whether the read that \<^verbatim>\<open>ipcListen\<close> posts for a client
  that is already connected succeeds.
\<close>

datatype tConnect = ConnectFailed | ConnectPending | ConnectConnected

record tIpcEnv =
  i_readOk :: bool
  i_connect :: tConnect
  i_listenReadOk :: bool

text \<open>
  \<^verbatim>\<open>ipcReadAsync\<close> posts a read of at most \<^verbatim>\<open>sizeof(ctx->buf) - ctx->bufLen\<close> bytes behind
  the bytes already in the buffer.
\<close>

definition ipcReadAsync :: "bool \<Rightarrow> tIpcWndCtx \<Rightarrow> bool \<times> tIpcWndCtx" where
  "ipcReadAsync ok ctx = (ok, ctx\<lparr>waitForClient := False, ovRead := ok\<rparr>)"

definition ipcReadCapacity :: "tIpcWndCtx \<Rightarrow> nat" where
  "ipcReadCapacity ctx = ipcBufSize - length (buf ctx)"

definition ipcListen :: "tIpcEnv \<Rightarrow> tIpcWndCtx \<Rightarrow> bool \<times> tIpcWndCtx" where
  "ipcListen ie ctx =
     (let ctx1 = addCalls [ConnectNamedPipe]
                   (ctx\<lparr>buf := [], ipcState := IST_CERT_ID,
                        cfg := \<lparr>cert = \<lparr>certId = None, cardName = None, cardReader = None\<rparr>,
                                cfg_signApp = None\<rparr>,
                        cfgBase := None\<rparr>)
      in case i_connect ie of
           ConnectFailed \<Rightarrow> (False, ctx1)
         | ConnectConnected \<Rightarrow> ipcReadAsync (i_listenReadOk ie) ctx1
         | ConnectPending \<Rightarrow> (True, ctx1\<lparr>waitForClient := True\<rparr>))"

text \<open>
  The exits of \<^verbatim>\<open>ipcHandleReadComplete\<close>: \<^verbatim>\<open>onError\<close> closes the pipe,
  \<^verbatim>\<open>onProtocolError\<close> disconnects the client and listens again.
\<close>

definition onError :: "tIpcWndCtx \<Rightarrow> tIpcWndCtx" where
  "onError ctx = addCalls [CloseHandle_hPipe] (ctx\<lparr>hPipe := False\<rparr>)"

definition onProtocolError :: "tIpcEnv \<Rightarrow> tIpcWndCtx \<Rightarrow> tIpcWndCtx" where
  "onProtocolError ie ctx =
     (case ipcListen ie (addCalls [DisconnectNamedPipe] ctx) of
        (True, ctx1) \<Rightarrow> ctx1
      | (False, ctx1) \<Rightarrow> onError ctx1)"

text \<open>
  The end of the loop body (lines 244 to 262) for a string that was stored in a field:
  the string is removed from the buffer and, once a file name has been read, the file is
  added. \<open>None\<close> is the undefined behaviour of \<^verbatim>\<open>processAddFile\<close>. The copies of the
  strings (\<^verbatim>\<open>wcsdup\<close>, \<^verbatim>\<open>rws_create\<close>) are taken to succeed.
\<close>

definition fieldDone ::
    "tOs \<Rightarrow> wstr option \<Rightarrow> u8 list \<Rightarrow> tIpcWndCtx \<Rightarrow> (bool \<times> wstr option \<times> tIpcWndCtx) option" where
  "fieldDone os file rest ctx =
     (let ctx1 = ctx\<lparr>buf := rest\<rparr>
      in case file of
           None \<Rightarrow> Some (True, None, ctx1)
         | Some f \<Rightarrow>
             (case processAddFile os (cfgBase ctx1) (cfg_signApp (cfg ctx1)) f ctx1 of
                None \<Rightarrow> None
              | Some (ok, ctx2) \<Rightarrow> Some (ok, file, ctx2)))"

text \<open>
  One turn of the loop (lines 214 to 262) for the string \<open>start\<close> found in the buffer and
  the bytes \<open>rest\<close> after it: whether the loop goes on (\<open>False\<close> is the jump to
  \<^verbatim>\<open>onError\<close>), the variable \<^verbatim>\<open>file\<close> and the context.
\<close>

definition ipcToken ::
    "tOs \<Rightarrow> wstr option \<Rightarrow> wstr \<Rightarrow> u8 list \<Rightarrow> tIpcWndCtx \<Rightarrow> (bool \<times> wstr option \<times> tIpcWndCtx) option" where
  "ipcToken os file start rest ctx =
     (case ipcState ctx of
        IST_CERT_ID \<Rightarrow>
          fieldDone os file rest
            (ctx\<lparr>ipcState := IST_CARD_NAME,
                 cfg := (cfg ctx)\<lparr>cert := (cert (cfg ctx))\<lparr>certId := Some start\<rparr>\<rparr>\<rparr>)
      | IST_CARD_NAME \<Rightarrow>
          fieldDone os file rest
            (ctx\<lparr>ipcState := IST_CARD_READER,
                 cfg := (cfg ctx)\<lparr>cert := (cert (cfg ctx))\<lparr>cardName := Some start\<rparr>\<rparr>\<rparr>)
      | IST_CARD_READER \<Rightarrow>
          fieldDone os file rest
            (ctx\<lparr>ipcState := IST_SIGN_APP,
                 cfg := (cfg ctx)\<lparr>cert := (cert (cfg ctx))\<lparr>cardReader := Some start\<rparr>\<rparr>\<rparr>)
      | IST_SIGN_APP \<Rightarrow>
          (let ctx1 = ctx\<lparr>ipcState := IST_FILE, cfgBase := rcIniConfigBaseCreate (cert (cfg ctx)),
                          cfg := (cfg ctx)\<lparr>cfg_signApp := Some start\<rparr>\<rparr>
           in if cfgBase ctx1 = None then Some (False, file, ctx1)
              else Some (True, file, ctx1\<lparr>buf := rest\<rparr>))
      | IST_FILE \<Rightarrow> fieldDone os (Some start) rest ctx)"

lemma scanNul_length: "scanNul x = Some (s, r) \<Longrightarrow> length r < length x"
proof (induction x arbitrary: s r rule: scanNul.induct)
  case (1 lo hi rest)
  show ?case
  proof (cases "wchar lo hi = 0")
    case True
    then show ?thesis using "1.prems" by auto
  next
    case False
    then obtain s' where "scanNul rest = Some (s', r)"
      using "1.prems" by (auto split: option.splits)
    then show ?thesis using "1.IH"[OF False] by fastforce
  qed
qed simp_all

lemma processAddFile_fields:
  assumes "processAddFile os c sApp fpath ctx = Some (ok, ctx')"
  shows "hPipe ctx' = hPipe ctx" "waitForClient ctx' = waitForClient ctx" "ovRead ctx' = ovRead ctx"
    "buf ctx' = buf ctx" "cfg ctx' = cfg ctx" "cfgBase ctx' = cfgBase ctx" "ipcState ctx' = ipcState ctx"
proof -
  have "hPipe ctx' = hPipe ctx \<and> waitForClient ctx' = waitForClient ctx \<and> ovRead ctx' = ovRead ctx
        \<and> buf ctx' = buf ctx \<and> cfg ctx' = cfg ctx \<and> cfgBase ctx' = cfgBase ctx
        \<and> ipcState ctx' = ipcState ctx"
  proof (cases "\<exists>c' s'. c = Some c' \<and> sApp = Some s'")
    case False
    then have "processAddFile os c sApp fpath ctx = Some (False, ctx)"
      by (cases c; cases sApp) (simp_all add: processAddFile_def)
    then show ?thesis using assms by simp
  next
    case True
    then obtain c' s' where cs: "c = Some c'" "sApp = Some s'" by blast
    have "ctx' = snd (processNext os (snd (vec_pushBack (newItem os c' s' fpath ctx) ctx)))"
      using assms by (simp add: cs processAddFile_unfold split: if_splits)
    then show ?thesis by (simp add: vec_pushBack_def)
  qed
  then show "hPipe ctx' = hPipe ctx" "waitForClient ctx' = waitForClient ctx" "ovRead ctx' = ovRead ctx"
    "buf ctx' = buf ctx" "cfg ctx' = cfg ctx" "cfgBase ctx' = cfgBase ctx" "ipcState ctx' = ipcState ctx"
    by simp_all
qed

lemma fieldDone_buf: "fieldDone os file rest ctx = Some (ok, file', ctx') \<Longrightarrow> buf ctx' = rest"
proof -
  assume a: "fieldDone os file rest ctx = Some (ok, file', ctx')"
  show ?thesis
  proof (cases "file")
    case None
    then show ?thesis using a by (auto simp: fieldDone_def)
  next
    case (Some f)
    then obtain ok2 where "processAddFile os (cfgBase (ctx\<lparr>buf := rest\<rparr>)) (cfg_signApp (cfg (ctx\<lparr>buf := rest\<rparr>))) f (ctx\<lparr>buf := rest\<rparr>)
        = Some (ok2, ctx')"
      using a by (auto simp: fieldDone_def Let_def split: option.splits)
    then show ?thesis using processAddFile_fields(4) by fastforce
  qed
qed

lemma ipcToken_buf:
  "ipcToken os file start rest ctx = Some (True, file', ctx') \<Longrightarrow> buf ctx' = rest"
  by (cases "ipcState ctx") (auto simp: ipcToken_def Let_def dest: fieldDone_buf split: if_splits)

text \<open>
  The loop \<^verbatim>\<open>while (ctx->bufLen > 0)\<close> (lines 206 to 263) with the variable \<^verbatim>\<open>file\<close>:
  \<open>Some (True, ctx)\<close> when it is left for more data, \<open>Some (False, ctx)\<close> on the jump to
  \<^verbatim>\<open>onError\<close>.
\<close>

function ipcLoop :: "tOs \<Rightarrow> wstr option \<Rightarrow> tIpcWndCtx \<Rightarrow> (bool \<times> tIpcWndCtx) option" where
  "ipcLoop os file ctx =
     (case scanNul (buf ctx) of
        None \<Rightarrow> Some (True, ctx)
      | Some (start, rest) \<Rightarrow>
          (case ipcToken os file start rest ctx of
             None \<Rightarrow> None
           | Some (goOn, file', ctx') \<Rightarrow>
               if goOn then ipcLoop os file' ctx' else Some (False, ctx')))"
  by pat_completeness auto
termination
proof (relation "measure (\<lambda>(os, file, ctx). length (buf ctx))")
  show "wf (measure (\<lambda>(os, file, ctx). length (buf ctx)))" by simp
next
  fix os fl ctx x2 start rest x2a goOn y fl' ctx'
  assume a: "scanNul (buf ctx) = Some x2" "(start, rest) = x2"
    "ipcToken os fl start rest ctx = Some x2a" "(goOn, y) = x2a" "(fl', ctx') = y" "goOn"
  have s: "scanNul (buf ctx) = Some (start, rest)" using a(1,2) by simp
  have t: "ipcToken os fl start rest ctx = Some (True, fl', ctx')" using a(3-6) by auto
  show "((os, fl', ctx'), os, fl, ctx) \<in> measure (\<lambda>(os, file, ctx). length (buf ctx))"
    using ipcToken_buf[OF t] scanNul_length[OF s] by simp
qed

declare ipcLoop.simps [simp del]

text \<open>
  \<^verbatim>\<open>ipcHandleReadComplete\<close>: the completion of a read with the bytes \<open>data\<close> transferred
  (\<^verbatim>\<open>dwNumberOfBytesTransfered\<close> is their number), which the system has stored behind the
  bytes already in the buffer.
\<close>

definition ipcHandleReadComplete ::
    "tOs \<Rightarrow> tIpcEnv \<Rightarrow> u32 \<Rightarrow> u8 list \<Rightarrow> tIpcWndCtx \<Rightarrow> tIpcWndCtx option" where
  "ipcHandleReadComplete os ie dwErrorCode data ctx0 =
     (let ctx = ctx0\<lparr>ovRead := False\<rparr>
      in if dwErrorCode = 0 \<and> data \<noteq> [] then
           (case ipcLoop os None (ctx\<lparr>buf := buf ctx @ data\<rparr>) of
              None \<Rightarrow> None
            | Some (goOn, ctx1) \<Rightarrow>
                if \<not> goOn then Some (onError ctx1)
                else (case ipcReadAsync (i_readOk ie) ctx1 of
                        (True, ctx2) \<Rightarrow> Some ctx2
                      | (False, ctx2) \<Rightarrow> Some (onProtocolError ie ctx2)))
         else Some (onProtocolError ie ctx))"

section \<open>Properties of the client pipe\<close>

lemma wchar_eq_0: "wchar lo hi = 0 \<longleftrightarrow> lo = 0 \<and> hi = 0"
proof
  assume a: "wchar lo hi = 0"
  have "ucast (wchar lo hi) = lo" unfolding wchar_def
    by (rule bit_word_eqI) (auto simp: bit_simps)
  moreover have "ucast (drop_bit 8 (wchar lo hi)) = hi" unfolding wchar_def
    by (rule bit_word_eqI) (auto simp: bit_simps dest: bit_imp_le_length)
  ultimately show "lo = 0 \<and> hi = 0" using a by auto
next
  assume "lo = 0 \<and> hi = 0"
  then show "wchar lo hi = 0" by (simp add: wchar_def)
qed

lemma scanNul_append: "scanNul x = Some (s, r) \<Longrightarrow> scanNul (x @ y) = Some (s, r @ y)"
proof (induction x arbitrary: s r rule: scanNul.induct)
  case (1 lo hi rest)
  show ?case
  proof (cases "wchar lo hi = 0")
    case True
    then show ?thesis using "1.prems" by auto
  next
    case False
    then obtain s' where a: "scanNul rest = Some (s', r)" "s = wchar lo hi # s'"
      using "1.prems" by (auto split: option.splits)
    show ?thesis using "1.IH"[OF False a(1)] False a(2) by simp
  qed
qed simp_all

lemma scanNul_prefix_None: "scanNul (x @ y) = None \<Longrightarrow> scanNul x = None"
  using scanNul_append[of x _ _ y] by (cases "scanNul x") auto

lemma scanNul_None:
  "(\<forall>i < length x div 2. \<not> (x ! (2 * i) = 0 \<and> x ! (2 * i + 1) = 0)) \<Longrightarrow> scanNul x = None"
proof (induction x rule: scanNul.induct)
  case (1 lo hi rest)
  have h: "\<not> (lo = 0 \<and> hi = 0)" using "1.prems"[rule_format, of 0] by simp
  then have nz: "wchar lo hi \<noteq> 0" by (simp add: wchar_eq_0)
  have "\<forall>i < length rest div 2. \<not> (rest ! (2 * i) = 0 \<and> rest ! (2 * i + 1) = 0)"
  proof (intro allI impI)
    fix i assume "i < length rest div 2"
    then have "Suc i < length (lo # hi # rest) div 2" by simp
    then have "\<not> ((lo # hi # rest) ! (2 * Suc i) = 0 \<and> (lo # hi # rest) ! (2 * Suc i + 1) = 0)"
      using "1.prems" by blast
    then show "\<not> (rest ! (2 * i) = 0 \<and> rest ! (2 * i + 1) = 0)" by simp
  qed
  then have "scanNul rest = None" using "1.IH"[OF nz] by simp
  then show ?case using nz by simp
qed simp_all

lemma ipcLoop_more_data: "scanNul (buf ctx) = None \<Longrightarrow> ipcLoop os fl ctx = Some (True, ctx)"
  by (subst ipcLoop.simps) simp

text \<open>Successive completions of reads, each with the bytes of one chunk.\<close>

fun ipcFeed :: "tOs \<Rightarrow> tIpcEnv \<Rightarrow> u8 list list \<Rightarrow> tIpcWndCtx \<Rightarrow> tIpcWndCtx option" where
  "ipcFeed os ie [] ctx = Some ctx"
| "ipcFeed os ie (d # ds) ctx =
     (case ipcHandleReadComplete os ie 0 d ctx of None \<Rightarrow> None | Some ctx' \<Rightarrow> ipcFeed os ie ds ctx')"

lemma ipcHandleReadComplete_more_data:
  assumes "scanNul (buf ctx @ d) = None" and "d \<noteq> []" and "i_readOk ie"
  shows "ipcHandleReadComplete os ie 0 d ctx
         = Some (ctx\<lparr>waitForClient := False, ovRead := True, buf := buf ctx @ d\<rparr>)"
proof -
  have "ipcLoop os None (ctx\<lparr>ovRead := False, buf := buf ctx @ d\<rparr>)
        = Some (True, ctx\<lparr>ovRead := False, buf := buf ctx @ d\<rparr>)"
    by (rule ipcLoop_more_data) (simp add: assms(1))
  then show ?thesis using assms(2,3)
    by (cases ctx) (simp add: ipcHandleReadComplete_def ipcReadAsync_def)
qed

lemma ipcFeed_more_data:
  assumes "scanNul (buf ctx @ concat chunks) = None" and "\<forall>d \<in> set chunks. d \<noteq> []"
    and "i_readOk ie" and "chunks \<noteq> []"
  shows "ipcFeed os ie chunks ctx
         = Some (ctx\<lparr>waitForClient := False, ovRead := True, buf := buf ctx @ concat chunks\<rparr>)"
  using assms
proof (induction chunks arbitrary: ctx)
  case Nil
  then show ?case by simp
next
  case (Cons d ds)
  let ?c1 = "ctx\<lparr>waitForClient := False, ovRead := True, buf := buf ctx @ d\<rparr>"
  have "scanNul ((buf ctx @ d) @ concat ds) = None" using Cons.prems(1) by simp
  then have n1: "scanNul (buf ctx @ d) = None" by (rule scanNul_prefix_None)
  have d: "d \<noteq> []" using Cons.prems(2) by simp
  have h: "ipcHandleReadComplete os ie 0 d ctx = Some ?c1"
    by (rule ipcHandleReadComplete_more_data[OF n1 d Cons.prems(3)])
  show ?case
  proof (cases "ds = []")
    case True
    then show ?thesis using h by simp
  next
    case False
    have "ipcFeed os ie ds ?c1
          = Some (?c1\<lparr>waitForClient := False, ovRead := True, buf := buf ?c1 @ concat ds\<rparr>)"
      by (rule Cons.IH) (use Cons.prems False in simp_all)
    then show ?thesis using h by (cases ctx) simp
  qed
qed

lemma onProtocolError_result:
  "v (onProtocolError ie ctx) = v ctx \<and> buf (onProtocolError ie ctx) = []
   \<and> ipcState (onProtocolError ie ctx) = IST_CERT_ID \<and> cfgBase (onProtocolError ie ctx) = None
   \<and> take (length (oscalls ctx) + 2) (oscalls (onProtocolError ie ctx))
       = oscalls ctx @ [DisconnectNamedPipe, ConnectNamedPipe]
   \<and> (i_connect ie = ConnectPending \<longrightarrow>
        waitForClient (onProtocolError ie ctx) \<and> hPipe (onProtocolError ie ctx) = hPipe ctx
        \<and> ovRead (onProtocolError ie ctx) = ovRead ctx
        \<and> oscalls (onProtocolError ie ctx) = oscalls ctx @ [DisconnectNamedPipe, ConnectNamedPipe])"
  by (cases "i_connect ie"; cases "i_listenReadOk ie")
     (simp_all add: onProtocolError_def ipcListen_def ipcReadAsync_def addCalls_def onError_def Let_def)

text \<open>
  Claim C9. A client is connected, a read is pending and the buffer is empty. It sends
  8192 bytes of which no code unit is 0, which arrive in any number of reads. Then no
  string is found, the buffer holds all the bytes, the state of the protocol and the jobs
  are as before, and the read that is pending has room for no byte. However that read
  completes, with no byte transferred the connection counts as lost: the client is
  disconnected, \<^verbatim>\<open>ipcListen\<close> empties the buffer and waits for the next client, and no job
  has been created.
\<close>

theorem unterminated_data_fills_buffer:
  assumes "ovRead ctx" and "buf ctx = []"
    and "concat chunks = bytes" and "\<forall>d \<in> set chunks. d \<noteq> []"
    and "length bytes = 8192"
    and "\<forall>i < 4096. \<not> (bytes ! (2 * i) = 0 \<and> bytes ! (2 * i + 1) = 0)"
    and "i_readOk ie"
  shows "ipcFeed os ie chunks ctx = Some (ctx\<lparr>waitForClient := False, ovRead := True, buf := bytes\<rparr>)
       \<and> ipcReadCapacity (ctx\<lparr>waitForClient := False, ovRead := True, buf := bytes\<rparr>) = 0
       \<and> (\<forall>err data. length data \<le> ipcReadCapacity (ctx\<lparr>waitForClient := False, ovRead := True, buf := bytes\<rparr>) \<longrightarrow>
            (\<exists>c. ipcHandleReadComplete os ie err data (ctx\<lparr>waitForClient := False, ovRead := True, buf := bytes\<rparr>) = Some c
               \<and> v c = v ctx \<and> buf c = [] \<and> ipcState c = IST_CERT_ID
               \<and> take (length (oscalls ctx) + 2) (oscalls c)
                   = oscalls ctx @ [DisconnectNamedPipe, ConnectNamedPipe]
               \<and> (i_connect ie = ConnectPending \<longrightarrow>
                    waitForClient c \<and> \<not> ovRead c \<and> hPipe c = hPipe ctx
                    \<and> oscalls c = oscalls ctx @ [DisconnectNamedPipe, ConnectNamedPipe])))"
proof -
  let ?c = "ctx\<lparr>waitForClient := False, ovRead := True, buf := bytes\<rparr>"
  have n: "scanNul bytes = None" by (rule scanNul_None) (use assms(5,6) in simp)
  have ne: "chunks \<noteq> []" using assms(3,5) by auto
  have "ipcFeed os ie chunks ctx
         = Some (ctx\<lparr>waitForClient := False, ovRead := True, buf := buf ctx @ concat chunks\<rparr>)"
    by (rule ipcFeed_more_data) (simp_all add: assms n ne)
  then have 1: "ipcFeed os ie chunks ctx = Some ?c" by (simp add: assms(2,3))
  have 2: "ipcReadCapacity ?c = 0"
    by (simp add: ipcReadCapacity_def ipcBufSize_def MAX_CONFIG_STR_LEN_def assms(5))
  have 3: "\<exists>c. ipcHandleReadComplete os ie err data ?c = Some c
               \<and> v c = v ctx \<and> buf c = [] \<and> ipcState c = IST_CERT_ID
               \<and> take (length (oscalls ctx) + 2) (oscalls c)
                   = oscalls ctx @ [DisconnectNamedPipe, ConnectNamedPipe]
               \<and> (i_connect ie = ConnectPending \<longrightarrow>
                    waitForClient c \<and> \<not> ovRead c \<and> hPipe c = hPipe ctx
                    \<and> oscalls c = oscalls ctx @ [DisconnectNamedPipe, ConnectNamedPipe])"
    if "length data \<le> ipcReadCapacity ?c" for err data
  proof -
    have d: "data = []" using that 2 by simp
    have h: "ipcHandleReadComplete os ie err data ?c = Some (onProtocolError ie (?c\<lparr>ovRead := False\<rparr>))"
      by (simp add: ipcHandleReadComplete_def d)
    show ?thesis unfolding h using onProtocolError_result[of ie "?c\<lparr>ovRead := False\<rparr>"] by simp
  qed
  show ?thesis using 1 2 3 by blast
qed


text \<open>
  An example: the pipe answers every call, the client is connected with a read pending,
  and the 8192 bytes arrive in two reads of 4095 and 4097 bytes.
\<close>

definition exampleIpcEnv :: tIpcEnv where
  "exampleIpcEnv = \<lparr>i_readOk = True, i_connect = ConnectPending, i_listenReadOk = True\<rparr>"

definition connectedCtx :: tIpcWndCtx where
  "connectedCtx = initialCtx\<lparr>waitForClient := False, ovRead := True\<rparr>"

theorem unterminated_data_fills_buffer_witness:
  "ovRead connectedCtx \<and> buf connectedCtx = []
   \<and> concat [replicate 4095 65, replicate 4097 65] = replicate 8192 (65 :: u8)
   \<and> length (replicate 8192 (65 :: u8)) = 8192
   \<and> i_readOk exampleIpcEnv \<and> i_connect exampleIpcEnv = ConnectPending
   \<and> ipcFeed exampleOs exampleIpcEnv [replicate 4095 65, replicate 4097 65] connectedCtx
       = Some (connectedCtx\<lparr>buf := replicate 8192 65\<rparr>)
   \<and> ipcReadCapacity (connectedCtx\<lparr>buf := replicate 8192 65\<rparr>) = 0
   \<and> (\<exists>c. ipcHandleReadComplete exampleOs exampleIpcEnv 0 [] (connectedCtx\<lparr>buf := replicate 8192 65\<rparr>) = Some c
         \<and> v c = [] \<and> buf c = [] \<and> ipcState c = IST_CERT_ID
         \<and> waitForClient c \<and> \<not> ovRead c \<and> hPipe c
         \<and> oscalls c = [DisconnectNamedPipe, ConnectNamedPipe])"
proof -
  have c: "concat [replicate 4095 65, replicate 4097 65] = replicate 8192 (65 :: u8)"
    by (simp add: replicate_add[symmetric])
  have e: "connectedCtx\<lparr>waitForClient := False, ovRead := True, buf := replicate 8192 65\<rparr>
           = connectedCtx\<lparr>buf := replicate 8192 65\<rparr>"
    by (simp add: connectedCtx_def)
  have h: "ovRead connectedCtx" "buf connectedCtx = []" "i_readOk exampleIpcEnv"
    "i_connect exampleIpcEnv = ConnectPending" "v connectedCtx = []" "oscalls connectedCtx = []"
    "hPipe connectedCtx"
    by (simp_all add: connectedCtx_def initialCtx_def exampleIpcEnv_def)
  have n: "\<forall>i < 4096. \<not> (replicate 8192 (65 :: u8) ! (2 * i) = 0 \<and> replicate 8192 (65 :: u8) ! (2 * i + 1) = 0)"
    by simp
  have d: "\<forall>d \<in> set [replicate 4095 (65 :: u8), replicate 4097 65]. d \<noteq> []" by simp
  note m = unterminated_data_fills_buffer[OF h(1,2) c d _ n h(3), of exampleOs, unfolded e]
  have m': "ipcFeed exampleOs exampleIpcEnv [replicate 4095 65, replicate 4097 65] connectedCtx
       = Some (connectedCtx\<lparr>buf := replicate 8192 65\<rparr>)
     \<and> ipcReadCapacity (connectedCtx\<lparr>buf := replicate 8192 65\<rparr>) = 0
     \<and> (\<forall>err data. length data \<le> ipcReadCapacity (connectedCtx\<lparr>buf := replicate 8192 65\<rparr>) \<longrightarrow>
            (\<exists>c. ipcHandleReadComplete exampleOs exampleIpcEnv err data (connectedCtx\<lparr>buf := replicate 8192 65\<rparr>) = Some c
               \<and> v c = v connectedCtx \<and> buf c = [] \<and> ipcState c = IST_CERT_ID
               \<and> take (length (oscalls connectedCtx) + 2) (oscalls c)
                   = oscalls connectedCtx @ [DisconnectNamedPipe, ConnectNamedPipe]
               \<and> (i_connect exampleIpcEnv = ConnectPending \<longrightarrow>
                    waitForClient c \<and> \<not> ovRead c \<and> hPipe c = hPipe connectedCtx
                    \<and> oscalls c = oscalls connectedCtx @ [DisconnectNamedPipe, ConnectNamedPipe])))"
    by (rule m) simp
  have f: "ipcFeed exampleOs exampleIpcEnv [replicate 4095 65, replicate 4097 65] connectedCtx
       = Some (connectedCtx\<lparr>buf := replicate 8192 65\<rparr>)"
    and z: "ipcReadCapacity (connectedCtx\<lparr>buf := replicate 8192 65\<rparr>) = 0"
    using m' by blast+
  have "length ([] :: u8 list) \<le> ipcReadCapacity (connectedCtx\<lparr>buf := replicate 8192 65\<rparr>)" by simp
  then obtain c' where r: "ipcHandleReadComplete exampleOs exampleIpcEnv 0 [] (connectedCtx\<lparr>buf := replicate 8192 65\<rparr>) = Some c'"
      "v c' = v connectedCtx" "buf c' = []" "ipcState c' = IST_CERT_ID"
      "i_connect exampleIpcEnv = ConnectPending \<longrightarrow>
                    waitForClient c' \<and> \<not> ovRead c' \<and> hPipe c' = hPipe connectedCtx
                    \<and> oscalls c' = oscalls connectedCtx @ [DisconnectNamedPipe, ConnectNamedPipe]"
    using m' by blast
  have r': "waitForClient c'" "\<not> ovRead c'" "hPipe c'" "oscalls c' = [DisconnectNamedPipe, ConnectNamedPipe]"
    "v c' = []"
    using r(2,5) h(4-7) by simp_all
  show ?thesis using c h(1-4) f z r(1,3,4) r' by simp
qed

section \<open>Verification of the client (siguwi-process.c, ipcIsValidProcess)\<close>

text \<open>
  \<^verbatim>\<open>_wcsicmp\<close> of the C library compares the strings after \<^verbatim>\<open>towlower\<close>. The program
  never calls \<^verbatim>\<open>setlocale\<close>, so the locale is the C locale, in which \<^verbatim>\<open>towlower\<close> changes
  the letters A to Z only. The result is the sign of the first difference.
\<close>

definition towlower :: "u16 \<Rightarrow> u16" where
  "towlower c = (if 0x41 \<le> c \<and> c \<le> 0x5A then c + 0x20 else c)"

fun wcsicmp :: "wstr \<Rightarrow> wstr \<Rightarrow> int" where
  "wcsicmp [] [] = 0"
| "wcsicmp [] (y # ys) = - 1"
| "wcsicmp (x # xs) [] = 1"
| "wcsicmp (x # xs) (y # ys) =
     (if towlower x = towlower y then wcsicmp xs ys else if towlower x < towlower y then - 1 else 1)"

definition MAX_PATH :: nat where
  "MAX_PATH = 260"

text \<open>
  What the operating system knows about the peer of the pipe: the process id that
  \<^verbatim>\<open>GetNamedPipeClientProcessId\<close> yields (\<open>None\<close> when the call fails), whether
  \<^verbatim>\<open>OpenProcess\<close> opens the process with that id, and the image path of that process which
  \<^verbatim>\<open>GetModuleFileNameExW\<close> yields (\<open>None\<close> when the call fails).
\<close>

record tPeerEnv =
  GetNamedPipeClientProcessId :: "nat option"
  OpenProcess :: "nat \<Rightarrow> bool"
  GetModuleFileNameExW :: "nat \<Rightarrow> wstr option"

text \<open>
  \<^verbatim>\<open>ipcIsValidProcess\<close> (lines 141 to 162) with the global \<^verbatim>\<open>exePath\<close> as an argument and
  \<open>pipeOpen\<close> telling whether the handle is valid. The array \<^verbatim>\<open>peerPath\<close> has \<^verbatim>\<open>MAX_PATH\<close>
  elements, but the size passed to \<^verbatim>\<open>GetModuleFileNameExW\<close> is \<^verbatim>\<open>sizeof(peerPath)\<close>, the
  number of bytes: a path of \<^verbatim>\<open>MAX_PATH\<close> or more characters is written over the end of the
  array, which is undefined behaviour (\<open>None\<close>).
\<close>

definition ipcIsValidProcess :: "wstr \<Rightarrow> tPeerEnv \<Rightarrow> bool \<Rightarrow> bool option" where
  "ipcIsValidProcess exePath pe pipeOpen =
     (if \<not> pipeOpen then Some False
      else case GetNamedPipeClientProcessId pe of
             None \<Rightarrow> Some False
           | Some peerPid \<Rightarrow>
               if \<not> OpenProcess pe peerPid then Some False
               else case GetModuleFileNameExW pe peerPid of
                      None \<Rightarrow> Some False
                    | Some peerPath \<Rightarrow>
                        if MAX_PATH \<le> length peerPath then None
                        else Some (wcsicmp exePath peerPath = 0))"

text \<open>
  The handling of a new client in the message loop of \<^verbatim>\<open>showProcess\<close> (lines 1122 to
  1141), which is reached only while \<^verbatim>\<open>ctx.waitForClient\<close> is set and the event of
  \<^verbatim>\<open>ovClient\<close> is signalled. \<open>connected\<close> is
  \<^verbatim>\<open>ok || GetLastError() == ERROR_PIPE_CONNECTED\<close>. The flag of the result is \<open>False\<close> for
  the jump to \<^verbatim>\<open>onError\<close>, which leaves \<^verbatim>\<open>showProcess\<close>.
\<close>

definition acceptClient ::
    "wstr \<Rightarrow> tPeerEnv \<Rightarrow> tIpcEnv \<Rightarrow> bool \<Rightarrow> tIpcWndCtx \<Rightarrow> (bool \<times> tIpcWndCtx) option" where
  "acceptClient exePath pe ie connected ctx =
     (if connected
      then (case ipcIsValidProcess exePath pe (hPipe ctx) of
              None \<Rightarrow> None
            | Some valid \<Rightarrow>
                if valid
                then (case ipcReadAsync (i_readOk ie) ctx of
                        (True, ctx1) \<Rightarrow> Some (True, ctx1)
                      | (False, ctx1) \<Rightarrow> Some (ipcListen ie (addCalls [DisconnectNamedPipe] ctx1)))
                else Some (ipcListen ie (addCalls [DisconnectNamedPipe] ctx)))
      else Some (ipcListen ie (addCalls [DisconnectNamedPipe] ctx)))"

lemma wcsicmp_eq: "wcsicmp a b = 0 \<longleftrightarrow> map towlower a = map towlower b"
  by (induction a b rule: wcsicmp.induct) simp_all

lemma ipcListen_result:
  "v (snd (ipcListen ie ctx)) = v ctx \<and> buf (snd (ipcListen ie ctx)) = []
   \<and> ipcState (snd (ipcListen ie ctx)) = IST_CERT_ID \<and> cfgBase (snd (ipcListen ie ctx)) = None
   \<and> hPipe (snd (ipcListen ie ctx)) = hPipe ctx
   \<and> oscalls (snd (ipcListen ie ctx)) = oscalls ctx @ [ConnectNamedPipe]
   \<and> (i_connect ie = ConnectPending \<longrightarrow>
        fst (ipcListen ie ctx) \<and> waitForClient (snd (ipcListen ie ctx))
        \<and> ovRead (snd (ipcListen ie ctx)) = ovRead ctx)
   \<and> (i_connect ie = ConnectConnected \<longrightarrow>
        fst (ipcListen ie ctx) = i_listenReadOk ie \<and> \<not> waitForClient (snd (ipcListen ie ctx))
        \<and> ovRead (snd (ipcListen ie ctx)) = i_listenReadOk ie)
   \<and> (i_connect ie = ConnectFailed \<longrightarrow> \<not> fst (ipcListen ie ctx))"
  by (cases "i_connect ie") (simp_all add: ipcListen_def ipcReadAsync_def addCalls_def Let_def)

lemma ipcIsValidProcess_True:
  "ipcIsValidProcess exePath pe hp = Some True \<longleftrightarrow>
     hp \<and> (\<exists>peerPid peerPath. GetNamedPipeClientProcessId pe = Some peerPid \<and> OpenProcess pe peerPid
             \<and> GetModuleFileNameExW pe peerPid = Some peerPath \<and> length peerPath < MAX_PATH
             \<and> map towlower exePath = map towlower peerPath)"
  by (auto simp: ipcIsValidProcess_def wcsicmp_eq split: option.splits if_splits)

lemma ipcIsValidProcess_None:
  "ipcIsValidProcess exePath pe hp = None \<longleftrightarrow>
     hp \<and> (\<exists>peerPid peerPath. GetNamedPipeClientProcessId pe = Some peerPid \<and> OpenProcess pe peerPid
             \<and> GetModuleFileNameExW pe peerPid = Some peerPath \<and> MAX_PATH \<le> length peerPath)"
  by (auto simp: ipcIsValidProcess_def split: option.splits if_splits)


text \<open>
  Two examples: a peer whose image is another program, and a peer whose image path differs
  from the own path in the case of letters only.
\<close>

definition ownPath :: wstr where
  "ownPath = L ''C:'' @ [0x5C] @ L ''siguwi.exe''"

definition otherPath :: wstr where
  "otherPath = L ''C:'' @ [0x5C] @ L ''other.exe''"

definition upperCasePath :: wstr where
  "upperCasePath = L ''c:'' @ [0x5C] @ L ''SIGUWI.EXE''"

definition otherPeer :: tPeerEnv where
  "otherPeer = \<lparr>GetNamedPipeClientProcessId = Some 7, OpenProcess = (\<lambda>pid. True),
                 GetModuleFileNameExW = (\<lambda>pid. Some otherPath)\<rparr>"

definition upperCasePeer :: tPeerEnv where
  "upperCasePeer = \<lparr>GetNamedPipeClientProcessId = Some 7, OpenProcess = (\<lambda>pid. True),
                     GetModuleFileNameExW = (\<lambda>pid. Some upperCasePath)\<rparr>"

definition connectedEnv :: tIpcEnv where
  "connectedEnv = \<lparr>i_readOk = True, i_connect = ConnectConnected, i_listenReadOk = True\<rparr>"

lemma examplePaths:
  "map towlower ownPath = map towlower upperCasePath" "map towlower ownPath \<noteq> map towlower otherPath"
  "upperCasePath \<noteq> ownPath" "length upperCasePath < MAX_PATH" "length otherPath < MAX_PATH"
  by (simp_all add: ownPath_def upperCasePath_def otherPath_def L_eval towlower_def MAX_PATH_def)

lemma examplePeers:
  "ipcIsValidProcess ownPath otherPeer True = Some False"
  "ipcIsValidProcess ownPath upperCasePeer True = Some True"
  using examplePaths
  by (simp_all add: ipcIsValidProcess_def otherPeer_def upperCasePeer_def wcsicmp_eq)



section \<open>Fragmentation of the data of a client\<close>

text \<open>The process runner does not depend on the buffer of the pipe or on the pending read.\<close>

lemma withIpc_same:
  assumes "hPipe c = hPipe a" "waitForClient c = waitForClient a" "cfg c = cfg a"
    "cfgBase c = cfgBase a" "ipcState c = ipcState a" "capacity c = capacity a"
  shows "withIpc (a\<lparr>ovRead := rd, buf := b\<rparr>) c = c\<lparr>ovRead := rd, buf := b\<rparr>"
  using assms by (cases c; cases a) (simp add: withIpc_def)

lemma processNext_frame:
  "processNext os (ctx\<lparr>ovRead := rd, buf := b\<rparr>)
   = (fst (processNext os ctx), (snd (processNext os ctx))\<lparr>ovRead := rd, buf := b\<rparr>)"
proof -
  obtain r x where n: "processNext os ctx = (r, x)" by (cases "processNext os ctx")
  have f: "hPipe x = hPipe ctx" "waitForClient x = waitForClient ctx" "cfg x = cfg ctx"
    "cfgBase x = cfgBase ctx" "ipcState x = ipcState ctx" "capacity x = capacity ctx"
    using processNext_fields[of os ctx] by (simp_all add: n)
  have "processNext os (withIpc (ctx\<lparr>ovRead := rd, buf := b\<rparr>) ctx)
        = (r, withIpc (ctx\<lparr>ovRead := rd, buf := b\<rparr>) x)"
    using processStart_processNext_withIpc(2) n by blast
  moreover have "withIpc (ctx\<lparr>ovRead := rd, buf := b\<rparr>) ctx = ctx\<lparr>ovRead := rd, buf := b\<rparr>"
    by (rule withIpc_same) simp_all
  moreover have "withIpc (ctx\<lparr>ovRead := rd, buf := b\<rparr>) x = x\<lparr>ovRead := rd, buf := b\<rparr>"
    by (rule withIpc_same) (simp_all add: f)
  ultimately show ?thesis by (simp add: n)
qed

lemma processAddFile_frame:
  "processAddFile os c sApp fpath (ctx\<lparr>ovRead := rd, buf := b\<rparr>)
   = map_option (\<lambda>(ok, c'). (ok, c'\<lparr>ovRead := rd, buf := b\<rparr>)) (processAddFile os c sApp fpath ctx)"
proof (cases "\<exists>c' s'. c = Some c' \<and> sApp = Some s'")
  case False
  then show ?thesis by (cases c; cases sApp) (simp_all add: processAddFile_def)
next
  case True
  then obtain c' s' where cs: "c = Some c'" "sApp = Some s'" by blast
  have d: "procDangles (ctx\<lparr>ovRead := rd, buf := b\<rparr>) = procDangles ctx"
    by (simp add: procDangles_def)
  have i: "newItem os c' s' fpath (ctx\<lparr>ovRead := rd, buf := b\<rparr>) = newItem os c' s' fpath ctx"
    by (simp add: newItem_def)
  have p: "snd (vec_pushBack item (ctx\<lparr>ovRead := rd, buf := b\<rparr>))
           = (snd (vec_pushBack item ctx))\<lparr>ovRead := rd, buf := b\<rparr>" for item
    by (cases ctx) (simp add: vec_pushBack_def)
  show ?thesis unfolding cs processAddFile_unfold d i p processNext_frame by simp
qed

lemma processAddFile_frame_buf:
  "processAddFile os c sApp fpath (ctx\<lparr>buf := b\<rparr>)
   = map_option (\<lambda>(ok, c'). (ok, c'\<lparr>buf := b\<rparr>)) (processAddFile os c sApp fpath ctx)"
proof -
  have e: "ctx\<lparr>buf := b\<rparr> = ctx\<lparr>ovRead := ovRead ctx, buf := b\<rparr>" by simp
  have "processAddFile os c sApp fpath (ctx\<lparr>buf := b\<rparr>)
        = map_option (\<lambda>(ok, c'). (ok, c'\<lparr>ovRead := ovRead ctx, buf := b\<rparr>))
            (processAddFile os c sApp fpath ctx)"
    by (subst e) (rule processAddFile_frame)
  also have "\<dots> = map_option (\<lambda>(ok, c'). (ok, c'\<lparr>buf := b\<rparr>)) (processAddFile os c sApp fpath ctx)"
  proof (cases "processAddFile os c sApp fpath ctx")
    case None
    then show ?thesis by simp
  next
    case (Some r)
    obtain ok c' where r: "r = (ok, c')" by (cases r)
    have "ovRead c' = ovRead ctx" using processAddFile_fields(3) Some r by blast
    then have "c'\<lparr>ovRead := ovRead ctx, buf := b\<rparr> = c'\<lparr>buf := b\<rparr>" by (cases c') simp
    then show ?thesis by (simp add: Some r)
  qed
  finally show ?thesis .
qed

lemma buf_upd_comm:
  "(ctx\<lparr>buf := b\<rparr>)\<lparr>ipcState := s, cfg := c\<rparr> = (ctx\<lparr>ipcState := s, cfg := c\<rparr>)\<lparr>buf := b\<rparr>"
  "(ctx\<lparr>buf := b\<rparr>)\<lparr>ipcState := s, cfgBase := cb, cfg := c\<rparr>
     = (ctx\<lparr>ipcState := s, cfgBase := cb, cfg := c\<rparr>)\<lparr>buf := b\<rparr>"
  by (cases ctx, simp)+

lemma fieldDone_frame:
  "fieldDone os fl rest' (ctx\<lparr>buf := b\<rparr>)
   = map_option (\<lambda>(g, f', c). (g, f', c\<lparr>buf := rest'\<rparr>)) (fieldDone os fl rest ctx)"
proof (cases fl)
  case None
  then show ?thesis by (simp add: fieldDone_def)
next
  case (Some f)
  show ?thesis
    by (cases "processAddFile os (cfgBase ctx) (cfg_signApp (cfg ctx)) f ctx")
       (auto simp: fieldDone_def Some processAddFile_frame_buf)
qed

lemma ipcToken_fieldDone:
  assumes "ipcState ctx \<noteq> IST_SIGN_APP"
  shows "\<exists>Y fl2. \<forall>r b. ipcToken os fl start r (ctx\<lparr>buf := b\<rparr>) = fieldDone os fl2 r (Y\<lparr>buf := b\<rparr>)"
proof (cases "ipcState ctx")
  case IST_CERT_ID
  show ?thesis
    by (rule exI[of _ "ctx\<lparr>ipcState := IST_CARD_NAME,
                 cfg := (cfg ctx)\<lparr>cert := (cert (cfg ctx))\<lparr>certId := Some start\<rparr>\<rparr>\<rparr>"], rule exI[of _ fl])
       (simp add: ipcToken_def IST_CERT_ID buf_upd_comm)
next
  case IST_CARD_NAME
  show ?thesis
    by (rule exI[of _ "ctx\<lparr>ipcState := IST_CARD_READER,
                 cfg := (cfg ctx)\<lparr>cert := (cert (cfg ctx))\<lparr>cardName := Some start\<rparr>\<rparr>\<rparr>"], rule exI[of _ fl])
       (simp add: ipcToken_def IST_CARD_NAME buf_upd_comm)
next
  case IST_CARD_READER
  show ?thesis
    by (rule exI[of _ "ctx\<lparr>ipcState := IST_SIGN_APP,
                 cfg := (cfg ctx)\<lparr>cert := (cert (cfg ctx))\<lparr>cardReader := Some start\<rparr>\<rparr>\<rparr>"], rule exI[of _ fl])
       (simp add: ipcToken_def IST_CARD_READER buf_upd_comm)
next
  case IST_SIGN_APP
  then show ?thesis using assms by simp
next
  case IST_FILE
  show ?thesis
    by (rule exI[of _ ctx], rule exI[of _ "Some start"]) (simp add: ipcToken_def IST_FILE)
qed

lemma ctx_buf_self: "ctx\<lparr>buf := buf ctx\<rparr> = ctx"
  by simp

lemma ipcToken_frame:
  "\<exists>bf. ipcToken os fl start rest' (ctx\<lparr>buf := b\<rparr>)
     = map_option (\<lambda>(g, f', c). (g, f', c\<lparr>buf := (if g then rest' else bf)\<rparr>))
         (ipcToken os fl start rest ctx)"
proof (cases "ipcState ctx = IST_SIGN_APP")
  case True
  show ?thesis
    by (rule exI[of _ b], cases ctx) (use True in \<open>simp add: ipcToken_def Let_def\<close>)
next
  case False
  obtain Y fl2 where y: "\<And>r b. ipcToken os fl start r (ctx\<lparr>buf := b\<rparr>) = fieldDone os fl2 r (Y\<lparr>buf := b\<rparr>)"
    using ipcToken_fieldDone[OF False] by blast
  have a: "ipcToken os fl start rest ctx = fieldDone os fl2 rest Y"
    using y[of rest "buf ctx"] fieldDone_frame[where os = os and fl = fl2 and rest' = rest and ctx = Y and b = "buf ctx" and rest = rest]
    by (cases "fieldDone os fl2 rest Y") (auto simp: fieldDone_buf)
  have b: "ipcToken os fl start rest' (ctx\<lparr>buf := b\<rparr>)
        = map_option (\<lambda>(g, f', c). (g, f', c\<lparr>buf := rest'\<rparr>)) (fieldDone os fl2 rest Y)"
    using y[of rest' b] fieldDone_frame[where os = os and fl = fl2 and rest' = rest' and ctx = Y and b = b and rest = rest] by simp
  show ?thesis unfolding a
    by (rule exI[of _ rest'], cases "fieldDone os fl2 rest Y") (auto simp: b)
qed

lemma ipcToken_frame_None:
  "ipcToken os fl start rest ctx = None \<Longrightarrow> ipcToken os fl start rest' (ctx\<lparr>buf := b\<rparr>) = None"
  using ipcToken_frame[where os = os and fl = fl and start = start and rest' = rest' and ctx = ctx and b = b and rest = rest] by auto

lemma ipcToken_frame_True:
  "ipcToken os fl start rest ctx = Some (True, f', c')
   \<Longrightarrow> ipcToken os fl start rest' (ctx\<lparr>buf := b\<rparr>) = Some (True, f', c'\<lparr>buf := rest'\<rparr>)"
  using ipcToken_frame[where os = os and fl = fl and start = start and rest' = rest' and ctx = ctx and b = b and rest = rest] by auto

lemma ipcToken_frame_False:
  "ipcToken os fl start rest ctx = Some (False, f', c')
   \<Longrightarrow> \<exists>b'. ipcToken os fl start rest' (ctx\<lparr>buf := b\<rparr>) = Some (False, f', c'\<lparr>buf := b'\<rparr>)"
  using ipcToken_frame[where os = os and fl = fl and start = start and rest' = rest' and ctx = ctx and b = b and rest = rest] by auto

lemma ipcToken_file:
  "ipcState ctx = IST_FILE \<Longrightarrow> ipcToken os fl start rest ctx = ipcToken os None start rest ctx"
  by (simp add: ipcToken_def)

lemma ipcLoop_file:
  assumes "fl = None \<or> ipcState ctx = IST_FILE"
  shows "ipcLoop os fl ctx = ipcLoop os None ctx"
proof (cases "fl = None")
  case True
  then show ?thesis by simp
next
  case False
  then have s: "ipcState ctx = IST_FILE" using assms by blast
  show ?thesis
    unfolding ipcLoop.simps[of os fl ctx] ipcLoop.simps[of os None ctx]
    by (auto simp: ipcToken_file[OF s, of os fl] split: option.splits)
qed

lemma fieldDone_fields:
  assumes "fieldDone os fl rest ctx = Some (g, f', c')"
  shows "hPipe c' = hPipe ctx" "waitForClient c' = waitForClient ctx" "ovRead c' = ovRead ctx"
    "ipcState c' = ipcState ctx" "f' = fl"
proof -
  have "hPipe c' = hPipe ctx \<and> waitForClient c' = waitForClient ctx \<and> ovRead c' = ovRead ctx
        \<and> ipcState c' = ipcState ctx \<and> f' = fl"
  proof (cases fl)
    case None
    then show ?thesis using assms by (auto simp: fieldDone_def)
  next
    case (Some f)
    then obtain ok2 where p: "processAddFile os (cfgBase (ctx\<lparr>buf := rest\<rparr>))
          (cfg_signApp (cfg (ctx\<lparr>buf := rest\<rparr>))) f (ctx\<lparr>buf := rest\<rparr>) = Some (ok2, c')"
      and f: "f' = fl"
      using assms by (auto simp: fieldDone_def Let_def split: option.splits)
    show ?thesis using processAddFile_fields[OF p] f by simp
  qed
  then show "hPipe c' = hPipe ctx" "waitForClient c' = waitForClient ctx" "ovRead c' = ovRead ctx"
    "ipcState c' = ipcState ctx" "f' = fl"
    by simp_all
qed

lemma ipcToken_fields:
  assumes "ipcToken os fl start rest ctx = Some (g, f', c')"
  shows "hPipe c' = hPipe ctx" "waitForClient c' = waitForClient ctx" "ovRead c' = ovRead ctx"
    "fl = None \<or> ipcState ctx = IST_FILE \<Longrightarrow> f' = None \<or> ipcState c' = IST_FILE"
proof -
  have "hPipe c' = hPipe ctx \<and> waitForClient c' = waitForClient ctx \<and> ovRead c' = ovRead ctx
        \<and> (fl = None \<or> ipcState ctx = IST_FILE \<longrightarrow> f' = None \<or> ipcState c' = IST_FILE)"
  proof (cases "ipcState ctx")
    case IST_CERT_ID
    show ?thesis using assms fieldDone_fields[of os fl rest _ g f' c']
      by (auto simp: ipcToken_def IST_CERT_ID)
  next
    case IST_CARD_NAME
    show ?thesis using assms fieldDone_fields[of os fl rest _ g f' c']
      by (auto simp: ipcToken_def IST_CARD_NAME)
  next
    case IST_CARD_READER
    show ?thesis using assms fieldDone_fields[of os fl rest _ g f' c']
      by (auto simp: ipcToken_def IST_CARD_READER)
  next
    case IST_SIGN_APP
    show ?thesis using assms
      by (auto simp: ipcToken_def IST_SIGN_APP Let_def split: if_splits)
  next
    case IST_FILE
    show ?thesis using assms fieldDone_fields[of os "Some start" rest ctx g f' c']
      by (auto simp: ipcToken_def IST_FILE)
  qed
  then show "hPipe c' = hPipe ctx" "waitForClient c' = waitForClient ctx" "ovRead c' = ovRead ctx"
    "fl = None \<or> ipcState ctx = IST_FILE \<Longrightarrow> f' = None \<or> ipcState c' = IST_FILE"
    by simp_all
qed

lemma ipcLoop_fields:
  "ipcLoop os fl ctx = Some (g, c) \<Longrightarrow>
     hPipe c = hPipe ctx \<and> waitForClient c = waitForClient ctx \<and> ovRead c = ovRead ctx"
proof (induction os fl ctx rule: ipcLoop.induct)
  case (1 os fl ctx)
  show ?case
  proof (cases "scanNul (buf ctx)")
    case None
    then show ?thesis using "1.prems" by (simp add: ipcLoop.simps[of os fl ctx])
  next
    case (Some sr)
    obtain start rest where sr: "sr = (start, rest)" by (cases sr)
    show ?thesis
    proof (cases "ipcToken os fl start rest ctx")
      case None
      then show ?thesis using "1.prems" by (simp add: ipcLoop.simps[of os fl ctx] Some sr)
    next
      case t: (Some r)
      obtain go f' c' where r: "r = (go, f', c')" by (cases r)
      note tf = ipcToken_fields(1-3)[OF t[unfolded r]]
      show ?thesis
      proof (cases go)
        case True
        have "ipcLoop os f' c' = Some (g, c)"
          using "1.prems" by (simp add: ipcLoop.simps[of os fl ctx] Some sr t r True)
        then have "hPipe c = hPipe c' \<and> waitForClient c = waitForClient c' \<and> ovRead c = ovRead c'"
          using "1.IH"[OF Some sr[symmetric] t _ _ True, of "(f', c')" f' c'] r by simp
        then show ?thesis using tf by simp
      next
        case False
        have "c = c'" using "1.prems" by (simp add: ipcLoop.simps[of os fl ctx] Some sr t r False)
        then show ?thesis using tf by simp
      qed
    qed
  qed
qed

lemma ipcLoop_append:
  "fl = None \<or> ipcState ctx = IST_FILE \<Longrightarrow>
   (case ipcLoop os fl ctx of
      None \<Rightarrow> ipcLoop os fl (ctx\<lparr>buf := buf ctx @ y\<rparr>) = None
    | Some (go, c1) \<Rightarrow>
        if go then ipcLoop os fl (ctx\<lparr>buf := buf ctx @ y\<rparr>) = ipcLoop os None (c1\<lparr>buf := buf c1 @ y\<rparr>)
        else (\<exists>b. ipcLoop os fl (ctx\<lparr>buf := buf ctx @ y\<rparr>) = Some (False, c1\<lparr>buf := b\<rparr>)))"
proof (induction os fl ctx rule: ipcLoop.induct)
  case (1 os fl ctx)
  let ?A = "ctx\<lparr>buf := buf ctx @ y\<rparr>"
  show ?case
  proof (cases "scanNul (buf ctx)")
    case None
    have e: "ipcLoop os fl ctx = Some (True, ctx)" by (simp add: ipcLoop.simps[of os fl ctx] None)
    have "fl = None \<or> ipcState ?A = IST_FILE" using "1.prems" by simp
    then have "ipcLoop os fl ?A = ipcLoop os None ?A" by (rule ipcLoop_file)
    then show ?thesis by (simp add: e)
  next
    case (Some sr)
    obtain start rest where sr: "sr = (start, rest)" by (cases sr)
    have s: "scanNul (buf ctx) = Some (start, rest)" using Some sr by simp
    have s': "scanNul (buf ctx @ y) = Some (start, rest @ y)" by (rule scanNul_append[OF s])
    have u: "ipcLoop os fl ?A =
       (case ipcToken os fl start (rest @ y) ?A of
             None \<Rightarrow> None
           | Some (goOn, file', ctx') \<Rightarrow>
               if goOn then ipcLoop os file' ctx' else Some (False, ctx'))"
      by (subst ipcLoop.simps) (simp add: s')
    have u0: "ipcLoop os fl ctx =
       (case ipcToken os fl start rest ctx of
             None \<Rightarrow> None
           | Some (goOn, file', ctx') \<Rightarrow>
               if goOn then ipcLoop os file' ctx' else Some (False, ctx'))"
      by (subst ipcLoop.simps) (simp add: s)
    show ?thesis
    proof (cases "ipcToken os fl start rest ctx")
      case None
      have "ipcToken os fl start (rest @ y) ?A = None" by (rule ipcToken_frame_None[OF None])
      then show ?thesis by (simp add: u u0 None)
    next
      case t: (Some r)
      obtain go f' c' where r: "r = (go, f', c')" by (cases r)
      show ?thesis
      proof (cases go)
        case True
        have t1: "ipcToken os fl start rest ctx = Some (True, f', c')" using t r True by simp
        have t2: "ipcToken os fl start (rest @ y) ?A = Some (True, f', c'\<lparr>buf := rest @ y\<rparr>)"
          by (rule ipcToken_frame_True[OF t1])
        have b: "buf c' = rest" by (rule ipcToken_buf[OF t1])
        have ok: "f' = None \<or> ipcState c' = IST_FILE" by (rule ipcToken_fields(4)[OF t1 "1.prems"])
        have ih: "(case ipcLoop os f' c' of
            None \<Rightarrow> ipcLoop os f' (c'\<lparr>buf := buf c' @ y\<rparr>) = None
          | Some (go, c1) \<Rightarrow>
              if go then ipcLoop os f' (c'\<lparr>buf := buf c' @ y\<rparr>) = ipcLoop os None (c1\<lparr>buf := buf c1 @ y\<rparr>)
              else (\<exists>b. ipcLoop os f' (c'\<lparr>buf := buf c' @ y\<rparr>) = Some (False, c1\<lparr>buf := b\<rparr>)))"
          using "1.IH"[OF Some sr[symmetric] t _ _ True ok, of "(f', c')"] r by simp
        have e0: "ipcLoop os fl ctx = ipcLoop os f' c'" by (simp add: u0 t1)
        have e1: "ipcLoop os fl ?A = ipcLoop os f' (c'\<lparr>buf := buf c' @ y\<rparr>)" by (simp add: u t2 b)
        show ?thesis unfolding e0 e1 by (rule ih)
      next
        case False
        have t1: "ipcToken os fl start rest ctx = Some (False, f', c')" using t r False by simp
        obtain b' where t2: "ipcToken os fl start (rest @ y) ?A = Some (False, f', c'\<lparr>buf := b'\<rparr>)"
          using ipcToken_frame_False[OF t1] by blast
        show ?thesis by (auto simp: u u0 t1 t2 intro: exI[of _ b'])
      qed
    qed
  qed
qed

text \<open>
  A sequence of chunks can arrive at a context: a read is pending for every chunk, and
  the chunk has at least one byte and at most as many as the read has room for.
\<close>

fun chunksFit :: "tOs \<Rightarrow> tIpcEnv \<Rightarrow> u8 list list \<Rightarrow> tIpcWndCtx \<Rightarrow> bool" where
  "chunksFit os ie [] ctx = True"
| "chunksFit os ie (d # ds) ctx =
     (ovRead ctx \<and> d \<noteq> [] \<and> length d \<le> ipcReadCapacity ctx
      \<and> (case ipcHandleReadComplete os ie 0 d ctx of
            None \<Rightarrow> True
          | Some ctx' \<Rightarrow> chunksFit os ie ds ctx'))"

lemma ipcHandleReadComplete_unfold:
  assumes "d \<noteq> []" and "i_readOk ie"
  shows "ipcHandleReadComplete os ie 0 d ctx =
     (case ipcLoop os None (ctx\<lparr>ovRead := False, buf := buf ctx @ d\<rparr>) of
        None \<Rightarrow> None
      | Some (go, c1) \<Rightarrow>
          if go then Some (c1\<lparr>waitForClient := False, ovRead := True\<rparr>) else Some (onError c1))"
  using assms
  by (cases ctx) (auto simp: ipcHandleReadComplete_def ipcReadAsync_def split: option.splits)

lemma ipcHandleReadComplete_merge:
  assumes r: "i_readOk ie" and w: "\<not> waitForClient ctx" and d1: "d1 \<noteq> []" and d2: "d2 \<noteq> []"
  shows "ipcHandleReadComplete os ie 0 d1 ctx = None
         \<Longrightarrow> ipcHandleReadComplete os ie 0 (d1 @ d2) ctx = None"
    and "ipcHandleReadComplete os ie 0 d1 ctx = Some c1 \<Longrightarrow> ovRead c1
         \<Longrightarrow> \<not> waitForClient c1
             \<and> ipcHandleReadComplete os ie 0 d2 c1 = ipcHandleReadComplete os ie 0 (d1 @ d2) ctx"
proof -
  let ?B = "ctx\<lparr>ovRead := False, buf := buf ctx @ d1\<rparr>"
  have B: "ctx\<lparr>ovRead := False, buf := buf ctx @ d1 @ d2\<rparr> = ?B\<lparr>buf := buf ?B @ d2\<rparr>" by simp
  note ap = ipcLoop_append[of None ?B os d2, simplified]
  have u1: "ipcHandleReadComplete os ie 0 d1 ctx =
     (case ipcLoop os None ?B of
        None \<Rightarrow> None
      | Some (go, c1) \<Rightarrow>
          if go then Some (c1\<lparr>waitForClient := False, ovRead := True\<rparr>) else Some (onError c1))"
    by (rule ipcHandleReadComplete_unfold[OF d1 r])
  have u12: "ipcHandleReadComplete os ie 0 (d1 @ d2) ctx =
     (case ipcLoop os None (?B\<lparr>buf := buf ?B @ d2\<rparr>) of
        None \<Rightarrow> None
      | Some (go, c1) \<Rightarrow>
          if go then Some (c1\<lparr>waitForClient := False, ovRead := True\<rparr>) else Some (onError c1))"
    using ipcHandleReadComplete_unfold[of "d1 @ d2" ie os ctx] d1 r by simp
  show "ipcHandleReadComplete os ie 0 (d1 @ d2) ctx = None"
    if n: "ipcHandleReadComplete os ie 0 d1 ctx = None"
  proof -
    have "ipcLoop os None ?B = None" using n unfolding u1 by (auto split: option.splits if_splits)
    then have "ipcLoop os None (?B\<lparr>buf := buf ?B @ d2\<rparr>) = None" using ap by simp
    then show ?thesis unfolding u12 by simp
  qed
  show "\<not> waitForClient c1
             \<and> ipcHandleReadComplete os ie 0 d2 c1 = ipcHandleReadComplete os ie 0 (d1 @ d2) ctx"
    if s: "ipcHandleReadComplete os ie 0 d1 ctx = Some c1" and o: "ovRead c1"
  proof -
    obtain go cl where l: "ipcLoop os None ?B = Some (go, cl)"
      using s unfolding u1 by (auto split: option.splits)
    have f: "waitForClient cl = False" "ovRead cl = False"
      using ipcLoop_fields[OF l] w by simp_all
    have go: go
    proof (rule ccontr)
      assume "\<not> go"
      then have "c1 = onError cl" using s unfolding u1 l by simp
      then show False using o f by (simp add: onError_def addCalls_def)
    qed
    have c1: "c1 = cl\<lparr>waitForClient := False, ovRead := True\<rparr>" using s go unfolding u1 l by simp
    have bk: "c1\<lparr>ovRead := False\<rparr> = cl" unfolding c1 using f by (cases cl) simp
    have e: "c1\<lparr>ovRead := False, buf := buf c1 @ d2\<rparr> = cl\<lparr>buf := buf cl @ d2\<rparr>"
    proof -
      have "c1\<lparr>ovRead := False, buf := buf c1 @ d2\<rparr> = (c1\<lparr>ovRead := False\<rparr>)\<lparr>buf := buf (c1\<lparr>ovRead := False\<rparr>) @ d2\<rparr>"
        by simp
      then show ?thesis unfolding bk .
    qed
    have u2: "ipcHandleReadComplete os ie 0 d2 c1 =
     (case ipcLoop os None (cl\<lparr>buf := buf cl @ d2\<rparr>) of
        None \<Rightarrow> None
      | Some (go, c1) \<Rightarrow>
          if go then Some (c1\<lparr>waitForClient := False, ovRead := True\<rparr>) else Some (onError c1))"
      using ipcHandleReadComplete_unfold[OF d2 r, of os c1] unfolding e .
    have "ipcLoop os None (?B\<lparr>buf := buf ?B @ d2\<rparr>) = ipcLoop os None (cl\<lparr>buf := buf cl @ d2\<rparr>)"
      using ap l go by simp
    then have "ipcHandleReadComplete os ie 0 d2 c1 = ipcHandleReadComplete os ie 0 (d1 @ d2) ctx"
      unfolding u2 u12 by simp
    moreover have "\<not> waitForClient c1" unfolding c1 by simp
    ultimately show ?thesis by simp
  qed
qed

lemma ipcFeed_concat:
  assumes "i_readOk ie"
  shows "\<not> waitForClient ctx \<Longrightarrow> chunksFit os ie chunks ctx \<Longrightarrow> chunks \<noteq> []
     \<Longrightarrow> ipcFeed os ie chunks ctx = ipcHandleReadComplete os ie 0 (concat chunks) ctx"
proof (induction chunks arbitrary: ctx)
  case Nil
  then show ?case by simp
next
  case (Cons d ds)
  have d: "d \<noteq> []" using Cons.prems(2) by simp
  show ?case
  proof (cases "ds = []")
    case True
    then show ?thesis by (simp split: option.splits)
  next
    case False
    then obtain e es where ds: "ds = e # es" by (cases ds) auto
    show ?thesis
    proof (cases "ipcHandleReadComplete os ie 0 d ctx")
      case None
      have "ipcHandleReadComplete os ie 0 (d @ concat ds) ctx = None"
      proof (cases "concat ds = []")
        case True
        show ?thesis unfolding True by (simp add: None)
      next
        case ne: False
        show ?thesis by (rule ipcHandleReadComplete_merge(1)[OF assms Cons.prems(1) d ne None])
      qed
      then show ?thesis using None by simp
    next
      case (Some c1)
      have fit: "chunksFit os ie ds c1" using Cons.prems(2) Some by simp
      then have o: "ovRead c1" and e: "e \<noteq> []" unfolding ds by simp_all
      have ne: "concat ds \<noteq> []" using e ds by auto
      note m = ipcHandleReadComplete_merge(2)[OF assms Cons.prems(1) d ne Some o]
      have "ipcFeed os ie ds c1 = ipcHandleReadComplete os ie 0 (concat ds) c1"
        by (rule Cons.IH) (use m fit False in simp_all)
      then show ?thesis using Some m by simp
    qed
  qed
qed

text \<open>
  The bytes that \<^verbatim>\<open>ipcSendReqToServer\<close> (lines 69 to 97) writes for one string, the
  characters and the terminator, and for a request: the three strings of the certificate,
  the command and the paths of the files.
\<close>

definition encodeStr :: "wstr \<Rightarrow> u8 list" where
  "encodeStr s = wbytes (s @ [0])"

definition frameBytes :: "wstr \<Rightarrow> wstr \<Rightarrow> wstr \<Rightarrow> wstr \<Rightarrow> wstr list \<Rightarrow> u8 list" where
  "frameBytes cId cName cReader sApp files =
     encodeStr cId @ encodeStr cName @ encodeStr cReader @ encodeStr sApp @ concat (map encodeStr files)"

text \<open>
  The loop of \<^verbatim>\<open>showProcess\<close> (lines 1108 to 1112) that adds the files of the command line,
  one call of \<^verbatim>\<open>processAddFile\<close> for each file; \<open>False\<close> is the jump to \<^verbatim>\<open>onError\<close>.
\<close>

fun addFiles ::
    "tOs \<Rightarrow> tIniConfigBase option \<Rightarrow> wstr option \<Rightarrow> wstr list \<Rightarrow> tIpcWndCtx \<Rightarrow> (bool \<times> tIpcWndCtx) option" where
  "addFiles os c sApp [] ctx = Some (True, ctx)"
| "addFiles os c sApp (f # fs) ctx =
     (case processAddFile os c sApp f ctx of
        None \<Rightarrow> None
      | Some (ok, ctx') \<Rightarrow> if ok then addFiles os c sApp fs ctx' else Some (False, ctx'))"

lemma wchar_bytes: "wchar (ucast c) (ucast (drop_bit 8 c)) = c"
  unfolding wchar_def by (rule bit_word_eqI) (auto simp: bit_simps)

lemma encodeStr_Cons: "encodeStr (x # s) = ucast x # ucast (drop_bit 8 x) # encodeStr s"
  by (simp add: encodeStr_def wbytes_def)

lemma encodeStr_Nil: "encodeStr [] = [0, 0]"
  by (simp add: encodeStr_def wbytes_def)

lemma scanNul_encodeStr: "0 \<notin> set s \<Longrightarrow> scanNul (encodeStr s @ rest) = Some (s, rest)"
proof (induction s)
  case Nil
  then show ?case by (simp add: encodeStr_Nil wchar_def)
next
  case (Cons x s)
  then show ?case by (simp add: encodeStr_Cons wchar_bytes)
qed

lemma addFiles_frame:
  "addFiles os c sApp fs (ctx\<lparr>ovRead := rd, buf := b\<rparr>)
   = map_option (\<lambda>(ok, c'). (ok, c'\<lparr>ovRead := rd, buf := b\<rparr>)) (addFiles os c sApp fs ctx)"
proof (induction fs arbitrary: ctx)
  case Nil
  then show ?case by simp
next
  case (Cons f fs)
  show ?case
  proof (cases "processAddFile os c sApp f ctx")
    case None
    then show ?thesis by (simp add: processAddFile_frame)
  next
    case (Some r)
    obtain ok c' where r: "r = (ok, c')" by (cases r)
    show ?thesis using Cons.IH[of c'] by (simp add: processAddFile_frame Some r)
  qed
qed

lemma addFiles_frame_buf:
  "addFiles os c sApp fs (ctx\<lparr>buf := b\<rparr>)
   = map_option (\<lambda>(ok, c'). (ok, c'\<lparr>buf := b\<rparr>)) (addFiles os c sApp fs ctx)"
proof (induction fs arbitrary: ctx)
  case Nil
  then show ?case by simp
next
  case (Cons f fs)
  show ?case
  proof (cases "processAddFile os c sApp f ctx")
    case None
    then show ?thesis by (simp add: processAddFile_frame_buf)
  next
    case (Some r)
    obtain ok c' where r: "r = (ok, c')" by (cases r)
    show ?thesis using Cons.IH[of c'] by (simp add: processAddFile_frame_buf Some r)
  qed
qed

lemma addFiles_ok: "addFiles os (Some cb) (Some sa) fs ctx = Some (ok, c') \<Longrightarrow> ok"
proof (induction fs arbitrary: ctx)
  case Nil
  then show ?case by simp
next
  case (Cons f fs)
  then show ?case
    by (auto simp: processAddFile_unfold split: if_splits)
qed

lemma addFiles_fields:
  "addFiles os c sApp fs ctx = Some (ok, c') \<Longrightarrow>
     hPipe c' = hPipe ctx \<and> waitForClient c' = waitForClient ctx \<and> ovRead c' = ovRead ctx
     \<and> buf c' = buf ctx \<and> cfg c' = cfg ctx \<and> cfgBase c' = cfgBase ctx \<and> ipcState c' = ipcState ctx"
proof (induction fs arbitrary: ctx)
  case Nil
  then show ?case by simp
next
  case (Cons f fs)
  show ?case
  proof (cases "processAddFile os c sApp f ctx")
    case None
    then show ?thesis using Cons.prems by simp
  next
    case (Some r)
    obtain ok2 c2 where r: "r = (ok2, c2)" by (cases r)
    note f = processAddFile_fields[OF Some[unfolded r]]
    show ?thesis
    proof (cases ok2)
      case True
      then have "addFiles os c sApp fs c2 = Some (ok, c')" using Cons.prems Some r by simp
      then show ?thesis using Cons.IH[of c2] f by simp
    next
      case False
      then have "c' = c2" using Cons.prems Some r by simp
      then show ?thesis using f by simp
    qed
  qed
qed

lemma ipcLoop_step:
  assumes "scanNul (buf ctx) = Some (start, rest)"
    and "ipcToken os fl start rest ctx = Some (True, f', c')"
  shows "ipcLoop os fl ctx = ipcLoop os f' c'"
  by (subst ipcLoop.simps) (simp add: assms)

lemma ipcLoop_files:
  "ipcState ctx = IST_FILE \<Longrightarrow> cfgBase ctx = Some cb \<Longrightarrow> cfg_signApp (cfg ctx) = Some sa
    \<Longrightarrow> \<forall>f \<in> set fs. 0 \<notin> set f \<Longrightarrow> buf ctx = concat (map encodeStr fs)
    \<Longrightarrow> ipcLoop os fl ctx
        = map_option (\<lambda>(ok, c). (ok, c\<lparr>buf := []\<rparr>)) (addFiles os (Some cb) (Some sa) fs ctx)"
proof (induction fs arbitrary: ctx fl)
  case Nil
  have b: "buf ctx = []" using Nil.prems(5) by simp
  have "ctx\<lparr>buf := []\<rparr> = ctx" using b by (cases ctx) simp
  then show ?case by (simp add: ipcLoop.simps[of os fl ctx] b)
next
  case (Cons f fs)
  let ?R = "concat (map encodeStr fs)"
  have z: "0 \<notin> set f" using Cons.prems(4) by simp
  have s: "scanNul (buf ctx) = Some (f, ?R)"
    using scanNul_encodeStr[OF z, of ?R] Cons.prems(5) by simp
  have t: "ipcToken os fl f ?R ctx =
      (case processAddFile os (Some cb) (Some sa) f ctx of
         None \<Rightarrow> None
       | Some (ok, c2) \<Rightarrow> Some (ok, Some f, c2\<lparr>buf := ?R\<rparr>))"
    by (cases "processAddFile os (Some cb) (Some sa) f ctx")
       (auto simp: ipcToken_def fieldDone_def Cons.prems(1,2,3) processAddFile_frame_buf)
  show ?case
  proof (cases "processAddFile os (Some cb) (Some sa) f ctx")
    case None
    then show ?thesis by (simp add: ipcLoop.simps[of os fl ctx] s t)
  next
    case (Some r)
    obtain ok c2 where r: "r = (ok, c2)" by (cases r)
    have ok: ok using Some r by (auto simp: processAddFile_unfold split: if_splits)
    note f = processAddFile_fields[OF Some[unfolded r]]
    have t': "ipcToken os fl f ?R ctx = Some (True, Some f, c2\<lparr>buf := ?R\<rparr>)"
      using t Some r ok by simp
    have "ipcLoop os fl ctx = ipcLoop os (Some f) (c2\<lparr>buf := ?R\<rparr>)"
      by (rule ipcLoop_step[OF s t'])
    also have "\<dots> = map_option (\<lambda>(ok, c). (ok, c\<lparr>buf := []\<rparr>))
                      (addFiles os (Some cb) (Some sa) fs (c2\<lparr>buf := ?R\<rparr>))"
      by (rule Cons.IH) (use f Cons.prems in simp_all)
    also have "\<dots> = map_option (\<lambda>(ok, c). (ok, c\<lparr>buf := []\<rparr>)) (addFiles os (Some cb) (Some sa) fs c2)"
      by (cases "addFiles os (Some cb) (Some sa) fs c2") (auto simp: addFiles_frame_buf)
    finally show ?thesis using Some r ok by simp
  qed
qed

lemma addFiles_run:
  "map_option snd (addFiles os (Some cb) (Some sa) fs ctx) = run os (map (AddFile cb sa) fs) ctx"
proof (induction fs arbitrary: ctx)
  case Nil
  then show ?case by simp
next
  case (Cons f fs)
  show ?case
  proof (cases "processAddFile os (Some cb) (Some sa) f ctx")
    case None
    then show ?thesis by simp
  next
    case (Some r)
    obtain ok c2 where r: "r = (ok, c2)" by (cases r)
    have ok: ok using Some r by (auto simp: processAddFile_unfold split: if_splits)
    show ?thesis using Cons.IH[of c2] by (simp add: Some r ok)
  qed
qed

lemma ipcLoop_header:
  assumes st: "ipcState ctx = IST_CERT_ID"
    and z: "0 \<notin> set a" "0 \<notin> set b" "0 \<notin> set c" "0 \<notin> set s"
    and bf: "buf ctx = frameBytes a b c s fs"
  shows "ipcLoop os None ctx
    = ipcLoop os None
        (ctx\<lparr>ipcState := IST_FILE,
             cfg := \<lparr>cert = \<lparr>certId = Some a, cardName = Some b, cardReader = Some c\<rparr>,
                     cfg_signApp = Some s\<rparr>,
             cfgBase := Some \<lparr>certId = Some a, cardName = Some b, cardReader = Some c\<rparr>,
             buf := concat (map encodeStr fs)\<rparr>)"
proof -
  let ?F = "concat (map encodeStr fs)"
  let ?R3 = "encodeStr s @ ?F"
  let ?R2 = "encodeStr c @ ?R3"
  let ?R1 = "encodeStr b @ ?R2"
  define c1 where "c1 = (ctx\<lparr>ipcState := IST_CARD_NAME,
      cfg := (cfg ctx)\<lparr>cert := (cert (cfg ctx))\<lparr>certId := Some a\<rparr>\<rparr>\<rparr>)\<lparr>buf := ?R1\<rparr>"
  define c2 where "c2 = (c1\<lparr>ipcState := IST_CARD_READER,
      cfg := (cfg c1)\<lparr>cert := (cert (cfg c1))\<lparr>cardName := Some b\<rparr>\<rparr>\<rparr>)\<lparr>buf := ?R2\<rparr>"
  define c3 where "c3 = (c2\<lparr>ipcState := IST_SIGN_APP,
      cfg := (cfg c2)\<lparr>cert := (cert (cfg c2))\<lparr>cardReader := Some c\<rparr>\<rparr>\<rparr>)\<lparr>buf := ?R3\<rparr>"
  define c4 where "c4 = (c3\<lparr>ipcState := IST_FILE, cfgBase := rcIniConfigBaseCreate (cert (cfg c3)),
      cfg := (cfg c3)\<lparr>cfg_signApp := Some s\<rparr>\<rparr>)\<lparr>buf := ?F\<rparr>"
  have s1: "scanNul (buf ctx) = Some (a, ?R1)"
    using scanNul_encodeStr[OF z(1), of ?R1] by (simp add: bf frameBytes_def)
  have t1: "ipcToken os None a ?R1 ctx = Some (True, None, c1)"
    by (simp add: ipcToken_def fieldDone_def st c1_def)
  have f1: "ipcState c1 = IST_CARD_NAME" "buf c1 = ?R1" by (simp_all add: c1_def)
  have s2: "scanNul (buf c1) = Some (b, ?R2)"
    using scanNul_encodeStr[OF z(2), of ?R2] by (simp add: f1)
  have t2: "ipcToken os None b ?R2 c1 = Some (True, None, c2)"
    by (simp add: ipcToken_def fieldDone_def f1 c2_def)
  have f2: "ipcState c2 = IST_CARD_READER" "buf c2 = ?R2" by (simp_all add: c2_def)
  have s3: "scanNul (buf c2) = Some (c, ?R3)"
    using scanNul_encodeStr[OF z(3), of ?R3] by (simp add: f2)
  have t3: "ipcToken os None c ?R3 c2 = Some (True, None, c3)"
    by (simp add: ipcToken_def fieldDone_def f2 c3_def)
  have f3: "ipcState c3 = IST_SIGN_APP" "buf c3 = ?R3"
    "cert (cfg c3) = (cert (cfg ctx))\<lparr>certId := Some a, cardName := Some b, cardReader := Some c\<rparr>"
    by (simp_all add: c3_def c2_def c1_def)
  have s4: "scanNul (buf c3) = Some (s, ?F)"
    using scanNul_encodeStr[OF z(4), of ?F] by (simp add: f3)
  have cb: "rcIniConfigBaseCreate (cert (cfg c3))
            = Some \<lparr>certId = Some a, cardName = Some b, cardReader = Some c\<rparr>"
    unfolding f3(3) by (cases "cert (cfg ctx)") (simp add: rcIniConfigBaseCreate_def)
  have t4: "ipcToken os None s ?F c3 = Some (True, None, c4)"
    by (simp add: ipcToken_def Let_def f3(1) c4_def cb)
  have e: "c4 = ctx\<lparr>ipcState := IST_FILE,
             cfg := \<lparr>cert = \<lparr>certId = Some a, cardName = Some b, cardReader = Some c\<rparr>,
                     cfg_signApp = Some s\<rparr>,
             cfgBase := Some \<lparr>certId = Some a, cardName = Some b, cardReader = Some c\<rparr>,
             buf := concat (map encodeStr fs)\<rparr>"
    unfolding c4_def cb unfolding c3_def c2_def c1_def
    by (cases ctx; cases "cfg ctx"; cases "cert (cfg ctx)") simp
  have "ipcLoop os None ctx = ipcLoop os None c1" by (rule ipcLoop_step[OF s1 t1])
  also have "\<dots> = ipcLoop os None c2" by (rule ipcLoop_step[OF s2 t2])
  also have "\<dots> = ipcLoop os None c3" by (rule ipcLoop_step[OF s3 t3])
  also have "\<dots> = ipcLoop os None c4" by (rule ipcLoop_step[OF s4 t4])
  finally show ?thesis unfolding e .
qed

lemma frameBytes_nonempty: "frameBytes a b c s fs \<noteq> []"
  by (cases a) (simp_all add: frameBytes_def encodeStr_Nil encodeStr_Cons)

text \<open>
  The context after the four strings of the header: the fields that
  \<^verbatim>\<open>ipcHandleReadComplete\<close> has set when it reaches the state \<^verbatim>\<open>IST_FILE\<close>.
\<close>

definition headerCtx :: "wstr \<Rightarrow> wstr \<Rightarrow> wstr \<Rightarrow> wstr \<Rightarrow> tIpcWndCtx \<Rightarrow> tIpcWndCtx" where
  "headerCtx cId cName cReader sApp ctx =
     ctx\<lparr>ipcState := IST_FILE,
         cfg := \<lparr>cert = \<lparr>certId = Some cId, cardName = Some cName, cardReader = Some cReader\<rparr>,
                 cfg_signApp = Some sApp\<rparr>,
         cfgBase := Some \<lparr>certId = Some cId, cardName = Some cName, cardReader = Some cReader\<rparr>\<rparr>"

lemma ipcHandleReadComplete_frame:
  assumes r: "i_readOk ie" and w: "\<not> waitForClient ctx" and o: "ovRead ctx" and e: "buf ctx = []"
    and st: "ipcState ctx = IST_CERT_ID"
    and z: "0 \<notin> set a" "0 \<notin> set b" "0 \<notin> set c" "0 \<notin> set s" and zf: "\<forall>f \<in> set fs. 0 \<notin> set f"
  shows "ipcHandleReadComplete os ie 0 (frameBytes a b c s fs) ctx
    = run os (map (AddFile \<lparr>certId = Some a, cardName = Some b, cardReader = Some c\<rparr> s) fs)
        (headerCtx a b c s ctx)"
proof -
  let ?base = "\<lparr>certId = Some a, cardName = Some b, cardReader = Some c\<rparr>"
  let ?X = "headerCtx a b c s ctx"
  let ?B = "ctx\<lparr>ovRead := False, buf := buf ctx @ frameBytes a b c s fs\<rparr>"
  let ?F = "concat (map encodeStr fs)"
  have u: "ipcHandleReadComplete os ie 0 (frameBytes a b c s fs) ctx =
     (case ipcLoop os None ?B of
        None \<Rightarrow> None
      | Some (go, c1) \<Rightarrow>
          if go then Some (c1\<lparr>waitForClient := False, ovRead := True\<rparr>) else Some (onError c1))"
    by (rule ipcHandleReadComplete_unfold[OF frameBytes_nonempty r])
  have b4: "?B\<lparr>ipcState := IST_FILE,
             cfg := \<lparr>cert = ?base, cfg_signApp = Some s\<rparr>,
             cfgBase := Some ?base, buf := ?F\<rparr> = ?X\<lparr>ovRead := False, buf := ?F\<rparr>"
    unfolding headerCtx_def by (cases ctx) simp
  have "ipcLoop os None ?B = ipcLoop os None (?B\<lparr>ipcState := IST_FILE,
             cfg := \<lparr>cert = ?base, cfg_signApp = Some s\<rparr>,
             cfgBase := Some ?base, buf := ?F\<rparr>)"
    by (rule ipcLoop_header) (simp_all add: st e z)
  then have l1: "ipcLoop os None ?B = ipcLoop os None (?X\<lparr>ovRead := False, buf := ?F\<rparr>)"
    unfolding b4 .
  have l2: "ipcLoop os None (?X\<lparr>ovRead := False, buf := ?F\<rparr>)
      = map_option (\<lambda>(ok, c). (ok, c\<lparr>buf := []\<rparr>))
          (addFiles os (Some ?base) (Some s) fs (?X\<lparr>ovRead := False, buf := ?F\<rparr>))"
    by (rule ipcLoop_files) (simp_all add: headerCtx_def zf)
  show ?thesis
  proof (cases "addFiles os (Some ?base) (Some s) fs ?X")
    case None
    then have "run os (map (AddFile ?base s) fs) ?X = None"
      using addFiles_run[of os ?base s fs ?X] by simp
    moreover have "ipcLoop os None ?B = None"
      unfolding l1 l2 by (simp add: addFiles_frame None)
    ultimately show ?thesis unfolding u by simp
  next
    case (Some res)
    obtain ok c' where res: "res = (ok, c')" by (cases res)
    have ok: ok using addFiles_ok Some res by blast
    have run: "run os (map (AddFile ?base s) fs) ?X = Some c'"
      using addFiles_run[of os ?base s fs ?X] Some res by simp
    have f: "waitForClient c' = False" "ovRead c' = True" "buf c' = []"
      using addFiles_fields[OF Some[unfolded res]] w o e by (simp_all add: headerCtx_def)
    have l: "ipcLoop os None ?B = Some (True, c'\<lparr>ovRead := False, buf := []\<rparr>)"
      unfolding l1 l2 by (simp add: addFiles_frame Some res ok)
    have "c'\<lparr>ovRead := False, buf := [], waitForClient := False, ovRead := True\<rparr> = c'"
      using f by (cases c') simp
    then show ?thesis unfolding u l run by simp
  qed
qed

lemma processAddFile_path:
  assumes q: "queueInv ctx" and r: "processAddFile os (Some c) (Some sApp) fpath ctx = Some (ok, ctx')"
  shows "path (v ctx' ! length (v ctx)) = path (newItem os c sApp fpath ctx)"
proof -
  let ?item = "newItem os c sApp fpath ctx"
  let ?ca = "snd (vec_pushBack ?item ctx)"
  have c': "ctx' = snd (processNext os ?ca)"
    using r by (simp add: processAddFile_unfold split: if_splits)
  have "state ?item \<noteq> PST_RUNNING" by (simp add: newItem_def)
  then have "queueInv ?ca" by (rule queueInv_append[OF q])
  then have "jobsStep ?ca ctx'" using processStart_processNext_inv(2) c' by blast
  moreover have "length (v ctx) < length (v ?ca)" by simp
  ultimately have "path (v ctx' ! length (v ctx)) = path (v ?ca ! length (v ctx))"
    unfolding jobsStep_def by blast
  then show ?thesis by simp
qed

lemma run_adds_jobs:
  "queueInv ctx \<Longrightarrow> run os (map (AddFile cb sa) fs) ctx = Some c' \<Longrightarrow>
     queueInv c' \<and> jobsExt ctx c' \<and> length (v c') = length (v ctx) + length fs
     \<and> (\<forall>i < length fs.
           config (v c' ! (length (v ctx) + i)) = cb \<and> signApp (v c' ! (length (v ctx) + i)) = sa
           \<and> path (v c' ! (length (v ctx) + i))
               = (case e_fullPath (jobEnv os (length (v ctx) + i)) of None \<Rightarrow> fs ! i | Some p \<Rightarrow> p))"
proof (induction fs arbitrary: ctx)
  case Nil
  then show ?case by (simp add: jobsExt_refl)
next
  case (Cons f fs)
  obtain r where p0: "processAddFile os (Some cb) (Some sa) f ctx = Some r"
    and r0: "run os (map (AddFile cb sa) fs) (snd r) = Some c'"
    using Cons.prems(2) by (auto split: option.splits)
  obtain ok c2 where r: "r = (ok, c2)" by (cases r)
  have p: "processAddFile os (Some cb) (Some sa) f ctx = Some (ok, c2)" using p0 r by simp
  have r2: "run os (map (AddFile cb sa) fs) c2 = Some c'" using r0 r by simp
  note a = processAddFile_inv[OF Cons.prems(1) p]
  note pa = processAddFile_path[OF Cons.prems(1) p]
  let ?n = "length (v ctx)"
  have ih: "queueInv c' \<and> jobsExt c2 c' \<and> length (v c') = length (v c2) + length fs
     \<and> (\<forall>i < length fs.
           config (v c' ! (length (v c2) + i)) = cb \<and> signApp (v c' ! (length (v c2) + i)) = sa
           \<and> path (v c' ! (length (v c2) + i))
               = (case e_fullPath (jobEnv os (length (v c2) + i)) of None \<Rightarrow> fs ! i | Some p \<Rightarrow> p))"
    by (rule Cons.IH[OF a(1) r2])
  have ext: "jobsExt ctx c'" using jobsExt_trans[OF a(3)] ih by blast
  have len: "length (v c') = ?n + length (f # fs)" using ih a(2) by simp
  have new: "config (v c' ! (?n + i)) = cb \<and> signApp (v c' ! (?n + i)) = sa
           \<and> path (v c' ! (?n + i))
               = (case e_fullPath (jobEnv os (?n + i)) of None \<Rightarrow> (f # fs) ! i | Some p \<Rightarrow> p)"
    if i: "i < length (f # fs)" for i
  proof (cases i)
    case 0
    have lt: "?n < length (v c2)" using a(2) by simp
    have "config (v c' ! ?n) = config (v c2 ! ?n) \<and> signApp (v c' ! ?n) = signApp (v c2 ! ?n)
          \<and> path (v c' ! ?n) = path (v c2 ! ?n)"
      using ih lt unfolding jobsExt_def by blast
    then show ?thesis using a(5) pa by (simp add: 0 newItem_def split: option.splits)
  next
    case (Suc j)
    have j: "j < length fs" using i Suc by simp
    have "config (v c' ! (length (v c2) + j)) = cb \<and> signApp (v c' ! (length (v c2) + j)) = sa
           \<and> path (v c' ! (length (v c2) + j))
               = (case e_fullPath (jobEnv os (length (v c2) + j)) of None \<Rightarrow> fs ! j | Some p \<Rightarrow> p)"
      using ih j by blast
    then show ?thesis by (simp add: Suc a(2) split: option.splits)
  qed
  show ?case using ih ext len new by blast
qed

lemma ipcLoop_buf_le: "ipcLoop os fl ctx = Some (True, c) \<Longrightarrow> length (buf c) \<le> length (buf ctx)"
proof (induction os fl ctx rule: ipcLoop.induct)
  case (1 os fl ctx)
  show ?case
  proof (cases "scanNul (buf ctx)")
    case None
    then show ?thesis using "1.prems" by (simp add: ipcLoop.simps[of os fl ctx])
  next
    case (Some sr)
    obtain start rest where sr: "sr = (start, rest)" by (cases sr)
    have s: "scanNul (buf ctx) = Some (start, rest)" using Some sr by simp
    show ?thesis
    proof (cases "ipcToken os fl start rest ctx")
      case None
      then show ?thesis using "1.prems" by (simp add: ipcLoop.simps[of os fl ctx] Some sr)
    next
      case t: (Some r)
      obtain go f' c' where r: "r = (go, f', c')" by (cases r)
      show ?thesis
      proof (cases go)
        case True
        have t1: "ipcToken os fl start rest ctx = Some (True, f', c')" using t r True by simp
        have "ipcLoop os f' c' = Some (True, c)"
          using "1.prems" by (simp add: ipcLoop.simps[of os fl ctx] Some sr t r True)
        then have "length (buf c) \<le> length (buf c')"
          using "1.IH"[OF Some sr[symmetric] t _ _ True, of "(f', c')" f' c'] r by simp
        then show ?thesis using ipcToken_buf[OF t1] scanNul_length[OF s] by simp
      next
        case False
        then show ?thesis using "1.prems" by (simp add: ipcLoop.simps[of os fl ctx] Some sr t r)
      qed
    qed
  qed
qed

lemma chunksFit_total:
  assumes r: "i_readOk ie"
  shows "\<not> waitForClient ctx \<Longrightarrow> ovRead ctx \<Longrightarrow> \<forall>d \<in> set chunks. d \<noteq> []
    \<Longrightarrow> length (buf ctx) + length (concat chunks) \<le> ipcBufSize
    \<Longrightarrow> \<forall>c. ipcLoop os None (ctx\<lparr>ovRead := False, buf := buf ctx @ concat chunks\<rparr>) \<noteq> Some (False, c)
    \<Longrightarrow> chunksFit os ie chunks ctx"
proof (induction chunks arbitrary: ctx)
  case Nil
  then show ?case by simp
next
  case (Cons d ds)
  let ?B = "ctx\<lparr>ovRead := False, buf := buf ctx @ d\<rparr>"
  have d: "d \<noteq> []" using Cons.prems(3) by simp
  have W: "ctx\<lparr>ovRead := False, buf := buf ctx @ concat (d # ds)\<rparr> = ?B\<lparr>buf := buf ?B @ concat ds\<rparr>"
    by simp
  have nf: "ipcLoop os None (?B\<lparr>buf := buf ?B @ concat ds\<rparr>) \<noteq> Some (False, c)" for c
    using Cons.prems(5) unfolding W by blast
  note ap = ipcLoop_append[of None ?B os "concat ds", simplified]
  have u1: "ipcHandleReadComplete os ie 0 d ctx =
     (case ipcLoop os None ?B of
        None \<Rightarrow> None
      | Some (go, c1) \<Rightarrow>
          if go then Some (c1\<lparr>waitForClient := False, ovRead := True\<rparr>) else Some (onError c1))"
    by (rule ipcHandleReadComplete_unfold[OF d r])
  have cap: "length d \<le> ipcReadCapacity ctx"
    using Cons.prems(4) by (simp add: ipcReadCapacity_def)
  show ?case
  proof (cases "ipcLoop os None ?B")
    case None
    then show ?thesis using Cons.prems(2) d cap by (simp add: u1)
  next
    case (Some res)
    obtain go cl where res: "res = (go, cl)" by (cases res)
    have l: "ipcLoop os None ?B = Some (go, cl)" using Some res by simp
    have go: go
    proof (rule ccontr)
      assume "\<not> go"
      then obtain b where "ipcLoop os None (?B\<lparr>buf := buf ?B @ concat ds\<rparr>) = Some (False, cl\<lparr>buf := b\<rparr>)"
        using ap l by auto
      then show False using nf by blast
    qed
    have l': "ipcLoop os None ?B = Some (True, cl)" using l go by simp
    have f: "waitForClient cl = False" "ovRead cl = False"
      using ipcLoop_fields[OF l] Cons.prems(1) by simp_all
    let ?c1 = "cl\<lparr>waitForClient := False, ovRead := True\<rparr>"
    have h: "ipcHandleReadComplete os ie 0 d ctx = Some ?c1" by (simp add: u1 l go)
    have bk: "?c1\<lparr>ovRead := False\<rparr> = cl" using f by (cases cl) simp
    have e: "?c1\<lparr>ovRead := False, buf := buf ?c1 @ concat ds\<rparr> = cl\<lparr>buf := buf cl @ concat ds\<rparr>"
    proof -
      have "?c1\<lparr>ovRead := False, buf := buf ?c1 @ concat ds\<rparr>
            = (?c1\<lparr>ovRead := False\<rparr>)\<lparr>buf := buf (?c1\<lparr>ovRead := False\<rparr>) @ concat ds\<rparr>"
        by simp
      then show ?thesis unfolding bk .
    qed
    have same: "ipcLoop os None (?B\<lparr>buf := buf ?B @ concat ds\<rparr>) = ipcLoop os None (cl\<lparr>buf := buf cl @ concat ds\<rparr>)"
      using ap l go by simp
    have len: "length (buf cl) \<le> length (buf ctx) + length d"
      using ipcLoop_buf_le[OF l'] by simp
    have "chunksFit os ie ds ?c1"
    proof (rule Cons.IH)
      show "\<not> waitForClient ?c1" by simp
      show "ovRead ?c1" by simp
      show "\<forall>d \<in> set ds. d \<noteq> []" using Cons.prems(3) by simp
      show "length (buf ?c1) + length (concat ds) \<le> ipcBufSize"
        using len Cons.prems(4) by simp
      show "\<forall>c. ipcLoop os None (?c1\<lparr>ovRead := False, buf := buf ?c1 @ concat ds\<rparr>) \<noteq> Some (False, c)"
        unfolding e using same nf by simp
    qed
    then show ?thesis using Cons.prems(2) d cap by (simp add: h)
  qed
qed

lemma ipcLoop_frame_ok:
  assumes e: "buf ctx = []" and st: "ipcState ctx = IST_CERT_ID"
    and z: "0 \<notin> set a" "0 \<notin> set b" "0 \<notin> set c" "0 \<notin> set s" and zf: "\<forall>f \<in> set fs. 0 \<notin> set f"
  shows "ipcLoop os None (ctx\<lparr>ovRead := False, buf := buf ctx @ frameBytes a b c s fs\<rparr>) \<noteq> Some (False, c')"
proof -
  let ?base = "\<lparr>certId = Some a, cardName = Some b, cardReader = Some c\<rparr>"
  let ?X = "headerCtx a b c s ctx"
  let ?B = "ctx\<lparr>ovRead := False, buf := buf ctx @ frameBytes a b c s fs\<rparr>"
  let ?F = "concat (map encodeStr fs)"
  have b4: "?B\<lparr>ipcState := IST_FILE,
             cfg := \<lparr>cert = ?base, cfg_signApp = Some s\<rparr>,
             cfgBase := Some ?base, buf := ?F\<rparr> = ?X\<lparr>ovRead := False, buf := ?F\<rparr>"
    unfolding headerCtx_def by (cases ctx) simp
  have "ipcLoop os None ?B = ipcLoop os None (?B\<lparr>ipcState := IST_FILE,
             cfg := \<lparr>cert = ?base, cfg_signApp = Some s\<rparr>,
             cfgBase := Some ?base, buf := ?F\<rparr>)"
    by (rule ipcLoop_header) (simp_all add: st e z)
  then have l1: "ipcLoop os None ?B = ipcLoop os None (?X\<lparr>ovRead := False, buf := ?F\<rparr>)"
    unfolding b4 .
  have l2: "ipcLoop os None (?X\<lparr>ovRead := False, buf := ?F\<rparr>)
      = map_option (\<lambda>(ok, c). (ok, c\<lparr>buf := []\<rparr>))
          (addFiles os (Some ?base) (Some s) fs (?X\<lparr>ovRead := False, buf := ?F\<rparr>))"
    by (rule ipcLoop_files) (simp_all add: headerCtx_def zf)
  show ?thesis
  proof
    assume a: "ipcLoop os None ?B = Some (False, c')"
    then obtain c2 where "addFiles os (Some ?base) (Some s) fs (?X\<lparr>ovRead := False, buf := ?F\<rparr>) = Some (False, c2)"
      unfolding l1 l2 by auto
    then show False using addFiles_ok by blast
  qed
qed

lemma numAdds_map_AddFile: "numAdds (map (AddFile cb sa) fs) = length fs"
  by (induction fs) (simp_all add: numAdds_def isAddFile_def)

lemma headerCtx_fields:
  "v (headerCtx a b c s ctx) = v ctx" "queueInv (headerCtx a b c s ctx) = queueInv ctx"
  "capInv (headerCtx a b c s ctx) = capInv ctx"
  by (simp_all add: headerCtx_def queueInv_def capInv_def)


text \<open>An example: a request for two files, one byte at a time and all at once.\<close>

definition exampleFrame :: "u8 list" where
  "exampleFrame = frameBytes (L ''id'') (L ''card'') (L ''reader'') (L ''tool.exe %1'')
                    [L ''a.exe'', L ''b.exe'']"

lemma concat_singletons: "concat (map (\<lambda>x. [x]) xs) = xs"
  by (induction xs) simp_all

lemma length_encodeStr: "length (encodeStr s) = 2 * length s + 2"
  by (induction s) (simp_all add: encodeStr_Nil encodeStr_Cons)

lemma L_no_nul: "0 \<notin> set (L ''id'')" "0 \<notin> set (L ''card'')" "0 \<notin> set (L ''reader'')"
  "0 \<notin> set (L ''tool.exe %1'')" "\<forall>f \<in> set [L ''a.exe'', L ''b.exe'']. 0 \<notin> set f"
  by (simp_all add: L_eval)


end
